(* ===== verification/Prelude.thy ===== *)
theory Prelude
  imports Main "HOL-Library.AList" "HOL-Library.Word" "HOL-Library.Multiset"
begin

text \<open>
  Shared material of the development: the sequencing of fallible operations (an operation that can
  throw returns \<open>error + result\<close>), association lists as the model of \<open>std::map\<close>, and the generic
  lemmas on lists that the component theories use.
\<close>

section \<open>Fallible operations\<close>

definition sbind :: "'e + 'a \<Rightarrow> ('a \<Rightarrow> 'e + 'b) \<Rightarrow> 'e + 'b" where
  "sbind r f = (case r of Inl e \<Rightarrow> Inl e | Inr a \<Rightarrow> f a)"

lemma sbind_simps [simp]:
  "sbind (Inl e) f = Inl e"
  "sbind (Inr a) f = f a"
  by (simp_all add: sbind_def)

lemma sbind_eq_Inr: "sbind r f = Inr b \<longleftrightarrow> (\<exists>a. r = Inr a \<and> f a = Inr b)"
  by (cases r) simp_all

lemma sbind_InrE:
  assumes "sbind r f = Inr b"
  obtains a where "r = Inr a" and "f a = Inr b"
  using assms by (auto simp: sbind_eq_Inr)

section \<open>Lists\<close>

lemma sorted_wrt_snoc: "sorted_wrt P (xs @ [x]) \<longleftrightarrow> sorted_wrt P xs \<and> (\<forall>y\<in>set xs. P y x)"
  by (simp add: sorted_wrt_append)

lemma sorted_wrt_drop_mid: "sorted_wrt P (ys @ r # zs) \<Longrightarrow> sorted_wrt P (ys @ zs)"
  by (auto simp: sorted_wrt_append)

lemma find_Some_split:
  assumes "find P xs = Some x"
  obtains ys zs where "xs = ys @ x # zs" and "P x" and "\<forall>y\<in>set ys. \<not> P y"
  using assms
proof (induction xs arbitrary: thesis)
  case Nil
  then show ?case by simp
next
  case (Cons a xs)
  show ?case
  proof (cases "P a")
    case True
    with Cons.prems show ?thesis by (intro Cons.prems(1)[of "[]" xs]) auto
  next
    case False
    with Cons.prems(2) have "find P xs = Some x" by simp
    with Cons.IH obtain ys zs where "xs = ys @ x # zs" "P x" "\<forall>y\<in>set ys. \<not> P y" by metis
    with False Cons.prems(1)[of "a # ys" zs] show ?thesis by auto
  qed
qed

lemma find_None_iff_all: "find P xs = None \<longleftrightarrow> (\<forall>x\<in>set xs. \<not> P x)"
  by (auto simp: find_None_iff)

section \<open>Association lists\<close>

text \<open>A \<open>std::map\<close> is an association list read by \<open>map_of\<close> and written by \<open>AList.update\<close> and \<open>AList.delete\<close>.\<close>

named_theorems alist_simps

declare AList.update_conv' [alist_simps] AList.delete_conv' [alist_simps] AList.dom_update [alist_simps]

lemma alist_dom_delete [alist_simps]: "fst ` set (AList.delete k al) = fst ` set al - {k}"
  by (metis (no_types) AList.delete_keys list.set_map set_removeAll)

lemma map_of_SomeI_dom: "a \<in> fst ` set al \<longleftrightarrow> (\<exists>v. map_of al a = Some v)"
  by (metis domD domI dom_map_of_conv_image_fst)

end
