(* ===== verification/LockModes.thy ===== *)
theory LockModes
  imports Prelude
begin

text \<open>
  The lock modes of the storage manager's lock manager: the enumerations of
  \<^verbatim>\<open>kernel/common/lm_base.h\<close> and the two tables \<^verbatim>\<open>lock_compat\<close> and \<^verbatim>\<open>lock_max\<close> at the end of
  \<^verbatim>\<open>kernel/sm/lm/lock_table.cpp\<close>. The laws of the two tables that the queue algorithms rely on are
  collected in a locale and proved for the tables.
\<close>

section \<open>Enumerations\<close>

datatype resource_kind = LM_DOCUMENT | LM_COLLECTION | LM_INDEX | LM_TRIGGER | LM_DATABASE

datatype lock_mode = NULL_LOCK | lm_s | lm_x | lm_is | lm_ix | lm_six

datatype lock_reply = LOCK_OK | LOCK_TIMEOUT | LOCK_DEADLOCK | LOCK_NOT_LOCKED

datatype lock_status = LOCK_GRANTED | LOCK_CONVERTING | LOCK_WAITING | LOCK_DENIED | NONE_STATUS

datatype lock_class = LOCK_INSTANT | LOCK_SHORT | LOCK_MEDIUM | LOCK_LONG | LOCK_VERY_LONG

section \<open>Resource identifiers\<close>

record resource_id =
  res_name :: string
  res_kind :: resource_kind

text \<open>The key of a resource in the lock table: a five-character tag of its kind, then its name.\<close>

fun kind_tag :: "resource_kind \<Rightarrow> string" where
  "kind_tag LM_DOCUMENT = ''_doc_''"
| "kind_tag LM_COLLECTION = ''_col_''"
| "kind_tag LM_INDEX = ''_ind_''"
| "kind_tag LM_TRIGGER = ''_trg_''"
| "kind_tag LM_DATABASE = ''_dtb_''"

definition get_str_res_id :: "resource_id \<Rightarrow> string" where
  "get_str_res_id r = kind_tag (res_kind r) @ res_name r"

section \<open>Compatibility and supremum of modes\<close>

text \<open>
  \<open>lock_compat\<close> reads the matrix line by line, as the source does; the two modes range over the six
  values of the enumeration, so the closing \<^verbatim>\<open>throw\<close> of the source is never reached.
\<close>

fun lock_compat :: "lock_mode \<Rightarrow> lock_mode \<Rightarrow> bool" where
  "lock_compat NULL_LOCK _ = True"
| "lock_compat _ NULL_LOCK = True"
| "lock_compat lm_is lm_is = True"
| "lock_compat lm_is lm_ix = True"
| "lock_compat lm_is lm_s = True"
| "lock_compat lm_is lm_x = False"
| "lock_compat lm_is lm_six = True"
| "lock_compat lm_ix lm_is = True"
| "lock_compat lm_ix lm_ix = True"
| "lock_compat lm_ix lm_s = False"
| "lock_compat lm_ix lm_x = False"
| "lock_compat lm_ix lm_six = False"
| "lock_compat lm_s lm_is = True"
| "lock_compat lm_s lm_ix = False"
| "lock_compat lm_s lm_s = True"
| "lock_compat lm_s lm_x = False"
| "lock_compat lm_s lm_six = False"
| "lock_compat lm_x lm_is = False"
| "lock_compat lm_x lm_ix = False"
| "lock_compat lm_x lm_s = False"
| "lock_compat lm_x lm_x = False"
| "lock_compat lm_x lm_six = False"
| "lock_compat lm_six lm_is = True"
| "lock_compat lm_six lm_ix = False"
| "lock_compat lm_six lm_s = False"
| "lock_compat lm_six lm_x = False"
| "lock_compat lm_six lm_six = False"

definition lock_max :: "lock_mode \<Rightarrow> lock_mode \<Rightarrow> lock_mode" where
  "lock_max m1 m2 =
     (if m1 = NULL_LOCK then m2
      else if m2 = NULL_LOCK then m1
      else if m1 = lm_x \<or> m2 = lm_x then lm_x
      else if m1 = lm_six \<or> m2 = lm_six then lm_six
      else if m1 = lm_is \<and> m2 = lm_is then lm_is
      else if m1 = lm_is \<and> m2 = lm_ix then lm_ix
      else if m1 = lm_ix \<and> m2 = lm_is then lm_ix
      else if m1 = lm_ix \<and> m2 = lm_ix then lm_ix
      else if m1 = lm_s \<and> m2 = lm_is then lm_s
      else if m1 = lm_is \<and> m2 = lm_s then lm_s
      else if m1 = lm_s \<and> m2 = lm_ix then lm_six
      else if m1 = lm_ix \<and> m2 = lm_s then lm_six
      else lm_s)"

section \<open>The laws the queue algorithms use\<close>

text \<open>
  The contract between the mode tables and the queue algorithms: compatibility is symmetric, the
  null mode is compatible with everything and neutral for the supremum, the supremum is a
  semilattice operation, and a mode is compatible with a supremum exactly when it is compatible with
  both parts. The last law is what lets the lock manager keep one granted mode for a whole group.
\<close>

locale mode_algebra =
  fixes compat :: "'m \<Rightarrow> 'm \<Rightarrow> bool"
    and sup_mode :: "'m \<Rightarrow> 'm \<Rightarrow> 'm"
    and null_mode :: 'm
  assumes compat_sym: "compat a b = compat b a"
    and compat_null: "compat a null_mode"
    and compat_sup: "compat a (sup_mode b c) \<longleftrightarrow> compat a b \<and> compat a c"
    and sup_null: "sup_mode a null_mode = a"
    and sup_idem: "sup_mode a a = a"
    and sup_comm: "sup_mode a b = sup_mode b a"
    and sup_assoc: "sup_mode (sup_mode a b) c = sup_mode a (sup_mode b c)"
begin

text \<open>The granted mode of a group is computed by folding the supremum over its members.\<close>

lemma compat_fold_sup:
  "compat m (fold sup_mode ms g) \<longleftrightarrow> compat m g \<and> (\<forall>x\<in>set ms. compat m x)"
  by (induction ms arbitrary: g) (auto simp: compat_sup)

lemma fold_sup_init: "fold sup_mode ms (sup_mode a b) = sup_mode a (fold sup_mode ms b)"
proof (induction ms arbitrary: b)
  case Nil
  show ?case by simp
next
  case (Cons x ms)
  have "sup_mode x (sup_mode a b) = sup_mode a (sup_mode x b)"
    by (metis sup_assoc sup_comm)
  with Cons show ?case by simp
qed

lemma fold_sup_append:
  "fold sup_mode (xs @ ys) null_mode = sup_mode (fold sup_mode xs null_mode) (fold sup_mode ys null_mode)"
  using fold_sup_init[of ys "fold sup_mode xs null_mode" null_mode] by (simp add: sup_null)

lemma fold_sup_replace:
  "fold sup_mode (xs @ sup_mode a b # ys) null_mode
     = sup_mode (fold sup_mode (xs @ a # ys) null_mode) (sup_mode a b)"
proof -
  let ?X = "fold sup_mode xs null_mode" and ?Y = "fold sup_mode ys null_mode"
  have cons: "fold sup_mode (c # ys) null_mode = sup_mode c ?Y" for c
    using fold_sup_init[of ys c null_mode] by (simp add: sup_null)
  have "sup_mode ?X (sup_mode (sup_mode a b) ?Y) = sup_mode (sup_mode ?X (sup_mode a ?Y)) (sup_mode a b)"
    by (metis sup_assoc sup_comm sup_idem)
  then show ?thesis unfolding fold_sup_append cons .
qed

lemma incompat_sup_left: "\<not> compat a b \<Longrightarrow> \<not> compat a (sup_mode b c)"
  by (simp add: compat_sup)

end

interpretation lm: mode_algebra lock_compat lock_max NULL_LOCK
proof
  fix a b c :: lock_mode
  show "lock_compat a b = lock_compat b a" by (cases a; cases b) simp_all
  show "lock_compat a NULL_LOCK" by (cases a) simp_all
  show "lock_compat a (lock_max b c) \<longleftrightarrow> lock_compat a b \<and> lock_compat a c"
    by (cases a; cases b; cases c) (simp_all add: lock_max_def)
  show "lock_max a NULL_LOCK = a" by (simp add: lock_max_def)
  show "lock_max a a = a" by (cases a) (simp_all add: lock_max_def)
  show "lock_max a b = lock_max b a" by (cases a; cases b) (simp_all add: lock_max_def)
  show "lock_max (lock_max a b) c = lock_max a (lock_max b c)"
    by (cases a; cases b; cases c) (simp_all add: lock_max_def)
qed

lemma kind_tag_length [simp]: "length (kind_tag k) = 5"
  by (cases k) simp_all

lemma kind_tag_inj: "kind_tag k = kind_tag k' \<Longrightarrow> k = k'"
  by (cases k; cases k') simp_all

end
