(* ===== verification/LockQueue.thy ===== *)
theory LockQueue
  imports LockModes
begin

text \<open>
  One lock head and its request queue (\<^verbatim>\<open>class lock_head\<close>, \<^verbatim>\<open>class lock_request\<close> and the parts of
  \<^verbatim>\<open>lock_table::lock\<close> and \<^verbatim>\<open>lock_table::unlock\<close> that read and write a single head). The queue chained
  by the \<^verbatim>\<open>queue\<close> pointers is a list; a request points to its transaction by the transaction's
  identifier. The links of the per-transaction chain are in \<^verbatim>\<open>TransChain\<close>, the table in \<^verbatim>\<open>LockTable\<close>.
\<close>

section \<open>Data\<close>

type_synonym transaction_id = int
type_synonym session_id = int

datatype lm_error =
    UnknownStatus        \<comment> \<open>\<^verbatim>\<open>SE4701 Unknown status of request\<close>\<close>
  | NoTransaction        \<comment> \<open>\<^verbatim>\<open>SE4701 There is lock_request which does not belong to any transaction\<close>\<close>
  | InconsistentTable    \<comment> \<open>\<^verbatim>\<open>SYSTEM_EXCEPTION\<close> of \<^verbatim>\<open>deadlock\<close> and of the request handler\<close>
  | NullDereference      \<comment> \<open>a null pointer is followed\<close>
  | UseAfterFree         \<comment> \<open>a deleted object is read or written\<close>
  | NonTermination       \<comment> \<open>a loop over a chain never meets the null pointer\<close>
  | BufferOverrun        \<comment> \<open>\<^verbatim>\<open>nodesVisited\<close> is written past its end\<close>

record lock_request =
  rq_addr :: nat                  \<comment> \<open>address of the object, never reused\<close>
  rq_tran :: transaction_id       \<comment> \<open>\<^verbatim>\<open>tran->tr_id\<close>\<close>
  rq_sid :: session_id            \<comment> \<open>the session whose semaphore \<^verbatim>\<open>process_xsem\<close> is\<close>
  rq_status :: lock_status
  rq_mode :: lock_mode
  rq_convert_mode :: lock_mode
  rq_count :: int
  rq_class :: lock_class

record lock_head =
  lh_r_id :: resource_id
  lh_queue :: "lock_request list"
  lh_granted_mode :: lock_mode
  lh_waiting :: bool

section \<open>Operations on one head\<close>

text \<open>The loop that looks for the request of a transaction in the queue.\<close>

definition find_request :: "transaction_id \<Rightarrow> lock_request list \<Rightarrow> lock_request option" where
  "find_request me q = find (\<lambda>r. rq_tran r = me) q"

text \<open>Writing through the pointer found by that loop.\<close>

fun update_request :: "transaction_id \<Rightarrow> (lock_request \<Rightarrow> lock_request) \<Rightarrow> lock_request list \<Rightarrow> lock_request list" where
  "update_request me f [] = []"
| "update_request me f (r # rs) = (if rq_tran r = me then f r # rs else r # update_request me f rs)"

text \<open>Unlinking it from the queue.\<close>

fun remove_request :: "transaction_id \<Rightarrow> lock_request list \<Rightarrow> lock_request list" where
  "remove_request me [] = []"
| "remove_request me (r # rs) = (if rq_tran r = me then rs else r # remove_request me rs)"

text \<open>A request of a transaction that has none in the queue yet, appended at the end.\<close>

definition lock_new :: "lock_head \<Rightarrow> lock_request \<Rightarrow> lock_head \<times> lock_reply" where
  "lock_new h r =
     (if \<not> lh_waiting h \<and> lock_compat (rq_mode r) (lh_granted_mode h)
      then (h\<lparr>lh_queue := lh_queue h @ [r],
              lh_granted_mode := lock_max (rq_mode r) (lh_granted_mode h)\<rparr>, LOCK_OK)
      else (h\<lparr>lh_queue := lh_queue h @ [r\<lparr>rq_status := LOCK_WAITING\<rparr>],
              lh_waiting := True\<rparr>, LOCK_NOT_LOCKED))"

text \<open>The loop that compares a conversion with the locks other transactions hold.\<close>

definition convert_blocked :: "lock_request list \<Rightarrow> transaction_id \<Rightarrow> lock_mode \<Rightarrow> bool" where
  "convert_blocked q me cm =
     list_ex (\<lambda>r. (rq_status r = LOCK_GRANTED \<or> rq_status r = LOCK_CONVERTING)
                \<and> rq_tran r \<noteq> me \<and> \<not> lock_compat (rq_mode r) cm) q"

text \<open>A repeated request of a transaction that already is in the queue (conversion case).\<close>

definition lock_convert :: "lock_head \<Rightarrow> lock_request \<Rightarrow> lock_mode \<Rightarrow> lock_head \<times> lock_reply" where
  "lock_convert h r m =
     (let cm = lock_max (rq_mode r) m; me = rq_tran r in
      if convert_blocked (lh_queue h) me cm
      then (h\<lparr>lh_queue := update_request me
                 (\<lambda>x. x\<lparr>rq_convert_mode := cm, rq_status := LOCK_CONVERTING\<rparr>) (lh_queue h),
              lh_waiting := True\<rparr>, LOCK_NOT_LOCKED)
      else (h\<lparr>lh_queue := update_request me
                 (\<lambda>x. x\<lparr>rq_mode := cm, rq_status := LOCK_GRANTED, rq_convert_mode := NULL_LOCK\<rparr>) (lh_queue h),
              lh_granted_mode := lock_max (lh_granted_mode h) cm\<rparr>, LOCK_OK))"

text \<open>The nested loop of \<open>unlock\<close>: only granted requests of other transactions are looked at.\<close>

definition convert_compatible :: "lock_request list \<Rightarrow> lock_request \<Rightarrow> bool" where
  "convert_compatible q r =
     (\<not> list_ex (\<lambda>x. rq_status x = LOCK_GRANTED \<and> rq_tran x \<noteq> rq_tran r
                   \<and> \<not> lock_compat (rq_convert_mode r) (rq_mode x)) q)"

text \<open>
  The traversal of the queue in \<open>unlock\<close>: \<open>pre\<close> is the part already passed, \<open>gm\<close> and \<open>wt\<close> are the
  head's granted mode and waiting flag, \<open>crw\<close> is \<^verbatim>\<open>convert_request_waiting\<close> and \<open>wk\<close> collects the
  requests whose transactions are woken up.
\<close>

fun wake_loop :: "lock_request list \<Rightarrow> lock_request list \<Rightarrow> lock_mode \<Rightarrow> bool \<Rightarrow> bool \<Rightarrow> lock_request list
    \<Rightarrow> lm_error + lock_request list \<times> lock_mode \<times> bool \<times> lock_request list" where
  "wake_loop pre [] gm wt crw wk = Inr (pre, gm, wt, wk)"
| "wake_loop pre (r # rs) gm wt crw wk =
     (if crw then
        (if rq_status r = LOCK_GRANTED then wake_loop (pre @ [r]) rs (lock_max (rq_mode r) gm) wt crw wk
         else if rq_status r = LOCK_CONVERTING then wake_loop (pre @ [r]) rs (lock_max (rq_mode r) gm) wt crw wk
         else if rq_status r = LOCK_WAITING then Inr (pre @ r # rs, gm, wt, wk)
         else Inl UnknownStatus)
      else if rq_status r = LOCK_GRANTED then
        wake_loop (pre @ [r]) rs (lock_max (rq_mode r) gm) wt crw wk
      else if rq_status r = LOCK_WAITING then
        (if lock_compat (rq_mode r) gm
         then let r' = r\<lparr>rq_status := LOCK_GRANTED\<rparr>
              in wake_loop (pre @ [r']) rs (lock_max (rq_mode r) gm) wt crw (wk @ [r'])
         else Inr (pre @ r # rs, gm, True, wk))
      else if rq_status r = LOCK_CONVERTING then
        (if convert_compatible (pre @ r # rs) r
         then let r' = r\<lparr>rq_status := LOCK_GRANTED, rq_mode := rq_convert_mode r, rq_convert_mode := NULL_LOCK\<rparr>
              in wake_loop (pre @ [r']) rs (lock_max (rq_convert_mode r) gm) wt crw (wk @ [r'])
         else wake_loop (pre @ [r]) rs gm True True wk)
      else Inl UnknownStatus)"

text \<open>The whole update of a head whose queue keeps at least one request after \<open>me\<close> leaves.\<close>

definition unlock_head :: "lock_head \<Rightarrow> transaction_id \<Rightarrow> lm_error + lock_head \<times> lock_request list" where
  "unlock_head h me =
     sbind (wake_loop [] (remove_request me (lh_queue h)) NULL_LOCK False False [])
       (\<lambda>(q, gm, wt, wk). Inr (h\<lparr>lh_queue := q, lh_granted_mode := gm, lh_waiting := wt\<rparr>, wk))"

section \<open>The invariant of a head\<close>

text \<open>A request holds its mode while it is granted, and still while it waits for a conversion.\<close>

definition holds :: "lock_request \<Rightarrow> bool" where
  "holds r \<longleftrightarrow> rq_status r = LOCK_GRANTED \<or> rq_status r = LOCK_CONVERTING"

definition known_status :: "lock_request \<Rightarrow> bool" where
  "known_status r \<longleftrightarrow> holds r \<or> rq_status r = LOCK_WAITING"

text \<open>Any two requests that hold the lock hold compatible modes.\<close>

definition may_share :: "lock_request \<Rightarrow> lock_request \<Rightarrow> bool" where
  "may_share a b \<longleftrightarrow> (holds a \<longrightarrow> holds b \<longrightarrow> lock_compat (rq_mode a) (rq_mode b))"

definition group_compat :: "lock_request list \<Rightarrow> bool" where
  "group_compat q = sorted_wrt may_share q"

text \<open>Waiting requests form the tail of the queue: they are served first come, first served.\<close>

definition served_before :: "lock_request \<Rightarrow> lock_request \<Rightarrow> bool" where
  "served_before a b \<longleftrightarrow> (rq_status a = LOCK_WAITING \<longrightarrow> rq_status b = LOCK_WAITING)"

definition wait_suffix :: "lock_request list \<Rightarrow> bool" where
  "wait_suffix q = sorted_wrt served_before q"

text \<open>A converting request asks for at least the mode it holds.\<close>

definition conv_above :: "lock_request \<Rightarrow> bool" where
  "conv_above r \<longleftrightarrow> (rq_status r = LOCK_CONVERTING \<longrightarrow> lock_max (rq_mode r) (rq_convert_mode r) = rq_convert_mode r)"

definition granted_join :: "lock_request list \<Rightarrow> lock_mode" where
  "granted_join q = fold lock_max (map rq_mode q) NULL_LOCK"

definition queue_inv :: "lock_request list \<Rightarrow> bool" where
  "queue_inv q \<longleftrightarrow> distinct (map rq_tran q) \<and> (\<forall>r\<in>set q. known_status r \<and> conv_above r)
     \<and> group_compat q \<and> wait_suffix q"

definition head_inv :: "lock_head \<Rightarrow> bool" where
  "head_inv h \<longleftrightarrow> lh_queue h \<noteq> [] \<and> queue_inv (lh_queue h) \<and> rq_status (hd (lh_queue h)) \<noteq> LOCK_WAITING
     \<and> (\<not> lh_waiting h \<longrightarrow> (\<forall>r\<in>set (lh_queue h). rq_status r = LOCK_GRANTED)
                          \<and> lh_granted_mode h = granted_join (lh_queue h))"

text \<open>
  No conversion in the queue asks for a mode that conflicts with what a later converting request
  still holds. Two such requests wait for each other.
\<close>

definition conv_apart :: "lock_request \<Rightarrow> lock_request \<Rightarrow> bool" where
  "conv_apart a b \<longleftrightarrow> (rq_status a = LOCK_CONVERTING \<longrightarrow> rq_status b = LOCK_CONVERTING
                     \<longrightarrow> lock_compat (rq_convert_mode a) (rq_mode b))"

definition conv_clear :: "lock_request list \<Rightarrow> bool" where
  "conv_clear q = sorted_wrt conv_apart q"

text \<open>
  While no conversion has been refused, the part of the queue already passed is granted and \<open>gm\<close> is
  its supremum; afterwards the waiting flag is set.
\<close>

definition loop_state :: "lock_request list \<Rightarrow> lock_mode \<Rightarrow> bool \<Rightarrow> bool \<Rightarrow> bool" where
  "loop_state pre gm wt crw \<longleftrightarrow>
     (if crw then wt else (\<forall>p\<in>set pre. rq_status p = LOCK_GRANTED) \<and> gm = granted_join pre \<and> \<not> wt)"

section \<open>Lemmas\<close>

lemma granted_join_snoc: "granted_join (q @ [r]) = lock_max (rq_mode r) (granted_join q)"
  by (simp add: granted_join_def)

lemma compat_granted_join: "lock_compat m (granted_join q) \<longleftrightarrow> (\<forall>r\<in>set q. lock_compat m (rq_mode r))"
  by (auto simp: granted_join_def lm.compat_fold_sup lm.compat_null)

lemma group_compat_holders:
  assumes "group_compat q" "a \<in> set q" "b \<in> set q" "rq_tran a \<noteq> rq_tran b" "holds a" "holds b"
  shows "lock_compat (rq_mode a) (rq_mode b)"
proof -
  obtain i j where ij: "i < length q" "j < length q" "q ! i = a" "q ! j = b" using assms(2,3) by (metis in_set_conv_nth)
  with assms(4) consider "i < j" | "j < i" by (metis nat_neq_iff)
  then show ?thesis
    using assms(1,5,6) ij lm.compat_sym unfolding group_compat_def may_share_def by cases (auto simp: sorted_wrt_iff_nth_less)
qed

lemma find_request_split:
  assumes "find_request me q = Some r"
  obtains ys zs where "q = ys @ r # zs" and "rq_tran r = me" and "\<forall>y\<in>set ys. rq_tran y \<noteq> me"
  using assms that unfolding find_request_def by (rule find_Some_split)

lemma update_request_split:
  "\<forall>y\<in>set ys. rq_tran y \<noteq> me \<Longrightarrow> rq_tran r = me \<Longrightarrow> update_request me f (ys @ r # zs) = ys @ f r # zs"
  by (induction ys) auto

lemma remove_request_split:
  "\<forall>y\<in>set ys. rq_tran y \<noteq> me \<Longrightarrow> rq_tran r = me \<Longrightarrow> remove_request me (ys @ r # zs) = ys @ zs"
  by (induction ys) auto

lemma remove_request_notin: "\<forall>y\<in>set q. rq_tran y \<noteq> me \<Longrightarrow> remove_request me q = q"
  by (induction q) auto

lemma find_request_None: "find_request me q = None \<longleftrightarrow> (\<forall>y\<in>set q. rq_tran y \<noteq> me)"
  by (simp add: find_request_def find_None_iff_all)

lemmas queue_defs = queue_inv_def group_compat_def wait_suffix_def

lemma queue_inv_drop_mid:
  assumes "queue_inv (ys @ r # zs)"
  shows "queue_inv (ys @ zs)"
  using assms sorted_wrt_drop_mid[of _ ys r zs] unfolding queue_defs by simp

lemma remove_request_cases:
  obtains (absent) "remove_request me q = q" and "\<forall>y\<in>set q. rq_tran y \<noteq> me"
  | (present) ys r zs where "q = ys @ r # zs" and "rq_tran r = me" and "\<forall>y\<in>set ys. rq_tran y \<noteq> me"
      and "remove_request me q = ys @ zs"
proof (cases "find_request me q")
  case None
  then show ?thesis using absent by (simp add: find_request_None remove_request_notin)
next
  case (Some r)
  then obtain ys zs where q: "q = ys @ r # zs" "rq_tran r = me" "\<forall>y\<in>set ys. rq_tran y \<noteq> me"
    by (rule find_request_split)
  then show ?thesis using present[OF q] by (simp add: remove_request_split)
qed

lemma queue_inv_remove:
  assumes "queue_inv q"
  shows "queue_inv (remove_request me q)"
proof (rule remove_request_cases[of me q])
  assume "remove_request me q = q"
  with assms show ?thesis by simp
next
  fix ys r zs
  assume "q = ys @ r # zs" and "remove_request me q = ys @ zs"
  with assms queue_inv_drop_mid[of ys r zs] show ?thesis by simp
qed

lemma conv_clear_remove:
  assumes "conv_clear q"
  shows "conv_clear (remove_request me q)"
proof (rule remove_request_cases[of me q])
  assume "remove_request me q = q"
  with assms show ?thesis by simp
next
  fix ys r zs
  assume "q = ys @ r # zs" and "remove_request me q = ys @ zs"
  with assms show ?thesis unfolding conv_clear_def by (simp only: sorted_wrt_drop_mid)
qed


section \<open>Granting keeps the invariant\<close>

text \<open>Replacing one request of the queue by another of the same transaction.\<close>

lemma queue_inv_replace:
  assumes q: "queue_inv (pre @ r # rs)"
    and r': "rq_tran r' = rq_tran r" "known_status r'" "conv_above r'"
    and wpre: "\<And>p. p \<in> set pre \<Longrightarrow> served_before p r \<Longrightarrow> served_before p r'"
    and wpost: "\<And>p. p \<in> set rs \<Longrightarrow> served_before r p \<Longrightarrow> served_before r' p"
    and cpre: "\<And>p. p \<in> set pre \<Longrightarrow> may_share p r'"
    and cpost: "\<And>p. p \<in> set rs \<Longrightarrow> may_share r' p"
  shows "queue_inv (pre @ r' # rs)"
  using assms unfolding queue_defs by (simp add: sorted_wrt_append)

lemma queue_inv_rest:
  assumes "queue_inv (pre @ r # rs)"
  shows "p \<in> set rs \<Longrightarrow> served_before r p"
    and "p \<in> set pre \<union> set rs \<Longrightarrow> rq_tran p \<noteq> rq_tran r"
proof -
  show "p \<in> set rs \<Longrightarrow> served_before r p"
    using assms unfolding queue_inv_def wait_suffix_def by (simp add: sorted_wrt_append)
  have "rq_tran r \<notin> rq_tran ` (set pre \<union> set rs)"
    using assms unfolding queue_inv_def by auto
  then show "p \<in> set pre \<union> set rs \<Longrightarrow> rq_tran p \<noteq> rq_tran r"
    by (metis image_eqI)
qed

lemma queue_inv_grant_waiting:
  assumes q: "queue_inv (pre @ r # rs)" and st: "rq_status r = LOCK_WAITING"
    and pre: "\<forall>p\<in>set pre. rq_status p = LOCK_GRANTED"
    and c: "lock_compat (rq_mode r) (granted_join pre)"
  shows "queue_inv (pre @ r\<lparr>rq_status := LOCK_GRANTED\<rparr> # rs)"
proof (rule queue_inv_replace[OF q])
  fix p
  show "may_share (r\<lparr>rq_status := LOCK_GRANTED\<rparr>) p" if "p \<in> set rs"
    using queue_inv_rest(1)[OF q that] st by (simp add: may_share_def holds_def served_before_def)
  show "may_share p (r\<lparr>rq_status := LOCK_GRANTED\<rparr>)" if "p \<in> set pre"
    using c that lm.compat_sym[of "rq_mode p" "rq_mode r"] by (simp add: may_share_def compat_granted_join)
qed (use st pre in \<open>simp_all add: known_status_def holds_def conv_above_def served_before_def\<close>)

lemma queue_inv_grant_convert:
  assumes q: "queue_inv (pre @ r # rs)" and st: "rq_status r = LOCK_CONVERTING"
    and pre: "\<forall>p\<in>set pre. rq_status p = LOCK_GRANTED"
    and c: "convert_compatible (pre @ r # rs) r" and cc: "conv_clear (r # rs)"
    and r': "r' = r\<lparr>rq_status := LOCK_GRANTED, rq_mode := rq_convert_mode r, rq_convert_mode := NULL_LOCK\<rparr>"
  shows "queue_inv (pre @ r' # rs)"
proof (rule queue_inv_replace[OF q])
  fix p
  have g: "lock_compat (rq_convert_mode r) (rq_mode p)"
    if "p \<in> set pre \<union> set rs" "rq_status p = LOCK_GRANTED"
    using c that queue_inv_rest(2)[OF q that(1)] unfolding convert_compatible_def by (auto simp: list_ex_iff)
  show "may_share p r'" if "p \<in> set pre"
    using that g pre r' lm.compat_sym[of "rq_mode p" "rq_convert_mode r"] by (simp add: may_share_def)
  have "conv_apart r p" if "p \<in> set rs"
    using cc that unfolding conv_clear_def by simp
  then show "may_share r' p" if "p \<in> set rs"
    using that g st r' by (auto simp: may_share_def holds_def conv_apart_def)
qed (use st pre r' in \<open>simp_all add: known_status_def holds_def conv_above_def served_before_def\<close>)

section \<open>The traversal of the queue\<close>

lemma wake_loop_total:
  "\<forall>r\<in>set rest. known_status r \<Longrightarrow> \<exists>x. wake_loop pre rest gm wt crw wk = Inr x"
  by (induction pre rest gm wt crw wk rule: wake_loop.induct)
     (auto simp: known_status_def holds_def Let_def)

lemma wake_loop_prefix:
  "wake_loop pre rest gm wt crw wk = Inr (q, gm', wt', wk') \<Longrightarrow> \<exists>t. q = pre @ t"
  by (induction pre rest gm wt crw wk rule: wake_loop.induct)
     (auto simp: Let_def split: if_splits)

lemma wake_loop_trans:
  "wake_loop pre rest gm wt crw wk = Inr (q, gm', wt', wk') \<Longrightarrow> map rq_tran q = map rq_tran (pre @ rest)"
  by (induction pre rest gm wt crw wk rule: wake_loop.induct)
     (auto simp: Let_def split: if_splits)

lemma loop_state_granted:
  "loop_state pre gm wt crw \<Longrightarrow> rq_status r = LOCK_GRANTED \<Longrightarrow> loop_state (pre @ [r]) (lock_max (rq_mode r) gm) wt crw"
  by (simp add: loop_state_def granted_join_snoc)

lemma loop_state_refused: "loop_state pre gm True True"
  by (simp add: loop_state_def)

lemma conv_clear_tl: "conv_clear (r # rs) \<Longrightarrow> conv_clear rs"
  by (simp add: conv_clear_def)

lemma wake_loop_inv:
  "wake_loop pre rest gm wt crw wk = Inr (q, gm', wt', wk') \<Longrightarrow> queue_inv (pre @ rest) \<Longrightarrow> conv_clear rest
     \<Longrightarrow> loop_state pre gm wt crw
     \<Longrightarrow> queue_inv q \<and> (\<not> wt' \<longrightarrow> (\<forall>r\<in>set q. rq_status r = LOCK_GRANTED) \<and> gm' = granted_join q)"
proof (induction pre rest gm wt crw wk rule: wake_loop.induct)
  case (1 pre gm wt crw wk)
  then show ?case by (auto simp: loop_state_def split: if_splits)
next
  case (2 pre r rs gm wt crw wk)
  have cc: "conv_clear rs" using "2.prems"(3) by (rule conv_clear_tl)
  have q: "queue_inv ((pre @ [r]) @ rs)" using "2.prems"(2) by simp
  show ?case
  proof (cases crw)
    case True
    then have "wt" using "2.prems"(4) by (simp add: loop_state_def)
    then have l: "\<And>p g. loop_state p g wt True" by (simp add: loop_state_def)
    consider "rq_status r = LOCK_GRANTED" | "rq_status r = LOCK_CONVERTING" | "rq_status r = LOCK_WAITING"
      using "2.prems"(1) True by (auto split: if_splits)
    then show ?thesis
    proof cases
      case 1
      with "2.IH"(1)[OF True 1 _ q cc] "2.prems"(1) True l show ?thesis by simp
    next
      case 2
      with "2.IH"(2)[OF True _ 2 _ q cc] "2.prems"(1) True l show ?thesis by simp
    next
      case 3
      with "2.prems"(1,2) True \<open>wt\<close> show ?thesis by simp
    qed
  next
    case False
    with "2.prems"(4) have pre: "\<forall>p\<in>set pre. rq_status p = LOCK_GRANTED" and gm: "gm = granted_join pre" "\<not> wt"
      by (auto simp: loop_state_def)
    consider (granted) "rq_status r = LOCK_GRANTED" | (waiting) "rq_status r = LOCK_WAITING"
      | (converting) "rq_status r = LOCK_CONVERTING"
      using "2.prems"(1) False by (auto split: if_splits)
    then show ?thesis
    proof cases
      case granted
      then show ?thesis
        using "2.IH"(3) "2.prems" q cc False loop_state_granted[OF "2.prems"(4) granted] by simp
    next
      case waiting
      let ?r = "r\<lparr>rq_status := LOCK_GRANTED\<rparr>"
      show ?thesis
      proof (cases "lock_compat (rq_mode r) gm")
        case True
        have "queue_inv ((pre @ [?r]) @ rs)"
          using queue_inv_grant_waiting[OF "2.prems"(2) waiting pre] True gm by simp
        with "2.IH"(4) "2.prems" True cc False waiting loop_state_granted[OF "2.prems"(4), of ?r]
        show ?thesis by (simp add: Let_def)
      next
        case False
        with "2.prems"(1,2) \<open>\<not> crw\<close> waiting show ?thesis by auto
      qed
    next
      case converting
      let ?r = "r\<lparr>rq_status := LOCK_GRANTED, rq_mode := rq_convert_mode r, rq_convert_mode := NULL_LOCK\<rparr>"
      show ?thesis
      proof (cases "convert_compatible (pre @ r # rs) r")
        case True
        have "queue_inv ((pre @ [?r]) @ rs)"
          using queue_inv_grant_convert[OF "2.prems"(2) converting pre True "2.prems"(3) refl] by simp
        with "2.IH"(5) "2.prems" True cc False converting loop_state_granted[OF "2.prems"(4), of ?r]
        show ?thesis by (simp add: Let_def)
      next
        case False
        with "2.IH"(6) "2.prems"(1) q cc \<open>\<not> crw\<close> converting loop_state_refused show ?thesis by simp
      qed
    qed
  qed
qed

lemma wake_loop_hd:
  assumes "wake_loop [] (r # rs) NULL_LOCK False False [] = Inr (q, gm', wt', wk')" and "known_status r"
  shows "q \<noteq> [] \<and> rq_status (hd q) \<noteq> LOCK_WAITING"
proof -
  have "\<exists>x t. q = x # t \<and> rq_status x \<noteq> LOCK_WAITING"
    using assms lm.compat_null[of "rq_mode r"]
    by (auto simp: Let_def known_status_def holds_def split: if_splits dest!: wake_loop_prefix)
  then show ?thesis by auto
qed

section \<open>Every operation keeps the invariant of the head\<close>

lemma queue_inv_append:
  assumes "queue_inv q" and "\<forall>x\<in>set q. rq_tran x \<noteq> rq_tran r" and "known_status r" "conv_above r"
    and "\<And>p. p \<in> set q \<Longrightarrow> may_share p r" and "\<And>p. p \<in> set q \<Longrightarrow> served_before p r"
  shows "queue_inv (q @ [r])"
  using assms unfolding queue_defs by (auto simp: sorted_wrt_append)

lemma lock_new_inv:
  assumes h: "head_inv h" and r: "rq_status r = LOCK_GRANTED"
    and fresh: "find_request (rq_tran r) (lh_queue h) = None"
    and l: "lock_new h r = (h', reply)"
  shows "head_inv h'"
proof -
  let ?q = "lh_queue h"
  have q: "?q \<noteq> []" "queue_inv ?q" "rq_status (hd ?q) \<noteq> LOCK_WAITING"
    and d: "\<forall>x\<in>set ?q. rq_tran x \<noteq> rq_tran r"
    using h fresh by (auto simp: head_inv_def find_request_None)
  show ?thesis
  proof (cases "\<not> lh_waiting h \<and> lock_compat (rq_mode r) (lh_granted_mode h)")
    case True
    with h have g: "\<forall>x\<in>set ?q. rq_status x = LOCK_GRANTED" "lh_granted_mode h = granted_join ?q"
      by (auto simp: head_inv_def)
    have "queue_inv (?q @ [r])"
      using True g r d q(2) lm.compat_sym
      by (intro queue_inv_append)
         (auto simp: may_share_def served_before_def known_status_def holds_def conv_above_def compat_granted_join)
    with True l g r q show ?thesis by (auto simp: lock_new_def head_inv_def granted_join_snoc)
  next
    case False
    have "queue_inv (?q @ [r\<lparr>rq_status := LOCK_WAITING\<rparr>])"
      using d q(2)
      by (intro queue_inv_append)
         (auto simp: may_share_def served_before_def known_status_def holds_def conv_above_def)
    with False l q show ?thesis by (auto simp: lock_new_def head_inv_def)
  qed
qed

lemma queue_inv_set_converting:
  assumes "queue_inv (ys @ r # zs)" "holds r" "lock_max (rq_mode r) cm = cm"
  shows "queue_inv (ys @ r\<lparr>rq_convert_mode := cm, rq_status := LOCK_CONVERTING\<rparr> # zs)" (is "queue_inv (ys @ ?r # zs)")
proof (rule queue_inv_replace[OF assms(1)])
  fix p
  have g: "group_compat (ys @ r # zs)" using assms(1) by (simp add: queue_inv_def)
  show "p \<in> set ys \<Longrightarrow> may_share p ?r"
    using g assms(2) by (simp add: group_compat_def sorted_wrt_append may_share_def)
  show "p \<in> set zs \<Longrightarrow> may_share ?r p"
    using g assms(2) by (simp add: group_compat_def sorted_wrt_append may_share_def)
qed (use assms in \<open>auto simp: known_status_def holds_def conv_above_def served_before_def\<close>)

lemma queue_inv_set_granted:
  assumes q: "queue_inv (ys @ r # zs)" and st: "rq_status r \<noteq> LOCK_WAITING"
    and nb: "\<not> convert_blocked (ys @ r # zs) (rq_tran r) cm"
  shows "queue_inv (ys @ r\<lparr>rq_mode := cm, rq_status := LOCK_GRANTED, rq_convert_mode := NULL_LOCK\<rparr> # zs)"
    (is "queue_inv (ys @ ?r # zs)")
proof (rule queue_inv_replace[OF q])
  fix p
  have c: "lock_compat (rq_mode p) cm" if "p \<in> set ys \<union> set zs" "holds p"
    using nb that queue_inv_rest(2)[OF q that(1)] unfolding convert_blocked_def holds_def
    by (auto simp: list_ex_iff)
  show "p \<in> set ys \<Longrightarrow> may_share p ?r" using c by (simp add: may_share_def)
  show "p \<in> set zs \<Longrightarrow> may_share ?r p"
    using c lm.compat_sym[of cm "rq_mode p"] by (simp add: may_share_def)
qed (use st in \<open>auto simp: known_status_def holds_def conv_above_def served_before_def\<close>)

lemma lock_convert_inv:
  assumes h: "head_inv h" and f: "find_request me (lh_queue h) = Some r"
    and st: "rq_status r \<noteq> LOCK_WAITING" and l: "lock_convert h r m = (h', reply)"
  shows "head_inv h'"
proof -
  let ?cm = "lock_max (rq_mode r) m"
  obtain ys zs where q: "lh_queue h = ys @ r # zs" and me: "rq_tran r = me" "\<forall>y\<in>set ys. rq_tran y \<noteq> me"
    using f by (rule find_request_split)
  have qi: "queue_inv (ys @ r # zs)" and hdw: "rq_status (hd (ys @ r # zs)) \<noteq> LOCK_WAITING"
    using h by (simp_all add: head_inv_def q)
  have hr: "holds r" using qi st by (auto simp: queue_inv_def known_status_def)
  have up: "\<And>f. update_request me f (ys @ r # zs) = ys @ f r # zs"
    using me by (simp add: update_request_split)
  have hd': "rq_status (hd (ys @ x # zs)) \<noteq> LOCK_WAITING" if "rq_status x \<noteq> LOCK_WAITING" for x
    using hdw that by (cases ys) auto
  show ?thesis
  proof (cases "convert_blocked (lh_queue h) me ?cm")
    case True
    have "lock_max (rq_mode r) ?cm = ?cm" by (metis lm.sup_assoc lm.sup_idem)
    with queue_inv_set_converting[OF qi hr] have
      "queue_inv (ys @ r\<lparr>rq_convert_mode := ?cm, rq_status := LOCK_CONVERTING\<rparr> # zs)" by simp
    with l True me show ?thesis
      by (auto simp: lock_convert_def Let_def head_inv_def q up hd')
  next
    case False
    let ?r = "r\<lparr>rq_mode := ?cm, rq_status := LOCK_GRANTED, rq_convert_mode := NULL_LOCK\<rparr>"
    have qi': "queue_inv (ys @ ?r # zs)"
      using queue_inv_set_granted[OF qi st] False by (simp add: q me)
    have "lock_max (granted_join (ys @ r # zs)) ?cm = granted_join (ys @ ?r # zs)"
      by (simp add: granted_join_def lm.fold_sup_replace[of "map rq_mode ys" "rq_mode r" m "map rq_mode zs", simplified])
    with qi' l False me h show ?thesis
      by (auto simp: lock_convert_def Let_def head_inv_def q up hd')
  qed
qed

lemma unlock_head_inv:
  assumes h: "head_inv h" and cc: "conv_clear (remove_request me (lh_queue h))" and ne: "remove_request me (lh_queue h) \<noteq> []"
    and u: "unlock_head h me = Inr (h', wk)"
  shows "head_inv h'"
proof -
  let ?q = "remove_request me (lh_queue h)"
  have q: "queue_inv ?q" using h queue_inv_remove by (simp add: head_inv_def)
  obtain q' gm wt where w: "wake_loop [] ?q NULL_LOCK False False [] = Inr (q', gm, wt, wk)"
    and h': "h' = h\<lparr>lh_queue := q', lh_granted_mode := gm, lh_waiting := wt\<rparr>"
    using u by (auto simp: unlock_head_def elim!: sbind_InrE)
  have "queue_inv q' \<and> (\<not> wt \<longrightarrow> (\<forall>r\<in>set q'. rq_status r = LOCK_GRANTED) \<and> gm = granted_join q')"
    using wake_loop_inv[OF w] q cc by (simp add: loop_state_def granted_join_def)
  moreover obtain r rs where "?q = r # rs" using ne by (cases ?q) auto
  then have "q' \<noteq> [] \<and> rq_status (hd q') \<noteq> LOCK_WAITING"
    using w wake_loop_hd[of r rs] q by (auto simp: queue_inv_def)
  ultimately show ?thesis by (simp add: head_inv_def h')
qed

lemma unlock_head_total:
  assumes "head_inv h"
  shows "\<exists>h' wk. unlock_head h me = Inr (h', wk)"
proof -
  let ?q = "remove_request me (lh_queue h)"
  have "\<forall>r\<in>set ?q. known_status r"
    using assms queue_inv_remove[of "lh_queue h" me] by (simp add: head_inv_def queue_inv_def)
  from wake_loop_total[OF this, of "[]" NULL_LOCK False False "[]"]
  show ?thesis by (auto simp: unlock_head_def)
qed

text \<open>Who is woken: requests that were not granted before and are granted afterwards; nothing else changes.\<close>

lemma wake_loop_woken:
  "wake_loop pre rest gm wt crw wk = Inr (q, gm', wt', wk') \<Longrightarrow>
     \<exists>w. wk' = wk @ w \<and> set w \<subseteq> set q \<and> set q \<subseteq> set pre \<union> set rest \<union> set w
       \<and> (\<forall>x\<in>set w. rq_status x = LOCK_GRANTED
            \<and> (\<exists>y\<in>set rest. rq_tran y = rq_tran x \<and> rq_status y \<noteq> LOCK_GRANTED))"
proof (induction rest arbitrary: pre gm wt crw wk)
  case Nil
  then show ?case by auto
next
  case (Cons r rs)
  let ?w = "r\<lparr>rq_status := LOCK_GRANTED\<rparr>"
  let ?c = "r\<lparr>rq_status := LOCK_GRANTED, rq_mode := rq_convert_mode r, rq_convert_mode := NULL_LOCK\<rparr>"
  let ?run = "\<lambda>x g w c k. wake_loop (pre @ [x]) rs g w c k = Inr (q, gm', wt', wk')"
  consider (stop) "q = pre @ r # rs" "wk' = wk"
    | (keep) g w c where "?run r g w c wk"
    | (wake) x g w c where "?run x g w c (wk @ [x])" "rq_status x = LOCK_GRANTED"
        "rq_tran x = rq_tran r" "rq_status r \<noteq> LOCK_GRANTED"
    using Cons.prems by (auto simp: Let_def split: if_splits)
  then show ?case
  proof cases
    case stop
    then show ?thesis by auto
  next
    case keep
    from Cons.IH[OF this] show ?thesis by auto
  next
    case wake
    from Cons.IH[OF wake(1)] obtain w' where "wk' = (wk @ [x]) @ w'" "set w' \<subseteq> set q"
      "set q \<subseteq> set (pre @ [x]) \<union> set rs \<union> set w'"
      "\<forall>x\<in>set w'. rq_status x = LOCK_GRANTED \<and> (\<exists>y\<in>set rs. rq_tran y = rq_tran x \<and> rq_status y \<noteq> LOCK_GRANTED)"
      by blast
    moreover have "x \<in> set q" using wake_loop_prefix[OF wake(1)] by auto
    ultimately show ?thesis using wake(2-4) by (intro exI[of _ "x # w'"]) auto
  qed
qed

end
