(* ===== verification/TransChain.thy ===== *)
theory TransChain
  imports LockQueue
begin

text \<open>
  The chain of lock requests of one transaction: the anchor \<^verbatim>\<open>TransCB::locks\<close> and the links
  \<^verbatim>\<open>tran_prev\<close> and \<^verbatim>\<open>tran_next\<close> that the constructor and the destructor of \<^verbatim>\<open>lock_request\<close> maintain. The
  links are modelled as pointers into a store of the live requests of the transaction, so that
  following a pointer to a deleted request is visible as the error \<open>UseAfterFree\<close>, and a walk that
  never meets a null pointer as \<open>NonTermination\<close>.
\<close>

section \<open>Data and operations\<close>

record chain_node =
  cn_prev :: "nat option"
  cn_next :: "nat option"
  cn_head :: string       \<comment> \<open>\<^verbatim>\<open>head\<close>: the key of the lock head the request belongs to\<close>

record chain =
  ch_locks :: "nat option"
  ch_nodes :: "(nat \<times> chain_node) list"

text \<open>The loop over \<^verbatim>\<open>tran_next\<close> from a pointer to the null pointer.\<close>

fun chain_walk :: "nat \<Rightarrow> (nat \<times> chain_node) list \<Rightarrow> nat option \<Rightarrow> lm_error + nat list" where
  "chain_walk n ns None = Inr []"
| "chain_walk 0 ns (Some a) = Inl NonTermination"
| "chain_walk (Suc n) ns (Some a) =
     (case map_of ns a of
        None \<Rightarrow> Inl UseAfterFree
      | Some nd \<Rightarrow> sbind (chain_walk n ns (cn_next nd)) (\<lambda>as. Inr (a # as)))"

text \<open>The first request of a transaction: a new \<^verbatim>\<open>TransCB\<close> whose chain is this request.\<close>

definition chain_new :: "nat \<Rightarrow> string \<Rightarrow> chain" where
  "chain_new a k = \<lparr>ch_locks = Some a, ch_nodes = [(a, \<lparr>cn_prev = None, cn_next = None, cn_head = k\<rparr>)]\<rparr>"

text \<open>A further request: the walk to the last one, then the two links.\<close>

definition chain_append :: "chain \<Rightarrow> nat \<Rightarrow> string \<Rightarrow> lm_error + chain" where
  "chain_append c a k =
     sbind (chain_walk (length (ch_nodes c)) (ch_nodes c) (ch_locks c)) (\<lambda>as.
       if as = [] then Inl NullDereference
       else case map_of (ch_nodes c) (last as) of
              None \<Rightarrow> Inl UseAfterFree
            | Some nd \<Rightarrow> Inr (c\<lparr>ch_nodes :=
                AList.update a \<lparr>cn_prev = Some (last as), cn_next = None, cn_head = k\<rparr>
                  (AList.update (last as) (nd\<lparr>cn_next := Some a\<rparr>) (ch_nodes c))\<rparr>))"

text \<open>
  The destructor: the flag of the result says whether the transaction is removed from the
  transaction table. When the request is not the first one, only \<^verbatim>\<open>tran_prev->tran_next\<close> is written.
\<close>

definition chain_remove :: "chain \<Rightarrow> nat \<Rightarrow> lm_error + chain \<times> bool" where
  "chain_remove c a =
     (case map_of (ch_nodes c) a of
        None \<Rightarrow> Inl UseAfterFree
      | Some nd \<Rightarrow>
          (case cn_prev nd of
             None \<Rightarrow>
               (case cn_next nd of
                  None \<Rightarrow> Inr (c\<lparr>ch_locks := None, ch_nodes := AList.delete a (ch_nodes c)\<rparr>, True)
                | Some b \<Rightarrow>
                    (case map_of (ch_nodes c) b of
                       None \<Rightarrow> Inl UseAfterFree
                     | Some nb \<Rightarrow> Inr (c\<lparr>ch_locks := Some b,
                         ch_nodes := AList.delete a (AList.update b (nb\<lparr>cn_prev := None\<rparr>) (ch_nodes c))\<rparr>, False)))
           | Some p \<Rightarrow>
               (case map_of (ch_nodes c) p of
                  None \<Rightarrow> Inl UseAfterFree
                | Some np \<Rightarrow> Inr (c\<lparr>ch_nodes :=
                    AList.delete a (AList.update p (np\<lparr>cn_next := cn_next nd\<rparr>) (ch_nodes c))\<rparr>, False))))"

section \<open>Well-formed chains\<close>

text \<open>The requests met when \<^verbatim>\<open>tran_next\<close> is followed from a pointer.\<close>

fun path :: "(nat \<Rightarrow> chain_node option) \<Rightarrow> nat option \<Rightarrow> nat list \<Rightarrow> bool" where
  "path ns p [] \<longleftrightarrow> p = None"
| "path ns p (a # as) \<longleftrightarrow> p = Some a \<and> (\<exists>nd. ns a = Some nd \<and> path ns (cn_next nd) as)"

text \<open>
  The forward links list exactly the live requests, each once, and the first one knows it is the
  first. Nothing is said of the other backward links.
\<close>

definition chain_fwd :: "chain \<Rightarrow> nat list \<Rightarrow> bool" where
  "chain_fwd c as \<longleftrightarrow> path (map_of (ch_nodes c)) (ch_locks c) as \<and> distinct as
     \<and> set as = fst ` set (ch_nodes c)
     \<and> (as \<noteq> [] \<longrightarrow> map_option cn_prev (map_of (ch_nodes c) (hd as)) = Some None)"

text \<open>The backward links as well.\<close>

fun bwd_path :: "(nat \<Rightarrow> chain_node option) \<Rightarrow> nat option \<Rightarrow> nat list \<Rightarrow> bool" where
  "bwd_path ns p [] \<longleftrightarrow> True"
| "bwd_path ns p (a # as) \<longleftrightarrow> (\<exists>nd. ns a = Some nd \<and> cn_prev nd = p \<and> bwd_path ns (Some a) as)"

definition chain_linked :: "chain \<Rightarrow> nat list \<Rightarrow> bool" where
  "chain_linked c as \<longleftrightarrow> chain_fwd c as \<and> bwd_path (map_of (ch_nodes c)) None as"

definition node_key :: "(nat \<times> chain_node) list \<Rightarrow> nat \<Rightarrow> string" where
  "node_key ns a = (case map_of ns a of None \<Rightarrow> [] | Some nd \<Rightarrow> cn_head nd)"

definition chain_elems :: "chain \<Rightarrow> (nat \<times> string) list" where
  "chain_elems c =
     (case chain_walk (length (ch_nodes c)) (ch_nodes c) (ch_locks c) of
        Inl _ \<Rightarrow> []
      | Inr as \<Rightarrow> map (\<lambda>a. (a, node_key (ch_nodes c) a)) as)"

text \<open>
  Backward links: only the first request has none, every address in use is below \<open>n\<close>, and a link to a
  live request is right. A link to a deleted request may be left over.
\<close>

definition back_ok :: "nat \<Rightarrow> chain \<Rightarrow> nat list \<Rightarrow> bool" where
  "back_ok n c as \<longleftrightarrow> (\<forall>b nd. map_of (ch_nodes c) b = Some nd \<longrightarrow> b < n
     \<and> (cn_prev nd = None \<longrightarrow> as \<noteq> [] \<and> b = hd as)
     \<and> (\<forall>p. cn_prev nd = Some p \<longrightarrow> p < n \<and> (\<forall>np. map_of (ch_nodes c) p = Some np \<longrightarrow> cn_next np = Some b)))"

definition chain_ok :: "nat \<Rightarrow> chain \<Rightarrow> bool" where
  "chain_ok n c \<longleftrightarrow> chain_elems c \<noteq> [] \<and> chain_fwd c (map fst (chain_elems c)) \<and> back_ok n c (map fst (chain_elems c))"

section \<open>The contract\<close>

text \<open>
  What the lock table uses of a chain, seen through the list of its elements: starting it, adding a
  request at the end, taking the first request away, and taking any request away when that succeeds.
  Addresses below the bound \<open>n\<close> may be in use.
\<close>

locale request_chain =
  fixes start :: "nat \<Rightarrow> string \<Rightarrow> 'c"
    and push :: "'c \<Rightarrow> nat \<Rightarrow> string \<Rightarrow> 'e + 'c"
    and remove :: "'c \<Rightarrow> nat \<Rightarrow> 'e + 'c \<times> bool"
    and elems :: "'c \<Rightarrow> (nat \<times> string) list"
    and ok :: "nat \<Rightarrow> 'c \<Rightarrow> bool"
  assumes start: "ok (Suc a) (start a k)" "elems (start a k) = [(a, k)]"
    and ok_mono: "ok n c \<Longrightarrow> n \<le> m \<Longrightarrow> ok m c"
    and ok_bound: "ok n c \<Longrightarrow> (a, k) \<in> set (elems c) \<Longrightarrow> a < n"
    and ok_distinct: "ok n c \<Longrightarrow> distinct (map fst (elems c))"
    and push: "ok n c \<Longrightarrow> n \<le> a \<Longrightarrow>
                 \<exists>c'. push c a k = Inr c' \<and> ok (Suc a) c' \<and> elems c' = elems c @ [(a, k)]"
    and remove_first: "ok n c \<Longrightarrow> elems c = (a, k) # es \<Longrightarrow> \<exists>c'. remove c a = Inr (c', es = [])"
    and remove_True: "ok n c \<Longrightarrow> remove c a = Inr (c', True) \<Longrightarrow> \<exists>k. elems c = [(a, k)]"
    and remove_False: "ok n c \<Longrightarrow> remove c a = Inr (c', False) \<Longrightarrow>
                 ok n c' \<and> (\<exists>xs k ys. elems c = xs @ (a, k) # ys \<and> elems c' = xs @ ys)"
begin

text \<open>Taking requests away from the front always succeeds and leaves the rest of the chain.\<close>

lemma pop:
  assumes "ok n c" and "elems c = (a, k) # e # es"
  obtains c' where "remove c a = Inr (c', False)" "ok n c'" "elems c' = e # es"
proof -
  obtain c' where r: "remove c a = Inr (c', False)"
    using remove_first[OF assms] by auto
  with assms remove_False[OF assms(1) r] ok_distinct[OF assms(1)]
  obtain xs k' ys where "ok n c'" "elems c' = xs @ ys" "(a, k) # e # es = xs @ (a, k') # ys" by auto
  moreover from this(3) have "xs = []"
    using ok_distinct[OF assms(1)] assms(2) by (cases xs) auto
  ultimately show thesis using that r by auto
qed

lemma pop_all:
  assumes "ok n c" and "elems c = xs @ [(a, k)]"
  shows "\<exists>c'. fold (\<lambda>x r. sbind r (\<lambda>(c, _). remove c (fst x))) (elems c) (Inr (c, f)) = Inr (c', True)"
  using assms
proof (induction xs arbitrary: c f)
  case Nil
  then show ?case using remove_first[OF Nil.prems(1), of a k "[]"] by auto
next
  case (Cons x xs)
  obtain e es where e: "xs @ [(a, k)] = e # es" by (cases xs) auto
  with Cons.prems have "elems c = (fst x, snd x) # e # es" by simp
  then obtain c' where "remove c (fst x) = Inr (c', False)" "ok n c'" "elems c' = e # es"
    using pop[OF Cons.prems(1)] by blast
  with Cons.IH[of c' False] Cons.prems(2) e show ?case by simp
qed

end

section \<open>The chain satisfies the contract\<close>

lemma path_cong: "(\<And>a. a \<in> set as \<Longrightarrow> ns a = ns' a) \<Longrightarrow> path ns p as = path ns' p as"
  by (induction as arbitrary: p) auto

lemma path_live: "path ns p as \<Longrightarrow> a \<in> set as \<Longrightarrow> \<exists>nd. ns a = Some nd"
  by (induction as arbitrary: p) auto

lemma path_walk: "path (map_of ns) p as \<Longrightarrow> length as \<le> n \<Longrightarrow> chain_walk n ns p = Inr as"
proof (induction as arbitrary: p n)
  case Nil
  then show ?case by simp
next
  case (Cons a as)
  then show ?case by (cases n) auto
qed

lemma chain_fwd_walk: "chain_fwd c as \<Longrightarrow> chain_walk (length (ch_nodes c)) (ch_nodes c) (ch_locks c) = Inr as"
proof (rule path_walk)
  assume "chain_fwd c as"
  then have "length as = card (set (map fst (ch_nodes c)))"
    by (auto simp: chain_fwd_def distinct_card[symmetric])
  also have "\<dots> \<le> length (ch_nodes c)" by (metis card_length length_map)
  finally show "length as \<le> length (ch_nodes c)" .
qed (simp add: chain_fwd_def)

lemma chain_fwd_elems: "chain_fwd c as \<Longrightarrow> chain_elems c = map (\<lambda>a. (a, node_key (ch_nodes c) a)) as"
  by (simp add: chain_elems_def chain_fwd_walk node_key_def)

lemma chain_fwd_fst: "chain_fwd c as \<Longrightarrow> map fst (chain_elems c) = as"
  by (simp add: chain_fwd_elems o_def)

lemma chain_okI: "chain_fwd c as \<Longrightarrow> as \<noteq> [] \<Longrightarrow> back_ok n c as \<Longrightarrow> chain_ok n c"
  by (simp add: chain_ok_def chain_fwd_fst) (simp add: chain_fwd_elems)

lemma chain_okE:
  assumes "chain_ok n c"
  obtains as where "chain_fwd c as" "as \<noteq> []" "map fst (chain_elems c) = as" "back_ok n c as"
  using assms by (auto simp: chain_ok_def)

lemma path_snoc:
  assumes "path ns p (bs @ [l])" "distinct (bs @ [l])" "a \<notin> set (bs @ [l])" "ns l = Some nd"
  shows "path (ns(l \<mapsto> nd\<lparr>cn_next := Some a\<rparr>, a \<mapsto> \<lparr>cn_prev = q, cn_next = None, cn_head = k\<rparr>)) p (bs @ [l, a])"
  using assms by (induction bs arbitrary: p) auto

lemma chain_fwd_push:
  assumes c: "chain_fwd c as" and ne: "as \<noteq> []" and a: "a \<notin> set as"
  shows "\<exists>c'. chain_append c a k = Inr c' \<and> chain_fwd c' (as @ [a])
            \<and> chain_elems c' = chain_elems c @ [(a, k)]"
proof -
  obtain bs l where as: "as = bs @ [l]" using ne by (metis append_butlast_last_id)
  have p: "path (map_of (ch_nodes c)) (ch_locks c) (bs @ [l])" "distinct (bs @ [l])"
    using c as by (auto simp: chain_fwd_def)
  obtain nd where nd: "map_of (ch_nodes c) l = Some nd" using path_live[OF p(1), of l] by auto
  let ?ns = "AList.update a \<lparr>cn_prev = Some l, cn_next = None, cn_head = k\<rparr>
               (AList.update l (nd\<lparr>cn_next := Some a\<rparr>) (ch_nodes c))"
  let ?c = "c\<lparr>ch_nodes := ?ns\<rparr>"
  have m: "map_of ?ns = (map_of (ch_nodes c))(l \<mapsto> nd\<lparr>cn_next := Some a\<rparr>,
             a \<mapsto> \<lparr>cn_prev = Some l, cn_next = None, cn_head = k\<rparr>)"
    by (simp add: alist_simps)
  have r: "chain_append c a k = Inr ?c"
    using chain_fwd_walk[OF c] by (simp add: chain_append_def as nd)
  have "path (map_of ?ns) (ch_locks c) (as @ [a])"
    unfolding m using path_snoc[OF p _ nd, of a "Some l" k] a as by simp
  moreover have "hd as \<noteq> a" using ne a by (metis list.set_sel(1))
  then have "map_option cn_prev (map_of ?ns (hd as)) = Some None"
    using c ne nd unfolding m by (auto simp: chain_fwd_def)
  moreover have "l \<in> set as" using as by simp
  ultimately have f: "chain_fwd ?c (as @ [a])"
    using c a ne by (auto simp: chain_fwd_def alist_simps)
  have "node_key ?ns x = node_key (ch_nodes c) x" if "x \<in> set as" for x
    using that a nd by (auto simp: node_key_def m)
  moreover have "node_key ?ns a = k" by (simp add: node_key_def m)
  ultimately have "chain_elems ?c = chain_elems c @ [(a, k)]"
    using chain_fwd_elems[OF f] chain_fwd_elems[OF c] by simp
  with r f show ?thesis by blast
qed

lemma chain_fwd_pop:
  assumes c: "chain_fwd c (a # b # as)"
  shows "\<exists>c'. chain_remove c a = Inr (c', False) \<and> chain_fwd c' (b # as)
            \<and> chain_elems c' = tl (chain_elems c)"
proof -
  obtain na nb where n: "map_of (ch_nodes c) a = Some na" "cn_prev na = None" "cn_next na = Some b"
      "map_of (ch_nodes c) b = Some nb" "path (map_of (ch_nodes c)) (cn_next nb) as"
    and d: "distinct (a # b # as)" and s: "set (a # b # as) = fst ` set (ch_nodes c)"
    using c by (auto simp: chain_fwd_def)
  let ?ns = "AList.delete a (AList.update b (nb\<lparr>cn_prev := None\<rparr>) (ch_nodes c))"
  let ?c = "c\<lparr>ch_locks := Some b, ch_nodes := ?ns\<rparr>"
  have m: "map_of ?ns = (map_of (ch_nodes c))(b \<mapsto> nb\<lparr>cn_prev := None\<rparr>, a := None)"
    by (simp add: alist_simps)
  have r: "chain_remove c a = Inr (?c, False)" using n by (simp add: chain_remove_def)
  have "path (map_of ?ns) (cn_next nb) as"
    using n(5) d by (subst path_cong[of as _ "map_of (ch_nodes c)"]) (auto simp: m)
  then have f: "chain_fwd ?c (b # as)"
    using d s by (auto simp: chain_fwd_def m alist_simps)
  have "node_key ?ns x = node_key (ch_nodes c) x" if "x \<in> set (b # as)" for x
    using that d n(4) by (auto simp: node_key_def m)
  then have "chain_elems ?c = tl (chain_elems c)"
    using chain_fwd_elems[OF f] chain_fwd_elems[OF c] by simp
  with r f show ?thesis by blast
qed

section \<open>Removing a request that is not the first one\<close>

lemma bwd_path_append: "bwd_path ns p (xs @ b # ys) \<Longrightarrow> xs \<noteq> [] \<Longrightarrow> \<exists>nd. ns b = Some nd \<and> cn_prev nd = Some (last xs)"
  by (induction xs arbitrary: p) (auto split: if_splits)

lemma path_skip:
  assumes "path ns p (xs @ q # a # ys)" "distinct (xs @ q # a # ys)" "ns a = Some na"
    and q: "ns' q = Some nq'" "cn_next nq' = cn_next na" and o: "\<And>x. x \<noteq> q \<Longrightarrow> x \<noteq> a \<Longrightarrow> ns' x = ns x"
  shows "path ns' p (xs @ q # ys)"
  using assms(1-3)
proof (induction xs arbitrary: p)
  case Nil
  then have "path ns (cn_next na) ys" by auto
  moreover have "path ns' (cn_next na) ys = path ns (cn_next na) ys"
    by (rule path_cong, rule o) (use Nil.prems(2) in auto)
  ultimately show ?case using Nil q by auto
next
  case (Cons x xs)
  then show ?case using o[of x] by auto
qed

lemma path_pred:
  "path ns p as \<Longrightarrow> q \<in> set as \<Longrightarrow> ns q = Some nq \<Longrightarrow> cn_next nq = Some a \<Longrightarrow> \<exists>xs ys. as = xs @ q # a # ys"
proof (induction as arbitrary: p)
  case Nil
  then show ?case by simp
next
  case (Cons x as)
  show ?case
  proof (cases "q = x")
    case True
    with Cons.prems have "path ns (Some a) as" by auto
    then obtain as' where "as = a # as'" by (cases as) auto
    with True show ?thesis by (intro exI[of _ "[]"] exI[of _ as']) simp
  next
    case False
    with Cons.prems obtain p' where "path ns p' as" "q \<in> set as" by auto
    from Cons.IH[OF this Cons.prems(3,4)] obtain xs ys where "as = xs @ q # a # ys" by blast
    then show ?thesis by (intro exI[of _ "x # xs"] exI[of _ ys]) simp
  qed
qed

lemma path_last: "path ns p (bs @ [l]) \<Longrightarrow> ns l = Some nd \<Longrightarrow> cn_next nd = None"
  by (induction bs arbitrary: p) auto

lemma back_okD:
  assumes "back_ok n c as" "map_of (ch_nodes c) b = Some nd"
  shows "b < n" "cn_prev nd = None \<Longrightarrow> b = hd as" "cn_prev nd = Some p \<Longrightarrow> p < n"
    "cn_prev nd = Some p \<Longrightarrow> map_of (ch_nodes c) p = Some np \<Longrightarrow> cn_next np = Some b"
  using assms unfolding back_ok_def by blast+

lemma chain_ok_push:
  assumes "chain_ok n c" and a: "n \<le> a"
  shows "\<exists>c'. chain_append c a k = Inr c' \<and> chain_ok (Suc a) c' \<and> chain_elems c' = chain_elems c @ [(a, k)]"
proof -
  obtain as where f: "chain_fwd c as" and ne: "as \<noteq> []" and b: "back_ok n c as"
    using assms(1) by (rule chain_okE)
  have bnd: "map_of (ch_nodes c) x = Some nd \<Longrightarrow> x < n" for x nd using b by (auto simp: back_ok_def)
  have na: "a \<notin> set as"
  proof
    assume "a \<in> set as"
    then obtain nd where "map_of (ch_nodes c) a = Some nd"
      using f path_live by (fastforce simp: chain_fwd_def)
    then show False using bnd a by fastforce
  qed
  from chain_fwd_push[OF f ne na, of k] obtain c' where
    r: "chain_append c a k = Inr c'" and f': "chain_fwd c' (as @ [a])" and e: "chain_elems c' = chain_elems c @ [(a, k)]"
    by blast
  obtain bs l where as: "as = bs @ [l]" using ne by (metis append_butlast_last_id)
  obtain nd where nd: "map_of (ch_nodes c) l = Some nd"
    using f as path_live[of "map_of (ch_nodes c)" "ch_locks c" as l] by (auto simp: chain_fwd_def)
  have nx: "cn_next nd = None" using f as nd path_last by (auto simp: chain_fwd_def)
  have m: "map_of (ch_nodes c') = (map_of (ch_nodes c))(l \<mapsto> nd\<lparr>cn_next := Some a\<rparr>,
             a \<mapsto> \<lparr>cn_prev = Some l, cn_next = None, cn_head = k\<rparr>)"
    using r chain_fwd_walk[OF f] by (auto simp: chain_append_def as nd alist_simps)
  have la: "l < n" "l \<noteq> a" using bnd nd a by fastforce+
  have "back_ok (Suc a) c' (as @ [a])"
    unfolding back_ok_def
  proof (intro allI impI)
    fix x nx'
    assume x: "map_of (ch_nodes c') x = Some nx'"
    show "x < Suc a \<and> (cn_prev nx' = None \<longrightarrow> as @ [a] \<noteq> [] \<and> x = hd (as @ [a]))
      \<and> (\<forall>p. cn_prev nx' = Some p \<longrightarrow> p < Suc a \<and> (\<forall>np. map_of (ch_nodes c') p = Some np \<longrightarrow> cn_next np = Some x))"
    proof (cases "x = a")
      case True
      with x m la a show ?thesis by auto
    next
      case False
      then obtain n0 where x0: "map_of (ch_nodes c) x = Some n0" "cn_prev n0 = cn_prev nx'"
        using x m nd by (auto split: if_splits)
      note d = back_okD[OF b x0(1)]
      have "cn_next np = Some x" if "cn_prev nx' = Some p" "map_of (ch_nodes c') p = Some np" for p np
        using that m d(3)[of p] d(4)[of p nd] d(4)[of p np] nd nx x0(2) a by (auto split: if_splits)
      moreover have "p < Suc a" if "cn_prev nx' = Some p" for p using d(3)[of p] that x0(2) a by simp
      ultimately show ?thesis using d(1,2) x0(2) a ne by auto
    qed
  qed
  with f' r e show ?thesis by (auto intro: chain_okI)
qed

lemma chain_fwd_remove_mid:
  assumes f: "chain_fwd c (xs @ q # a # ys)"
    and na: "map_of (ch_nodes c) a = Some na" "cn_prev na = Some q"
  shows "\<exists>c' nq. chain_remove c a = Inr (c', False) \<and> chain_fwd c' (xs @ q # ys)
     \<and> map_of (ch_nodes c) q = Some nq
     \<and> map_of (ch_nodes c') = (map_of (ch_nodes c))(q \<mapsto> nq\<lparr>cn_next := cn_next na\<rparr>, a := None)
     \<and> (\<exists>us k vs. chain_elems c = us @ (a, k) # vs \<and> chain_elems c' = us @ vs)"
proof -
  have p: "path (map_of (ch_nodes c)) (ch_locks c) (xs @ q # a # ys)" "distinct (xs @ q # a # ys)"
    using f by (auto simp: chain_fwd_def)
  obtain nq where nq: "map_of (ch_nodes c) q = Some nq" using path_live[OF p(1), of q] by auto
  let ?ns = "AList.delete a (AList.update q (nq\<lparr>cn_next := cn_next na\<rparr>) (ch_nodes c))"
  let ?c = "c\<lparr>ch_nodes := ?ns\<rparr>"
  have m: "map_of ?ns = (map_of (ch_nodes c))(q \<mapsto> nq\<lparr>cn_next := cn_next na\<rparr>, a := None)"
    by (simp add: alist_simps)
  have r: "chain_remove c a = Inr (?c, False)" using nq na by (simp add: chain_remove_def)
  have "hd (xs @ q # ys) = hd (xs @ q # a # ys)" by (cases xs) auto
  moreover have "hd (xs @ q # a # ys) \<noteq> a" using p(2) by (cases xs) auto
  ultimately have "map_option cn_prev (map_of ?ns (hd (xs @ q # ys))) = Some None"
    using f nq unfolding m by (auto simp: chain_fwd_def)
  moreover have "path (map_of ?ns) (ch_locks c) (xs @ q # ys)"
    by (rule path_skip[OF p na(1), where nq' = "nq\<lparr>cn_next := cn_next na\<rparr>"]) (use p(2) in \<open>auto simp: m\<close>)
  ultimately have f': "chain_fwd ?c (xs @ q # ys)"
    using f by (auto simp: chain_fwd_def alist_simps)
  have "node_key ?ns x = node_key (ch_nodes c) x" if "x \<in> set (xs @ q # ys)" for x
    using that p(2) nq by (auto simp: node_key_def m)
  then have e: "chain_elems ?c = map (\<lambda>x. (x, node_key (ch_nodes c) x)) (xs @ [q]) @ map (\<lambda>x. (x, node_key (ch_nodes c) x)) ys"
    using chain_fwd_elems[OF f'] by simp
  have e': "chain_elems c = map (\<lambda>x. (x, node_key (ch_nodes c) x)) (xs @ [q]) @ (a, node_key (ch_nodes c) a) # map (\<lambda>x. (x, node_key (ch_nodes c) x)) ys"
    using chain_fwd_elems[OF f] by simp
  show ?thesis
    by (intro exI conjI, rule r, rule f', rule nq) (simp add: m, rule e', rule e)
qed

lemma chain_ok_remove_head:
  assumes f: "chain_fwd c (a # b # as)" and bk: "back_ok n c (a # b # as)"
  shows "\<exists>c'. chain_remove c a = Inr (c', False) \<and> chain_ok n c' \<and> chain_elems c' = tl (chain_elems c)"
proof -
  from chain_fwd_pop[OF f] obtain c' where r: "chain_remove c a = Inr (c', False)"
    and f': "chain_fwd c' (b # as)" and e: "chain_elems c' = tl (chain_elems c)" by blast
  obtain na nb where n: "map_of (ch_nodes c) a = Some na" "cn_prev na = None" "cn_next na = Some b"
      "map_of (ch_nodes c) b = Some nb" and ab: "a \<noteq> b"
    using f by (auto simp: chain_fwd_def)
  have m: "map_of (ch_nodes c') = (map_of (ch_nodes c))(b \<mapsto> nb\<lparr>cn_prev := None\<rparr>, a := None)"
    using r n by (auto simp: chain_remove_def alist_simps)
  have "back_ok n c' (b # as)"
    unfolding back_ok_def
  proof (intro allI impI)
    fix x nx
    assume x: "map_of (ch_nodes c') x = Some nx"
    show "x < n \<and> (cn_prev nx = None \<longrightarrow> b # as \<noteq> [] \<and> x = hd (b # as))
      \<and> (\<forall>p. cn_prev nx = Some p \<longrightarrow> p < n \<and> (\<forall>np. map_of (ch_nodes c') p = Some np \<longrightarrow> cn_next np = Some x))"
    proof (cases "x = b")
      case True
      then show ?thesis using x m n(4) back_okD(1)[OF bk n(4)] ab by auto
    next
      case False
      with x m have xo: "map_of (ch_nodes c) x = Some nx" "x \<noteq> a" by (auto split: if_splits)
      note d = back_okD[OF bk xo(1)]
      have "cn_next np = Some x" if "cn_prev nx = Some p" "map_of (ch_nodes c') p = Some np" for p np
        using that m d(4)[OF that(1)] n(4) by (auto split: if_splits)
      then show ?thesis using d(1-3) xo(2) by auto
    qed
  qed
  with f' r e show ?thesis by (auto intro: chain_okI)
qed

lemma chain_ok_remove_mid:
  assumes f: "chain_fwd c (xs @ q # a # ys)" and bk: "back_ok n c (xs @ q # a # ys)"
    and na: "map_of (ch_nodes c) a = Some na" "cn_prev na = Some q"
  shows "\<exists>c'. chain_remove c a = Inr (c', False) \<and> chain_ok n c'
     \<and> (\<exists>us k vs. chain_elems c = us @ (a, k) # vs \<and> chain_elems c' = us @ vs)"
proof -
  from chain_fwd_remove_mid[OF f na] obtain c' nq where r: "chain_remove c a = Inr (c', False)"
    and f': "chain_fwd c' (xs @ q # ys)" and nq: "map_of (ch_nodes c) q = Some nq"
    and m: "map_of (ch_nodes c') = (map_of (ch_nodes c))(q \<mapsto> nq\<lparr>cn_next := cn_next na\<rparr>, a := None)"
    and e: "\<exists>us k vs. chain_elems c = us @ (a, k) # vs \<and> chain_elems c' = us @ vs" by blast
  have nxq: "cn_next nq = Some a" using back_okD(4)[OF bk na nq] .
  have hd: "hd (xs @ q # ys) = hd (xs @ q # a # ys)" by (cases xs) auto
  have "back_ok n c' (xs @ q # ys)"
    unfolding back_ok_def
  proof (intro allI impI)
    fix x nx
    assume x: "map_of (ch_nodes c') x = Some nx"
    then obtain nx0 where x0: "map_of (ch_nodes c) x = Some nx0" "cn_prev nx0 = cn_prev nx" "x \<noteq> a"
      using m nq by (auto split: if_splits)
    note d = back_okD[OF bk x0(1)]
    have "cn_next np = Some x" if "cn_prev nx = Some p" "map_of (ch_nodes c') p = Some np" for p np
      using that m d(4)[of p nq] d(4)[of p np] nq nxq x0(2,3) by (auto split: if_splits)
    then show "x < n \<and> (cn_prev nx = None \<longrightarrow> xs @ q # ys \<noteq> [] \<and> x = hd (xs @ q # ys))
      \<and> (\<forall>p. cn_prev nx = Some p \<longrightarrow> p < n \<and> (\<forall>np. map_of (ch_nodes c') p = Some np \<longrightarrow> cn_next np = Some x))"
      using d(1-3) x0(2) hd by auto
  qed
  with f' r e show ?thesis by (auto intro: chain_okI)
qed

lemma chain_ok_remove:
  assumes ok: "chain_ok n c" and r: "chain_remove c a = Inr (c', gone)"
  shows "if gone then \<exists>k. chain_elems c = [(a, k)]
         else chain_ok n c' \<and> (\<exists>xs k ys. chain_elems c = xs @ (a, k) # ys \<and> chain_elems c' = xs @ ys)"
proof -
  obtain as where f: "chain_fwd c as" and ne: "as \<noteq> []" and e: "map fst (chain_elems c) = as" and bk: "back_ok n c as"
    using ok by (rule chain_okE)
  obtain na where na: "map_of (ch_nodes c) a = Some na"
    using r by (auto simp: chain_remove_def split: option.splits)
  show ?thesis
  proof (cases "cn_prev na")
    case None
    then have "a = hd as" using back_okD(2)[OF bk na] by simp
    then obtain as' where as: "as = a # as'" using ne by (cases as) auto
    show ?thesis
    proof (cases as')
      case Nil
      then have "cn_next na = None" using f as na by (auto simp: chain_fwd_def)
      with r na None have gone by (auto simp: chain_remove_def)
      moreover have "\<exists>k. chain_elems c = [(a, k)]" using e as Nil by auto
      ultimately show ?thesis by simp
    next
      case (Cons b bs)
      with chain_ok_remove_head[of c a b bs n] f bk as r have "\<not> gone" "chain_ok n c'" "chain_elems c' = tl (chain_elems c)"
        by auto
      moreover obtain k es where "chain_elems c = (a, k) # es" using e as by (cases "chain_elems c") auto
      ultimately show ?thesis by (auto intro: exI[of _ "[]"])
    qed
  next
    case (Some q)
    then obtain nq where nq: "map_of (ch_nodes c) q = Some nq"
      using r na by (auto simp: chain_remove_def split: option.splits)
    then have "q \<in> set as" using f by (metis chain_fwd_def map_of_SomeI_dom)
    then obtain xs ys where as: "as = xs @ q # a # ys"
      using path_pred[of "map_of (ch_nodes c)" "ch_locks c" as q nq a] nq back_okD(4)[OF bk na Some nq] f
      by (auto simp: chain_fwd_def)
    show ?thesis using chain_ok_remove_mid[OF f[unfolded as] bk[unfolded as] na Some] r by auto
  qed
qed

interpretation tc: request_chain chain_new chain_append chain_remove chain_elems chain_ok
proof
  fix a k
  have f: "chain_fwd (chain_new a k) [a]" by (simp add: chain_fwd_def chain_new_def)
  then show "chain_ok (Suc a) (chain_new a k)" by (rule chain_okI) (auto simp: back_ok_def chain_new_def)
  show "chain_elems (chain_new a k) = [(a, k)]"
    using chain_fwd_elems[OF f] by (simp add: node_key_def chain_new_def)
next
  fix n c m
  assume "chain_ok n c" "n \<le> m"
  then show "chain_ok m c" unfolding chain_ok_def back_ok_def by fastforce
next
  fix n c a k
  assume ok: "chain_ok n c" and "(a, k) \<in> set (chain_elems c)"
  then have "a \<in> set (map fst (chain_elems c))" by force
  with ok have "\<exists>nd. map_of (ch_nodes c) a = Some nd"
    unfolding chain_ok_def chain_fwd_def by (metis map_of_SomeI_dom)
  with ok show "a < n" unfolding chain_ok_def back_ok_def by blast
next
  fix n c
  show "chain_ok n c \<Longrightarrow> distinct (map fst (chain_elems c))" by (simp add: chain_ok_def chain_fwd_def)
next
  fix n c a k
  show "chain_ok n c \<Longrightarrow> n \<le> a \<Longrightarrow>
    \<exists>c'. chain_append c a k = Inr c' \<and> chain_ok (Suc a) c' \<and> chain_elems c' = chain_elems c @ [(a, k)]"
    by (rule chain_ok_push)
next
  fix n c a k es
  assume ok: "chain_ok n c" and e: "chain_elems c = (a, k) # es"
  then have f: "chain_fwd c (a # map fst es)" and b: "back_ok n c (a # map fst es)"
    by (auto simp: chain_ok_def)
  show "\<exists>c'. chain_remove c a = Inr (c', es = [])"
  proof (cases es)
    case Nil
    with f show ?thesis by (auto simp: chain_fwd_def chain_remove_def)
  next
    case (Cons x xs)
    with chain_ok_remove_head[of c a "fst x" "map fst xs" n] f b show ?thesis by auto
  qed
next
  fix n c a c'
  show "chain_ok n c \<Longrightarrow> chain_remove c a = Inr (c', True) \<Longrightarrow> \<exists>k. chain_elems c = [(a, k)]"
    using chain_ok_remove by fastforce
  show "chain_ok n c \<Longrightarrow> chain_remove c a = Inr (c', False) \<Longrightarrow>
    chain_ok n c' \<and> (\<exists>xs k ys. chain_elems c = xs @ (a, k) # ys \<and> chain_elems c' = xs @ ys)"
    using chain_ok_remove by fastforce
qed

section \<open>The backward link that is not repaired\<close>

text \<open>
  When a request with neighbours on both sides is deleted, the one after it keeps its backward link to
  the deleted object, so deleting that one next writes into freed memory.
\<close>

lemma remove_neighbours:
  assumes c: "chain_linked c (xs @ q # a # b # ys)" and r: "chain_remove c a = Inr (c', f)"
  shows "chain_remove c' b = Inl UseAfterFree"
proof -
  from c have fw: "chain_fwd c (xs @ q # a # b # ys)" and d: "distinct (xs @ q # a # b # ys)"
    and bw: "bwd_path (map_of (ch_nodes c)) None (xs @ q # a # b # ys)"
    by (auto simp: chain_linked_def chain_fwd_def)
  obtain nb where nb: "map_of (ch_nodes c) b = Some nb" "cn_prev nb = Some a"
    using bwd_path_append[of _ None "xs @ [q, a]" b ys] bw by auto
  obtain na where na: "map_of (ch_nodes c) a = Some na" "cn_prev na = Some q"
    using bwd_path_append[of _ None "xs @ [q]" a "b # ys"] bw by auto
  from chain_fwd_remove_mid[OF fw na] r nb d show ?thesis by (auto simp: chain_remove_def)
qed

end
