(* ===== verification/LockTable.thy ===== *)
theory LockTable
  imports TransChain
begin

text \<open>
  The lock table and the transaction table of the storage manager (\<^verbatim>\<open>class lock_table\<close>,
  \<^verbatim>\<open>class trans_table\<close>, \<^verbatim>\<open>class TransCB\<close>) and the operations \<^verbatim>\<open>lock\<close>, \<^verbatim>\<open>unlock\<close> and
  \<^verbatim>\<open>release_tr_locks\<close>. Every operation runs under the table's mutex, so it is one step of the state;
  raising the semaphore of a session is recorded in \<open>sem_ups\<close>.
\<close>

section \<open>State\<close>

datatype tr_status = NORMAL_PROCESSING | ROLLING_BACK_AFTER_DEADLOCK

record transCB =
  tc_chain :: chain                 \<comment> \<open>\<^verbatim>\<open>locks\<close> and the requests it reaches\<close>
  tc_wait :: "string option"        \<comment> \<open>\<^verbatim>\<open>wait\<close>: the head of the request waited for\<close>
  tc_status :: tr_status

record lm_state =
  l_table :: "(string \<times> lock_head) list"
  tr_table :: "(transaction_id \<times> transCB) list"
  next_addr :: nat                  \<comment> \<open>the next fresh address for \<^verbatim>\<open>new lock_request\<close>\<close>
  sem_ups :: "session_id list"

definition lm_init :: lm_state where
  "lm_init = \<lparr>l_table = [], tr_table = [], next_addr = 0, sem_ups = []\<rparr>"

section \<open>Operations\<close>

definition find_tr_lock_head :: "lm_state \<Rightarrow> transaction_id \<Rightarrow> transCB option" where
  "find_tr_lock_head s tr = map_of (tr_table s) tr"

definition find_lock :: "lm_state \<Rightarrow> string \<Rightarrow> lock_head option" where
  "find_lock s k = map_of (l_table s) k"

definition put_tr :: "transaction_id \<Rightarrow> transCB \<Rightarrow> lm_state \<Rightarrow> lm_state" where
  "put_tr tr t s = s\<lparr>tr_table := AList.update tr t (tr_table s)\<rparr>"

definition remove_tr :: "transaction_id \<Rightarrow> lm_state \<Rightarrow> lm_state" where
  "remove_tr tr s = s\<lparr>tr_table := AList.delete tr (tr_table s)\<rparr>"

definition put_head :: "string \<Rightarrow> lock_head \<Rightarrow> lm_state \<Rightarrow> lm_state" where
  "put_head k h s = s\<lparr>l_table := AList.update k h (l_table s)\<rparr>"

definition erase_head :: "string \<Rightarrow> lm_state \<Rightarrow> lm_state" where
  "erase_head k s = s\<lparr>l_table := AList.delete k (l_table s)\<rparr>"

text \<open>The constructor of \<^verbatim>\<open>TransCB\<close>.\<close>

definition new_TransCB :: "chain \<Rightarrow> transCB" where
  "new_TransCB c = \<lparr>tc_chain = c, tc_wait = None, tc_status = NORMAL_PROCESSING\<rparr>"

text \<open>The constructor of \<^verbatim>\<open>lock_request\<close>, for a request in the queue of the head with key \<open>k\<close>.\<close>

definition new_lock_request :: "lm_state \<Rightarrow> transaction_id \<Rightarrow> session_id \<Rightarrow> string \<Rightarrow> lock_mode \<Rightarrow> lock_class
    \<Rightarrow> lm_error + lock_request \<times> lm_state" where
  "new_lock_request s tr sid k m cls =
     (let a = next_addr s;
          r = \<lparr>rq_addr = a, rq_tran = tr, rq_sid = sid, rq_status = LOCK_GRANTED, rq_mode = m,
               rq_convert_mode = NULL_LOCK, rq_count = 1, rq_class = cls\<rparr>;
          s' = s\<lparr>next_addr := Suc a\<rparr>
      in case find_tr_lock_head s tr of
           None \<Rightarrow> Inr (r, put_tr tr (new_TransCB (chain_new a k)) s')
         | Some t \<Rightarrow> sbind (chain_append (tc_chain t) a k)
                      (\<lambda>c. Inr (r, put_tr tr (t\<lparr>tc_chain := c\<rparr>) s')))"

text \<open>The destructor of \<^verbatim>\<open>lock_request\<close>.\<close>

definition delete_lock_request :: "lm_state \<Rightarrow> lock_request \<Rightarrow> lm_error + lm_state" where
  "delete_lock_request s r =
     (case find_tr_lock_head s (rq_tran r) of
        None \<Rightarrow> Inl NoTransaction
      | Some t \<Rightarrow> sbind (chain_remove (tc_chain t) (rq_addr r)) (\<lambda>(c, gone).
           Inr (if gone then remove_tr (rq_tran r) s else put_tr (rq_tran r) (t\<lparr>tc_chain := c\<rparr>) s)))"

text \<open>Writing \<^verbatim>\<open>request->tran->wait\<close>.\<close>

definition set_wait :: "transaction_id \<Rightarrow> string option \<Rightarrow> lm_state \<Rightarrow> lm_error + lm_state" where
  "set_wait tr w s =
     (case find_tr_lock_head s tr of
        None \<Rightarrow> Inl UseAfterFree
      | Some t \<Rightarrow> Inr (put_tr tr (t\<lparr>tc_wait := w\<rparr>) s))"

definition finish_lock :: "transaction_id \<Rightarrow> string \<Rightarrow> lock_head \<times> lock_reply \<Rightarrow> lm_state
    \<Rightarrow> lm_error + lm_state \<times> lock_reply" where
  "finish_lock tr k hr s =
     (let s' = put_head k (fst hr) s
      in if snd hr = LOCK_OK then Inr (s', LOCK_OK)
         else sbind (set_wait tr (Some k) s') (\<lambda>s''. Inr (s'', snd hr)))"

definition lock :: "lm_state \<Rightarrow> transaction_id \<Rightarrow> session_id \<Rightarrow> resource_id \<Rightarrow> lock_mode \<Rightarrow> lock_class
    \<Rightarrow> lm_error + lm_state \<times> lock_reply" where
  "lock s tr sid rid m cls =
     (let k = get_str_res_id rid in
      case find_lock s k of
        None \<Rightarrow>
          sbind (new_lock_request s tr sid k m cls) (\<lambda>(r, s').
            Inr (put_head k \<lparr>lh_r_id = rid, lh_queue = [r], lh_granted_mode = m, lh_waiting = False\<rparr> s', LOCK_OK))
      | Some h \<Rightarrow>
          (case find_request tr (lh_queue h) of
             None \<Rightarrow> sbind (new_lock_request s tr sid k m cls) (\<lambda>(r, s'). finish_lock tr k (lock_new h r) s')
           | Some r \<Rightarrow> finish_lock tr k (lock_convert h r m) s))"

text \<open>Waking up the transaction of a request that has just been granted.\<close>

definition wake_up :: "lock_request \<Rightarrow> lm_state \<Rightarrow> lm_error + lm_state" where
  "wake_up r s =
     (case find_tr_lock_head s (rq_tran r) of
        None \<Rightarrow> Inl UseAfterFree
      | Some t \<Rightarrow>
          let s' = put_tr (rq_tran r) (t\<lparr>tc_wait := None\<rparr>) s
          in Inr (if tc_status t \<noteq> ROLLING_BACK_AFTER_DEADLOCK
                  then s'\<lparr>sem_ups := sem_ups s' @ [rq_sid r]\<rparr> else s'))"

fun wake_ups :: "lock_request list \<Rightarrow> lm_state \<Rightarrow> lm_error + lm_state" where
  "wake_ups [] s = Inr s"
| "wake_ups (r # rs) s = sbind (wake_up r s) (wake_ups rs)"

definition unlock :: "lm_state \<Rightarrow> transaction_id \<Rightarrow> resource_id \<Rightarrow> lm_error + lm_state \<times> lock_reply" where
  "unlock s tr rid =
     (let k = get_str_res_id rid in
      case find_lock s k of
        None \<Rightarrow> Inr (s, LOCK_OK)
      | Some h \<Rightarrow>
          (case find_request tr (lh_queue h) of
             None \<Rightarrow> Inr (s, LOCK_OK)
           | Some r \<Rightarrow>
               if lh_queue h = [r]
               then sbind (delete_lock_request s r) (\<lambda>s'.
                      Inr (erase_head (get_str_res_id (lh_r_id h)) s', LOCK_OK))
               else sbind (delete_lock_request s r) (\<lambda>s'.
                    sbind (unlock_head h tr) (\<lambda>(h', wk).
                    sbind (wake_ups wk (put_head k h' s')) (\<lambda>s''. Inr (s'', LOCK_OK))))))"

text \<open>
  The loop of \<^verbatim>\<open>release_tr_locks\<close> over the chain of the transaction, started with the anchor. The fuel
  bounds the number of requests; the entry of the transaction leaves the table with its last request.
\<close>

fun release_loop :: "nat \<Rightarrow> lm_state \<Rightarrow> transaction_id \<Rightarrow> nat option \<Rightarrow> lm_error + lm_state" where
  "release_loop n s tr None = Inr s"
| "release_loop 0 s tr (Some a) = Inl NonTermination"
| "release_loop (Suc n) s tr (Some a) =
     (case find_tr_lock_head s tr of
        None \<Rightarrow> Inl UseAfterFree
      | Some t \<Rightarrow>
          (case map_of (ch_nodes (tc_chain t)) a of
             None \<Rightarrow> Inl UseAfterFree
           | Some nd \<Rightarrow>
               (case find_lock s (cn_head nd) of
                  None \<Rightarrow> Inl UseAfterFree
                | Some h \<Rightarrow> sbind (unlock s tr (lh_r_id h)) (\<lambda>(s', _). release_loop n s' tr (cn_next nd)))))"

text \<open>
  After the loop the source deletes the transaction's object; a table entry that still points to it
  would dangle.
\<close>

definition release_tr_locks :: "lm_state \<Rightarrow> transaction_id \<Rightarrow> lm_error + lm_state \<times> lock_reply" where
  "release_tr_locks s tr =
     (case find_tr_lock_head s tr of
        None \<Rightarrow> Inr (s, LOCK_OK)
      | Some t \<Rightarrow>
          sbind (release_loop (length (ch_nodes (tc_chain t))) s tr (ch_locks (tc_chain t))) (\<lambda>s'.
            if find_tr_lock_head s' tr = None then Inr (s', LOCK_OK) else Inl UseAfterFree))"

section \<open>Well-formed states\<close>

definition rq_id :: "lock_request \<Rightarrow> transaction_id \<times> nat" where
  "rq_id r = (rq_tran r, rq_addr r)"

definition head_wf :: "lock_head \<Rightarrow> bool" where
  "head_wf h \<longleftrightarrow> lh_queue h \<noteq> [] \<and> distinct (map rq_tran (lh_queue h)) \<and> (\<forall>r\<in>set (lh_queue h). known_status r)"

text \<open>The requests of a transaction, as the lock heads know them and as its chain knows them.\<close>

definition held :: "lm_state \<Rightarrow> transaction_id \<Rightarrow> (nat \<times> string) set" where
  "held s t = {(a, k). \<exists>h. find_lock s k = Some h \<and> (t, a) \<in> rq_id ` set (lh_queue h)}"

definition chained :: "lm_state \<Rightarrow> transaction_id \<Rightarrow> (nat \<times> string) set" where
  "chained s t = (case find_tr_lock_head s t of None \<Rightarrow> {} | Some tcb \<Rightarrow> set (chain_elems (tc_chain tcb)))"

definition heads_wf :: "lm_state \<Rightarrow> bool" where
  "heads_wf s \<longleftrightarrow> (\<forall>k h. find_lock s k = Some h \<longrightarrow> head_wf h \<and> get_str_res_id (lh_r_id h) = k)"

definition chains_wf :: "lm_state \<Rightarrow> bool" where
  "chains_wf s \<longleftrightarrow> (\<forall>t tcb. find_tr_lock_head s t = Some tcb \<longrightarrow> chain_ok (next_addr s) (tc_chain tcb))"

definition lm_wf :: "lm_state \<Rightarrow> bool" where
  "lm_wf s \<longleftrightarrow> heads_wf s \<and> chains_wf s \<and> (\<forall>t. held s t = chained s t)"

section \<open>Reading after writing\<close>

lemma lm_read_write [simp]:
  "find_lock (put_head k h s) k' = (if k' = k then Some h else find_lock s k')"
  "find_lock (erase_head k s) k' = (if k' = k then None else find_lock s k')"
  "find_lock (put_tr t c s) k' = find_lock s k'"
  "find_lock (remove_tr t s) k' = find_lock s k'"
  "find_tr_lock_head (put_tr t c s) t' = (if t' = t then Some c else find_tr_lock_head s t')"
  "find_tr_lock_head (remove_tr t s) t' = (if t' = t then None else find_tr_lock_head s t')"
  "find_tr_lock_head (put_head k h s) t' = find_tr_lock_head s t'"
  "find_tr_lock_head (erase_head k s) t' = find_tr_lock_head s t'"
  "next_addr (put_head k h s) = next_addr s"
  "next_addr (erase_head k s) = next_addr s"
  "next_addr (put_tr t c s) = next_addr s"
  "next_addr (remove_tr t s) = next_addr s"
  "find_lock (s\<lparr>next_addr := n\<rparr>) k' = find_lock s k'"
  "find_tr_lock_head (s\<lparr>next_addr := n\<rparr>) t' = find_tr_lock_head s t'"
  "find_lock (s\<lparr>sem_ups := u\<rparr>) k' = find_lock s k'"
  "find_tr_lock_head (s\<lparr>sem_ups := u\<rparr>) t' = find_tr_lock_head s t'"
  by (simp_all add: find_lock_def find_tr_lock_head_def put_head_def erase_head_def put_tr_def remove_tr_def alist_simps)

lemma lm_wfD:
  assumes "lm_wf s"
  shows "find_lock s k = Some h \<Longrightarrow> head_wf h" "find_lock s k = Some h \<Longrightarrow> get_str_res_id (lh_r_id h) = k"
    "find_tr_lock_head s t = Some tcb \<Longrightarrow> chain_ok (next_addr s) (tc_chain tcb)" "held s t = chained s t"
  using assms by (auto simp: lm_wf_def heads_wf_def chains_wf_def)

lemma lm_wf_init: "lm_wf lm_init"
  by (simp add: lm_wf_def heads_wf_def chains_wf_def held_def chained_def lm_init_def find_lock_def find_tr_lock_head_def)

text \<open>A transaction with a request in some queue is in the transaction table, and so is the request's address in its chain.\<close>

lemma lm_wf_chained:
  assumes "lm_wf s" "find_lock s k = Some h" "r \<in> set (lh_queue h)"
  obtains tcb where "find_tr_lock_head s (rq_tran r) = Some tcb" "(rq_addr r, k) \<in> set (chain_elems (tc_chain tcb))"
proof -
  have "(rq_addr r, k) \<in> held s (rq_tran r)" using assms(2,3) by (auto simp: held_def rq_id_def)
  then show thesis using that lm_wfD(4)[OF assms(1)] by (auto simp: chained_def split: option.splits)
qed

lemma lm_wf_known:
  assumes "lm_wf s" "find_lock s k = Some h" "r \<in> set (lh_queue h)"
  shows "find_tr_lock_head s (rq_tran r) \<noteq> None"
  by (rule lm_wf_chained[OF assms]) simp

lemma find_request_in: "find_request me q = Some r \<Longrightarrow> r \<in> set q \<and> rq_tran r = me"
  by (auto simp: find_request_def find_Some_iff)

section \<open>Creating a request\<close>

definition request_added where
  "request_added s tr sid k m r s' \<longleftrightarrow>
     rq_tran r = tr \<and> rq_addr r = next_addr s \<and> rq_status r = LOCK_GRANTED \<and> rq_mode r = m \<and> rq_sid r = sid \<and>
     find_lock s' = find_lock s \<and> chains_wf s' \<and> find_tr_lock_head s' tr \<noteq> None \<and>
     chained s' tr = insert (next_addr s, k) (chained s tr) \<and> (\<forall>t. t \<noteq> tr \<longrightarrow> chained s' t = chained s t)"

lemma new_lock_request_spec:
  assumes wf: "lm_wf s"
  obtains r s' where "new_lock_request s tr sid k m cls = Inr (r, s')" "request_added s tr sid k m r s'"
proof -
  let ?a = "next_addr s"
  let ?r = "\<lparr>rq_addr = ?a, rq_tran = tr, rq_sid = sid, rq_status = LOCK_GRANTED, rq_mode = m,
               rq_convert_mode = NULL_LOCK, rq_count = 1, rq_class = cls\<rparr>"
  obtain t' where n: "new_lock_request s tr sid k m cls = Inr (?r, put_tr tr t' (s\<lparr>next_addr := Suc ?a\<rparr>))"
    and c: "chain_ok (Suc ?a) (tc_chain t')" and e: "set (chain_elems (tc_chain t')) = insert (?a, k) (chained s tr)"
  proof (cases "find_tr_lock_head s tr")
    case None
    with that tc.start[of ?a k] show thesis
      by (simp add: new_lock_request_def Let_def new_TransCB_def chained_def)
  next
    case (Some t)
    with tc.push[OF lm_wfD(3)[OF wf Some], of ?a k] obtain c where
      "chain_append (tc_chain t) ?a k = Inr c" "chain_ok (Suc ?a) c" "chain_elems c = chain_elems (tc_chain t) @ [(?a, k)]"
      by auto
    with that Some show thesis by (simp add: new_lock_request_def Let_def chained_def)
  qed
  let ?s = "put_tr tr t' (s\<lparr>next_addr := Suc ?a\<rparr>)"
  have w: "chains_wf ?s"
    using c wf tc.ok_mono[of "next_addr s" _ "Suc ?a"] by (auto simp: chains_wf_def lm_wf_def split: if_splits)
  show thesis
    by (rule that[of ?r ?s]) (use n w e in \<open>auto simp: chained_def request_added_def fun_eq_iff\<close>)
qed

section \<open>Locking\<close>

lemma find_request_append: "find_request t (q @ [r]) = (case find_request t q of Some x \<Rightarrow> Some x | None \<Rightarrow> if rq_tran r = t then Some r else None)"
  by (induction q) (auto simp: find_request_def)

lemma update_request_ids:
  "(\<And>x. rq_id (f x) = rq_id x) \<Longrightarrow> map rq_id (update_request me f q) = map rq_id q"
  by (induction q) auto

lemma ids_trans: "map rq_tran q = map fst (map rq_id q)"
  by (simp add: rq_id_def o_def)

lemma update_request_known:
  "(\<And>x. known_status (f x)) \<Longrightarrow> \<forall>r\<in>set q. known_status r \<Longrightarrow> \<forall>r\<in>set (update_request me f q). known_status r"
  by (induction q) auto

lemma lock_convert_wf:
  assumes "head_wf h" "lock_convert h r m = (h', rep)"
  shows "head_wf h'" "map rq_id (lh_queue h') = map rq_id (lh_queue h)" "lh_r_id h' = lh_r_id h"
proof -
  from assms(2) obtain f where q: "lh_queue h' = update_request (rq_tran r) f (lh_queue h)" "lh_r_id h' = lh_r_id h"
    and f: "\<And>x. rq_id (f x) = rq_id x" "\<And>x. known_status (f x)"
    by (fastforce simp: lock_convert_def Let_def rq_id_def known_status_def holds_def split: if_splits)
  show i: "map rq_id (lh_queue h') = map rq_id (lh_queue h)" using q f by (simp add: update_request_ids)
  moreover have "\<forall>x\<in>set (lh_queue h'). known_status x"
    unfolding q(1) by (rule update_request_known) (use assms(1) f(2) in \<open>auto simp: head_wf_def\<close>)
  ultimately show "head_wf h'" using assms(1) by (auto simp: head_wf_def ids_trans)
  show "lh_r_id h' = lh_r_id h" by (rule q)
qed

lemma lock_new_wf:
  assumes "head_wf h" "lock_new h r = (h', rep)" "find_request (rq_tran r) (lh_queue h) = None" "rq_status r = LOCK_GRANTED"
  shows "head_wf h'" "rq_id ` set (lh_queue h') = insert (rq_id r) (rq_id ` set (lh_queue h))" "lh_r_id h' = lh_r_id h"
proof -
  have n: "rq_tran r \<notin> rq_tran ` set (lh_queue h)" using assms(3) by (auto simp: find_request_None)
  show "head_wf h'" "rq_id ` set (lh_queue h') = insert (rq_id r) (rq_id ` set (lh_queue h))" "lh_r_id h' = lh_r_id h"
    using assms(1,2,4) n by (auto simp: lock_new_def head_wf_def rq_id_def known_status_def holds_def split: if_splits)
qed

lemma finish_lock_spec:
  assumes "find_tr_lock_head s tr \<noteq> None"
  obtains s' where "finish_lock tr k (h, rep) s = Inr (s', rep)" "chained s' = chained s"
    "find_lock s' = (find_lock s)(k \<mapsto> h)" "chains_wf s \<longrightarrow> chains_wf s'"
proof -
  obtain t where t: "find_tr_lock_head s tr = Some t" using assms by auto
  show thesis
  proof (cases "rep = LOCK_OK")
    case True
    then show thesis
      by (intro that[of "put_head k h s"]) (auto simp: finish_lock_def Let_def fun_eq_iff chained_def chains_wf_def)
  next
    case False
    with t show thesis
      by (intro that[of "put_tr tr (t\<lparr>tc_wait := Some k\<rparr>) (put_head k h s)"])
         (auto simp: finish_lock_def Let_def fun_eq_iff chained_def chains_wf_def set_wait_def)
  qed
qed

text \<open>Replacing the head of one resource changes what is held there and nowhere else.\<close>

lemma held_put:
  assumes "find_lock s' = (find_lock s)(k \<mapsto> h')"
  shows "held s' t = {x \<in> held s t. snd x \<noteq> k} \<union> {(a, k) |a. (t, a) \<in> rq_id ` set (lh_queue h')}"
  using assms by (auto simp: held_def)

lemma held_at:
  assumes "find_lock s k = Some h"
  shows "held s t = {x \<in> held s t. snd x \<noteq> k} \<union> {(a, k) |a. (t, a) \<in> rq_id ` set (lh_queue h)}"
  using assms by (auto simp: held_def)

lemma held_at_None:
  assumes "find_lock s k = None"
  shows "held s t = {x \<in> held s t. snd x \<noteq> k}"
  using assms by (auto simp: held_def)

lemma heads_wf_put:
  assumes "heads_wf s" "find_lock s' = (find_lock s)(k \<mapsto> h)" "head_wf h" "get_str_res_id (lh_r_id h) = k"
  shows "heads_wf s'"
  using assms by (auto simp: heads_wf_def)

lemma lock_spec:
  assumes wf: "lm_wf s"
  obtains s' rep where "lock s tr sid rid m cls = Inr (s', rep)" "lm_wf s'"
proof (cases "find_lock s (get_str_res_id rid)")
  let ?k = "get_str_res_id rid"
  case None
  obtain r s1 where n: "new_lock_request s tr sid ?k m cls = Inr (r, s1)" and a: "request_added s tr sid ?k m r s1"
    by (rule new_lock_request_spec[OF wf])
  note a = a[unfolded request_added_def]
  let ?h = "\<lparr>lh_r_id = rid, lh_queue = [r], lh_granted_mode = m, lh_waiting = False\<rparr>"
  let ?s = "put_head ?k ?h s1"
  have "held ?s t = chained ?s t" for t
    using held_put[of ?s s ?k ?h t, OF ext] held_at_None[OF None, of t] a lm_wfD(4)[OF wf, of t]
    by (cases "t = tr") (auto simp: rq_id_def chained_def)
  moreover have "heads_wf ?s" "chains_wf ?s"
    using wf a by (auto simp: lm_wf_def heads_wf_def head_wf_def known_status_def holds_def chains_wf_def)
  ultimately show thesis using n None that[of ?s LOCK_OK] by (simp add: lock_def lm_wf_def)
next
  let ?k = "get_str_res_id rid"
  case (Some h)
  note hw = lm_wfD(1)[OF wf Some] and hk = lm_wfD(2)[OF wf Some]
  show thesis
  proof (cases "find_request tr (lh_queue h)")
    case None
    obtain r s1 where n: "new_lock_request s tr sid ?k m cls = Inr (r, s1)" and a: "request_added s tr sid ?k m r s1"
      by (rule new_lock_request_spec[OF wf])
    note a = a[unfolded request_added_def]
    obtain h' rep where l: "lock_new h r = (h', rep)" by fastforce
    have w: "head_wf h'" "rq_id ` set (lh_queue h') = insert (rq_id r) (rq_id ` set (lh_queue h))" "lh_r_id h' = lh_r_id h"
      using lock_new_wf[OF hw l] None a by auto
    obtain s' where f: "finish_lock tr ?k (h', rep) s1 = Inr (s', rep)" "chained s' = chained s1"
      "find_lock s' = (find_lock s1)(?k \<mapsto> h')" "chains_wf s1 \<longrightarrow> chains_wf s'"
      using a by - (rule finish_lock_spec[of s1 tr ?k h' rep], simp)
    have fl: "find_lock s' = (find_lock s)(?k \<mapsto> h')" using f a by simp
    have "held s' t = chained s' t" for t
      using held_put[of s' s ?k h' t, OF fl] held_at[OF Some, of t] w(2) a f(2) lm_wfD(4)[OF wf, of t]
      by (cases "t = tr") (auto simp: rq_id_def)
    moreover have "heads_wf s'" using heads_wf_put[OF _ fl w(1)] wf hk w(3) by (simp add: lm_wf_def)
    ultimately show thesis using that[of s' rep] n a f l Some None by (simp add: lock_def lm_wf_def)
  next
    case r: (Some r)
    obtain h' rep where l: "lock_convert h r m = (h', rep)" by fastforce
    note w = lock_convert_wf[OF hw l]
    have t: "find_tr_lock_head s tr \<noteq> None" using lm_wf_known[OF wf Some] find_request_in[OF r] by blast
    obtain s' where f: "finish_lock tr ?k (h', rep) s = Inr (s', rep)" "chained s' = chained s"
      "find_lock s' = (find_lock s)(?k \<mapsto> h')" "chains_wf s \<longrightarrow> chains_wf s'"
      by (rule finish_lock_spec[OF t, of ?k h' rep])
    have "rq_id ` set (lh_queue h') = rq_id ` set (lh_queue h)" using w(2) by (metis list.set_map)
    then have "held s' t = chained s' t" for t
      using held_put[of s' s ?k h' t, OF f(3)] held_at[OF Some, of t] f(2) lm_wfD(4)[OF wf, of t] by simp
    moreover have "heads_wf s'" using heads_wf_put[OF _ f(3) w(1)] wf hk w(3) by (simp add: lm_wf_def)
    ultimately show thesis using that[of s' rep] f l Some r wf by (simp add: lock_def lm_wf_def)
  qed
qed

section \<open>Unlocking\<close>

definition request_deleted :: "lm_state \<Rightarrow> transaction_id \<Rightarrow> nat \<times> string \<Rightarrow> lm_state \<Rightarrow> bool" where
  "request_deleted s tr e s' \<longleftrightarrow>
     find_lock s' = find_lock s \<and> chains_wf s' \<and> chained s' tr = chained s tr - {e} \<and>
     (\<forall>t. t \<noteq> tr \<longrightarrow> find_tr_lock_head s' t = find_tr_lock_head s t)"

lemma distinct_fst_unique: "distinct (map fst (xs @ (a, k') # ys)) \<Longrightarrow> (a, k) \<in> set (xs @ (a, k') # ys) \<Longrightarrow>
    k' = k \<and> set (xs @ ys) = set (xs @ (a, k') # ys) - {(a, k)}"
  by (force simp: rev_image_eqI)

lemma delete_lock_request_spec:
  assumes wf: "lm_wf s" and h: "find_lock s k = Some h" and r: "r \<in> set (lh_queue h)"
    and d: "delete_lock_request s r = Inr s'"
  shows "request_deleted s (rq_tran r) (rq_addr r, k) s'"
proof -
  obtain t where t: "find_tr_lock_head s (rq_tran r) = Some t" "(rq_addr r, k) \<in> set (chain_elems (tc_chain t))"
    by (rule lm_wf_chained[OF wf h r])
  note ok = lm_wfD(3)[OF wf t(1)]
  from d t obtain c gone where c: "chain_remove (tc_chain t) (rq_addr r) = Inr (c, gone)"
    and s': "s' = (if gone then remove_tr (rq_tran r) s else put_tr (rq_tran r) (t\<lparr>tc_chain := c\<rparr>) s)"
    by (auto simp: delete_lock_request_def sbind_eq_Inr)
  show ?thesis
  proof (cases gone)
    case True
    with c tc.remove_True[OF ok] t s' wf show ?thesis
      by (fastforce simp: request_deleted_def chained_def chains_wf_def lm_wf_def)
  next
    case False
    then obtain xs k' ys where e: "chain_ok (next_addr s) c" "chain_elems (tc_chain t) = xs @ (rq_addr r, k') # ys" "chain_elems c = xs @ ys"
      using c tc.remove_False[OF ok, of "rq_addr r" c] by auto
    then have "set (chain_elems c) = set (chain_elems (tc_chain t)) - {(rq_addr r, k)}"
      using distinct_fst_unique[of xs "rq_addr r" k' ys k] tc.ok_distinct[OF ok] t(2) by metis
    with False s' t e wf show ?thesis
      by (simp add: request_deleted_def chained_def chains_wf_def lm_wf_def fun_eq_iff)
  qed
qed

lemma delete_lock_request_first:
  assumes wf: "lm_wf s" and h: "find_lock s k = Some h" and r: "r \<in> set (lh_queue h)"
    and t: "find_tr_lock_head s (rq_tran r) = Some t" "chain_elems (tc_chain t) = (rq_addr r, k') # es"
  obtains s' where "delete_lock_request s r = Inr s'"
    "es = [] \<longrightarrow> find_tr_lock_head s' (rq_tran r) = None"
    "es \<noteq> [] \<longrightarrow> (\<exists>t'. find_tr_lock_head s' (rq_tran r) = Some t' \<and> chain_elems (tc_chain t') = es)"
proof (cases es)
  case Nil
  then obtain c where "chain_remove (tc_chain t) (rq_addr r) = Inr (c, True)"
    using tc.remove_first[OF lm_wfD(3)[OF wf t(1)] t(2)] by auto
  with t Nil that show thesis by (simp add: delete_lock_request_def)
next
  case (Cons e es')
  obtain c where "chain_remove (tc_chain t) (rq_addr r) = Inr (c, False)" "chain_elems c = es"
    using tc.pop[OF lm_wfD(3)[OF wf t(1)] t(2)[unfolded Cons]] Cons by blast
  with t Cons that show thesis by (simp add: delete_lock_request_def)
qed

lemma chained_cong: "find_tr_lock_head s' t = find_tr_lock_head s t \<Longrightarrow> chained s' t = chained s t"
  by (simp add: chained_def)

text \<open>Waking up transactions changes neither heads nor chains.\<close>

definition same_locks :: "lm_state \<Rightarrow> lm_state \<Rightarrow> bool" where
  "same_locks s s' \<longleftrightarrow> find_lock s' = find_lock s \<and> next_addr s' = next_addr s
     \<and> (\<forall>t. map_option tc_chain (find_tr_lock_head s' t) = map_option tc_chain (find_tr_lock_head s t))"

lemma same_locks_trans: "same_locks s s' \<Longrightarrow> same_locks s' s'' \<Longrightarrow> same_locks s s''"
  by (simp add: same_locks_def)

lemma same_locks_chained:
  assumes "same_locks s s'"
  shows "chained s' = chained s"
proof
  fix t
  have "map_option tc_chain (find_tr_lock_head s' t) = map_option tc_chain (find_tr_lock_head s t)"
    using assms by (simp add: same_locks_def)
  then show "chained s' t = chained s t" by (auto simp: chained_def split: option.splits)
qed

lemma same_locks_chains_wf:
  assumes "same_locks s s'" "chains_wf s"
  shows "chains_wf s'"
  unfolding chains_wf_def
proof (intro allI impI)
  fix t c' assume "find_tr_lock_head s' t = Some c'"
  with assms(1) have "map_option tc_chain (find_tr_lock_head s t) = Some (tc_chain c')" "next_addr s' = next_addr s"
    unfolding same_locks_def by (metis option.simps(9))+
  with assms(2) show "chain_ok (next_addr s') (tc_chain c')" by (auto simp: chains_wf_def) metis
qed

lemma wake_up_spec:
  assumes "find_tr_lock_head s (rq_tran r) \<noteq> None"
  shows "\<exists>s'. wake_up r s = Inr s' \<and> same_locks s s'"
  using assms by (auto simp: wake_up_def same_locks_def Let_def fun_eq_iff)

lemma wake_ups_spec:
  "\<forall>r\<in>set rs. find_tr_lock_head s (rq_tran r) \<noteq> None \<Longrightarrow> \<exists>s'. wake_ups rs s = Inr s' \<and> same_locks s s'"
proof (induction rs arbitrary: s)
  case (Cons r rs)
  then obtain s1 where s1: "wake_up r s = Inr s1" "same_locks s s1" using wake_up_spec[of s r] by (auto simp del: not_None_eq)
  then have "\<forall>r\<in>set rs. find_tr_lock_head s1 (rq_tran r) \<noteq> None"
    using Cons.prems unfolding same_locks_def by (metis list.set_intros(2) option.map_disc_iff)
  with Cons.IH s1 same_locks_trans show ?case by fastforce
qed (simp add: same_locks_def)

lemma wake_loop_ids:
  "wake_loop pre rest gm wt crw wk = Inr (q, gm', wt', wk') \<Longrightarrow> map rq_id q = map rq_id (pre @ rest)"
  by (induction pre rest gm wt crw wk rule: wake_loop.induct)
     (auto simp: Let_def rq_id_def split: if_splits)

lemma wake_loop_known:
  "wake_loop pre rest gm wt crw wk = Inr (q, gm', wt', wk') \<Longrightarrow> \<forall>r\<in>set (pre @ rest). known_status r \<Longrightarrow> \<forall>r\<in>set q. known_status r"
  by (induction pre rest gm wt crw wk rule: wake_loop.induct)
     (auto simp: Let_def known_status_def holds_def split: if_splits)

lemma remove_request_set: "distinct (map rq_tran q) \<Longrightarrow> set (remove_request me q) = {r \<in> set q. rq_tran r \<noteq> me}"
  by (induction q) (auto simp: image_iff)

lemma remove_request_distinct: "distinct (map rq_tran q) \<Longrightarrow> distinct (map rq_tran (remove_request me q))"
  by (induction q) (auto simp: remove_request_set)

lemma unlock_head_wf:
  assumes "head_wf h" "remove_request me (lh_queue h) \<noteq> []"
  obtains h' wk where "unlock_head h me = Inr (h', wk)" "head_wf h'" "lh_r_id h' = lh_r_id h"
    "rq_id ` set (lh_queue h') = rq_id ` {r \<in> set (lh_queue h). rq_tran r \<noteq> me}" "set wk \<subseteq> set (lh_queue h')"
proof -
  let ?q = "remove_request me (lh_queue h)"
  have kn: "\<forall>r\<in>set ?q. known_status r" and di: "distinct (map rq_tran ?q)"
    and st: "set ?q = {r \<in> set (lh_queue h). rq_tran r \<noteq> me}"
    using assms by (auto simp: head_wf_def remove_request_set remove_request_distinct)
  then obtain q gm wt wk where w: "wake_loop [] ?q NULL_LOCK False False [] = Inr (q, gm, wt, wk)"
    using wake_loop_total[OF kn] by (metis prod_cases4)
  note i = wake_loop_ids[OF w, simplified]
  have "rq_id ` set q = rq_id ` set ?q" using i by (metis list.set_map)
  moreover have "head_wf (h\<lparr>lh_queue := q, lh_granted_mode := gm, lh_waiting := wt\<rparr>)"
    using assms(2) di i wake_loop_known[OF w] kn by (auto simp: head_wf_def ids_trans)
  ultimately show thesis
    using that[of "h\<lparr>lh_queue := q, lh_granted_mode := gm, lh_waiting := wt\<rparr>" wk] w st wake_loop_woken[OF w]
    by (auto simp: unlock_head_def)
qed

text \<open>The two halves of a successful unlock fit together.\<close>

lemma held_remove:
  assumes wf: "lm_wf s" and h: "find_lock s k = Some h" and r: "r \<in> set (lh_queue h)"
    and fl: "\<And>k'. k' \<noteq> k \<Longrightarrow> find_lock s' k' = find_lock s k'"
    and q: "{(a, k') \<in> held s' t. k' = k} = {(a, k) |a. \<exists>x\<in>set (lh_queue h). rq_tran x \<noteq> rq_tran r \<and> rq_id x = (t, a)}"
  shows "held s' t = (if t = rq_tran r then held s t - {(rq_addr r, k)} else held s t)"
proof -
  have d: "x = r" if "x \<in> set (lh_queue h)" "rq_tran x = rq_tran r" for x
    using that r lm_wfD(1)[OF wf h] by (auto simp: head_wf_def distinct_map dest: inj_onD)
  have "{(a, k') \<in> held s t. k' = k} = {(a, k) |a. \<exists>x\<in>set (lh_queue h). rq_id x = (t, a)}"
    using h by (force simp: held_def)
  then have "{(a, k') \<in> held s' t. k' = k} = (if t = rq_tran r then {(a, k') \<in> held s t. k' = k} - {(rq_addr r, k)} else {(a, k') \<in> held s t. k' = k})"
    unfolding q using d r by (auto simp: rq_id_def)
  moreover have "(a, k') \<in> held s' t \<longleftrightarrow> (a, k') \<in> held s t" if "k' \<noteq> k" for a k' using fl[OF that] by (simp add: held_def)
  ultimately show ?thesis by (auto simp: set_eq_iff split: if_splits)
qed

lemma lm_wf_after_remove:
  assumes wf: "lm_wf s" and h: "find_lock s k = Some h" and r: "r \<in> set (lh_queue h)"
    and d: "request_deleted s (rq_tran r) (rq_addr r, k) s1"
    and c: "chained s' = chained s1" and w: "chains_wf s'" "heads_wf s'"
    and fl: "\<And>k'. k' \<noteq> k \<Longrightarrow> find_lock s' k' = find_lock s k'"
    and q: "\<And>t. {(a, k') \<in> held s' t. k' = k} = {(a, k) |a. \<exists>x\<in>set (lh_queue h). rq_tran x \<noteq> rq_tran r \<and> rq_id x = (t, a)}"
  shows "lm_wf s'"
proof -
  have "chained s' t = (if t = rq_tran r then chained s t - {(rq_addr r, k)} else chained s t)" for t
    using d c chained_cong[of s1 t s] by (simp add: request_deleted_def)
  with held_remove[OF wf h r fl q] lm_wfD(4)[OF wf] w show ?thesis by (simp add: lm_wf_def)
qed

lemma unlock_spec:
  assumes wf: "lm_wf s" and h: "find_lock s (get_str_res_id rid) = Some h" and f: "find_request tr (lh_queue h) = Some r"
    and d: "delete_lock_request s r = Inr s1"
  obtains s' where "unlock s tr rid = Inr (s', LOCK_OK)" "lm_wf s'"
    "map_option tc_chain (find_tr_lock_head s' tr) = map_option tc_chain (find_tr_lock_head s1 tr)"
proof -
  let ?k = "get_str_res_id rid"
  have r: "r \<in> set (lh_queue h)" "rq_tran r = tr" using find_request_in[OF f] by auto
  note del = delete_lock_request_spec[OF wf h r(1) d, unfolded r(2)] and hw = lm_wfD(1,2)[OF wf h]
  show thesis
  proof (cases "lh_queue h = [r]")
    case True
    let ?s = "erase_head ?k s1"
    have "heads_wf ?s" using wf del by (auto simp: heads_wf_def lm_wf_def request_deleted_def split: if_splits)
    moreover have "chains_wf ?s" using del by (simp add: chains_wf_def request_deleted_def)
    moreover have "chained ?s = chained s1" by (auto simp: chained_def fun_eq_iff)
    ultimately have "lm_wf ?s"
      by (intro lm_wf_after_remove[OF wf h r(1) del[folded r(2)]]) (use del True in \<open>auto simp: request_deleted_def held_def\<close>)
    with True h f d hw that[of ?s] show thesis by (simp add: unlock_def)
  next
    case False
    have rs: "set (remove_request tr (lh_queue h)) = {x \<in> set (lh_queue h). rq_tran x \<noteq> tr}"
      using hw by (simp add: head_wf_def remove_request_set)
    have "remove_request tr (lh_queue h) \<noteq> []"
      using find_request_split[OF f] False by (metis append_is_Nil_conv remove_request_split append_Nil)
    then obtain h' wk where u: "unlock_head h tr = Inr (h', wk)" "head_wf h'" "lh_r_id h' = lh_r_id h"
      "rq_id ` set (lh_queue h') = rq_id ` {x \<in> set (lh_queue h). rq_tran x \<noteq> tr}" "set wk \<subseteq> set (lh_queue h')"
      by (rule unlock_head_wf[OF hw(1)])
    let ?s = "put_head ?k h' s1"
    have "find_tr_lock_head ?s (rq_tran x) \<noteq> None" if "x \<in> set wk" for x
    proof -
      have "rq_id x \<in> rq_id ` {x \<in> set (lh_queue h). rq_tran x \<noteq> tr}" using u that by blast
      then obtain y where "y \<in> set (lh_queue h)" "rq_tran y = rq_tran x" "rq_tran x \<noteq> tr" by (auto simp: rq_id_def)
      with lm_wf_known[OF wf h, of y] del show ?thesis by (simp add: request_deleted_def)
    qed
    then obtain s' where s': "wake_ups wk ?s = Inr s'" "same_locks ?s s'" using wake_ups_spec[of wk ?s] by blast
    have fl: "find_lock s' = (find_lock s)(?k \<mapsto> h')" using s' del by (auto simp: same_locks_def request_deleted_def)
    have "lm_wf s'"
    proof (rule lm_wf_after_remove[OF wf h r(1) del[folded r(2)]])
      show "chained s' = chained s1" using same_locks_chained[OF s'(2)] by (auto simp: chained_def fun_eq_iff)
      show "chains_wf s'" using same_locks_chains_wf[OF s'(2)] del by (simp add: request_deleted_def chains_wf_def)
      show "heads_wf s'" using heads_wf_put[OF _ fl u(2)] wf u(3) hw by (simp add: lm_wf_def)
      show "find_lock s' k' = find_lock s k'" if "k' \<noteq> ?k" for k' using fl that by simp
      show "{(a, k') \<in> held s' t. k' = ?k} = {(a, ?k) |a. \<exists>x\<in>set (lh_queue h). rq_tran x \<noteq> rq_tran r \<and> rq_id x = (t, a)}" for t
        using fl u(4) r(2) by (force simp: held_def)
    qed
    with False h f d u s' that[of s'] show thesis by (simp add: unlock_def same_locks_def)
  qed
qed

lemma unlock_absent:
  assumes "\<And>h. find_lock s (get_str_res_id rid) = Some h \<Longrightarrow> find_request tr (lh_queue h) = None"
  shows "unlock s tr rid = Inr (s, LOCK_OK)"
  using assms by (auto simp: unlock_def Let_def split: option.splits)

lemma find_request_unique:
  "distinct (map rq_tran q) \<Longrightarrow> r \<in> set q \<Longrightarrow> rq_tran r = me \<Longrightarrow> find_request me q = Some r"
  by (induction q) (auto simp: find_request_def image_iff)

lemma unlock_wf:
  assumes wf: "lm_wf s" and u: "unlock s tr rid = Inr (s', rep)"
  shows "lm_wf s' \<and> rep = LOCK_OK"
proof (cases "\<exists>h r. find_lock s (get_str_res_id rid) = Some h \<and> find_request tr (lh_queue h) = Some r")
  case False
  with u unlock_absent[of s rid tr] wf show ?thesis by force
next
  case True
  then obtain h r where h: "find_lock s (get_str_res_id rid) = Some h" "find_request tr (lh_queue h) = Some r" by blast
  with u obtain s1 where "delete_lock_request s r = Inr s1" by (auto simp: unlock_def sbind_eq_Inr split: if_splits)
  from unlock_spec[OF wf h this] u show ?thesis by fastforce
qed

section \<open>Releasing all locks of a transaction\<close>

lemma chain_head_node:
  assumes "chain_ok n c" "chain_elems c = (a, k) # es"
  obtains nd where "ch_locks c = Some a" "map_of (ch_nodes c) a = Some nd" "cn_head nd = k"
    "cn_next nd = (case es of [] \<Rightarrow> None | e # _ \<Rightarrow> Some (fst e))" "length es < length (ch_nodes c)"
proof -
  have p: "path (map_of (ch_nodes c)) (ch_locks c) (a # map fst es)" "distinct (map fst (chain_elems c))"
    "set (map fst (chain_elems c)) = fst ` set (ch_nodes c)"
    using assms by (auto simp: chain_ok_def chain_fwd_def)
  then obtain nd where nd: "ch_locks c = Some a" "map_of (ch_nodes c) a = Some nd" "path (map_of (ch_nodes c)) (cn_next nd) (map fst es)"
    by auto
  moreover have "k = node_key (ch_nodes c) a" using assms(2) by (auto simp: chain_elems_def split: sum.splits)
  moreover have "cn_next nd = (case es of [] \<Rightarrow> None | e # _ \<Rightarrow> Some (fst e))" using nd(3) by (cases es) auto
  moreover have "length (chain_elems c) \<le> length (ch_nodes c)"
    using p(2,3) by (metis card_length distinct_card length_map list.set_map)
  ultimately show thesis using that[of nd] assms(2) by (simp add: node_key_def)
qed

lemma release_step:
  assumes wf: "lm_wf s" and t: "find_tr_lock_head s tr = Some t" and e: "chain_elems (tc_chain t) = (a, k) # es"
  obtains s' where "\<And>n. release_loop (Suc n) s tr (Some a) = release_loop n s' tr (case es of [] \<Rightarrow> None | e # _ \<Rightarrow> Some (fst e))"
    "lm_wf s'" "es = [] \<longrightarrow> find_tr_lock_head s' tr = None"
    "es \<noteq> [] \<longrightarrow> (\<exists>t'. find_tr_lock_head s' tr = Some t' \<and> chain_elems (tc_chain t') = es)"
proof -
  obtain nd where nd: "map_of (ch_nodes (tc_chain t)) a = Some nd" "cn_head nd = k"
    "cn_next nd = (case es of [] \<Rightarrow> None | e # _ \<Rightarrow> Some (fst e))"
    by (rule chain_head_node[OF lm_wfD(3)[OF wf t] e])
  have "(a, k) \<in> held s tr" using lm_wfD(4)[OF wf] t e by (simp add: chained_def)
  then obtain h r where h: "find_lock s k = Some h" and r: "r \<in> set (lh_queue h)" "rq_tran r = tr" "rq_addr r = a"
    by (auto simp: held_def rq_id_def)
  note hw = lm_wfD(1,2)[OF wf h]
  have f: "find_request tr (lh_queue h) = Some r"
    using hw r find_request_unique by (auto simp: head_wf_def)
  obtain s1 where d: "delete_lock_request s r = Inr s1" "es = [] \<longrightarrow> find_tr_lock_head s1 tr = None"
    "es \<noteq> [] \<longrightarrow> (\<exists>t'. find_tr_lock_head s1 tr = Some t' \<and> chain_elems (tc_chain t') = es)"
    using delete_lock_request_first[OF wf h r(1), of t k es] t e r by metis
  obtain s' where s': "unlock s tr (lh_r_id h) = Inr (s', LOCK_OK)" "lm_wf s'"
    "map_option tc_chain (find_tr_lock_head s' tr) = map_option tc_chain (find_tr_lock_head s1 tr)"
    using unlock_spec[OF wf _ f d(1), of "lh_r_id h"] h hw by metis
  show thesis
  proof (rule that[of s'])
    show "release_loop (Suc n) s tr (Some a) = release_loop n s' tr (case es of [] \<Rightarrow> None | e # _ \<Rightarrow> Some (fst e))" for n
      using t nd h s' by simp
    show "es = [] \<longrightarrow> find_tr_lock_head s' tr = None" using d s'(3) by auto
    show "es \<noteq> [] \<longrightarrow> (\<exists>t'. find_tr_lock_head s' tr = Some t' \<and> chain_elems (tc_chain t') = es)"
      using d s'(3) by (cases "find_tr_lock_head s' tr") auto
  qed (rule s')
qed

lemma release_loop_spec:
  assumes "lm_wf s" "find_tr_lock_head s tr = Some t" "chain_elems (tc_chain t) = e # es" "length es < n"
  shows "\<exists>s'. release_loop n s tr (Some (fst e)) = Inr s' \<and> lm_wf s' \<and> find_tr_lock_head s' tr = None"
  using assms
proof (induction es arbitrary: e s t n)
  case Nil
  obtain a k where e: "e = (a, k)" by (cases e)
  obtain m where n: "n = Suc m" using Nil.prems by (cases n) auto
  obtain s' where s': "\<And>n. release_loop (Suc n) s tr (Some a) = release_loop n s' tr None"
     "lm_wf s'" "find_tr_lock_head s' tr = None"
    by (rule release_step[OF Nil.prems(1,2) Nil.prems(3)[unfolded e]]) auto
  then show ?case using n e by simp
next
  case (Cons e' es)
  obtain a k where e: "e = (a, k)" by (cases e)
  obtain m where n: "n = Suc m" using Cons.prems by (cases n) auto
  obtain s' t' where s': "\<And>n. release_loop (Suc n) s tr (Some a) = release_loop n s' tr (Some (fst e'))"
     "lm_wf s'" "find_tr_lock_head s' tr = Some t'" "chain_elems (tc_chain t') = e' # es"
    by (rule release_step[OF Cons.prems(1,2) Cons.prems(3)[unfolded e]]) auto
  from Cons.IH[OF s'(2-4), of m] Cons.prems(4) n e s'(1) show ?case by simp
qed

lemma release_tr_locks_spec:
  assumes wf: "lm_wf s"
  shows "\<exists>s'. release_tr_locks s tr = Inr (s', LOCK_OK) \<and> lm_wf s' \<and> find_tr_lock_head s' tr = None"
proof (cases "find_tr_lock_head s tr")
  case (Some t)
  note ok = lm_wfD(3)[OF wf Some]
  obtain e es where e: "chain_elems (tc_chain t) = e # es" using ok by (cases "chain_elems (tc_chain t)") (auto simp: chain_ok_def)
  obtain nd where "ch_locks (tc_chain t) = Some (fst e)" "length es < length (ch_nodes (tc_chain t))"
    by (rule chain_head_node[of _ _ "fst e" "snd e" es, OF ok]) (simp_all add: e)
  with release_loop_spec[OF wf Some e] Some show ?thesis by (fastforce simp: release_tr_locks_def)
qed (use wf in \<open>simp add: release_tr_locks_def\<close>)

text \<open>Without an entry in the transaction table a transaction has no request in any queue.\<close>

lemma no_entry_no_request:
  assumes "lm_wf s" "find_tr_lock_head s tr = None" "find_lock s k = Some h"
  shows "find_request tr (lh_queue h) = None"
  using lm_wf_known[OF assms(1,3)] assms(2) find_request_in by (metis not_Some_eq)

section \<open>Safety of every head\<close>

definition lm_safe :: "lm_state \<Rightarrow> bool" where
  "lm_safe s \<longleftrightarrow> (\<forall>k h. find_lock s k = Some h \<longrightarrow> head_inv h)"

text \<open>Apart from the requests of \<open>tr\<close>, no two conversions exclude each other.\<close>

definition lm_clear :: "lm_state \<Rightarrow> transaction_id \<Rightarrow> bool" where
  "lm_clear s tr \<longleftrightarrow> (\<forall>k h. find_lock s k = Some h \<longrightarrow> conv_clear (remove_request tr (lh_queue h)))"

text \<open>The heads after each operation, whenever it succeeds.\<close>

lemma new_lock_request_find_lock: "new_lock_request s tr sid k m cls = Inr (r, s') \<Longrightarrow>
    find_lock s' = find_lock s \<and> rq_tran r = tr \<and> rq_status r = LOCK_GRANTED \<and> rq_mode r = m \<and> rq_convert_mode r = NULL_LOCK"
  by (auto simp: new_lock_request_def Let_def sbind_eq_Inr fun_eq_iff split: option.splits)

lemma finish_lock_find_lock: "finish_lock tr k (h, rep) s = Inr (s', rep') \<Longrightarrow> find_lock s' = (find_lock s)(k \<mapsto> h) \<and> rep' = rep"
  by (auto simp: finish_lock_def Let_def set_wait_def sbind_eq_Inr fun_eq_iff split: option.splits if_splits)

lemma lock_cases:
  assumes "lock s tr sid rid m cls = Inr (s', rep)"
  obtains r where "find_lock s (get_str_res_id rid) = None" "rq_status r = LOCK_GRANTED" "rep = LOCK_OK" "rq_tran r = tr" "rq_mode r = m"
     "find_lock s' = (find_lock s)(get_str_res_id rid \<mapsto> \<lparr>lh_r_id = rid, lh_queue = [r], lh_granted_mode = m, lh_waiting = False\<rparr>)"
  | h r h' where "find_lock s (get_str_res_id rid) = Some h" "find_request tr (lh_queue h) = None" "lock_new h r = (h', rep)"
     "rq_tran r = tr" "rq_status r = LOCK_GRANTED" "rq_mode r = m" "find_lock s' = (find_lock s)(get_str_res_id rid \<mapsto> h')"
  | h r h' where "find_lock s (get_str_res_id rid) = Some h" "find_request tr (lh_queue h) = Some r" "lock_convert h r m = (h', rep)"
     "find_lock s' = (find_lock s)(get_str_res_id rid \<mapsto> h')"
proof (cases "find_lock s (get_str_res_id rid)")
  case None
  with assms that(1) show thesis
    by (auto simp: lock_def Let_def sbind_eq_Inr fun_eq_iff dest!: new_lock_request_find_lock)
next
  case (Some h)
  show thesis
  proof (cases "find_request tr (lh_queue h)")
    case None
    with assms Some obtain r s1 where n: "new_lock_request s tr sid (get_str_res_id rid) m cls = Inr (r, s1)"
      and f: "finish_lock tr (get_str_res_id rid) (lock_new h r) s1 = Inr (s', rep)"
      by (auto simp: lock_def Let_def sbind_eq_Inr)
    obtain h' rep' where "lock_new h r = (h', rep')" by fastforce
    with that(2)[OF Some None, of r h'] new_lock_request_find_lock[OF n] f show thesis
      by (auto dest!: finish_lock_find_lock)
  next
    case r: (Some r)
    obtain h' rep' where "lock_convert h r m = (h', rep')" by fastforce
    with that(3)[OF Some r, of h'] assms Some r show thesis by (auto simp: lock_def Let_def dest!: finish_lock_find_lock)
  qed
qed

text \<open>A transaction that is suspended on a resource does not ask for it again.\<close>

definition not_queued :: "lm_state \<Rightarrow> transaction_id \<Rightarrow> string \<Rightarrow> bool" where
  "not_queued s tr k \<longleftrightarrow> (\<forall>h r. find_lock s k = Some h \<longrightarrow> find_request tr (lh_queue h) = Some r \<longrightarrow> rq_status r \<noteq> LOCK_WAITING)"

lemma lock_safe:
  assumes safe: "lm_safe s" and nq: "not_queued s tr (get_str_res_id rid)" and l: "lock s tr sid rid m cls = Inr (s', rep)"
  shows "lm_safe s'"
  using l
proof (cases rule: lock_cases)
  case (1 r)
  then show ?thesis using safe
    by (auto simp: lm_safe_def head_inv_def queue_inv_def known_status_def holds_def conv_above_def group_compat_def
        wait_suffix_def granted_join_def lm.sup_null)
next
  case (2 h r h')
  then show ?thesis using safe lock_new_inv[of h r h' rep] by (auto simp: lm_safe_def)
next
  case (3 h r h')
  then show ?thesis using safe nq lock_convert_inv[of h tr r m h' rep] by (auto simp: lm_safe_def not_queued_def)
qed

text \<open>A head after a successful unlock: gone, or rewritten by \<^const>\<open>unlock_head\<close>.\<close>

lemma wake_up_find_lock: "wake_up r s = Inr s' \<Longrightarrow> find_lock s' = find_lock s"
  by (auto simp: wake_up_def Let_def fun_eq_iff split: option.splits if_splits)

lemma wake_ups_find_lock: "wake_ups rs s = Inr s' \<Longrightarrow> find_lock s' = find_lock s"
  by (induction rs arbitrary: s) (auto simp: sbind_eq_Inr dest!: wake_up_find_lock)

lemma delete_lock_request_find_lock: "delete_lock_request s r = Inr s' \<Longrightarrow> find_lock s' = find_lock s"
  by (auto simp: delete_lock_request_def sbind_eq_Inr fun_eq_iff split: option.splits if_splits)

lemma unlock_cases:
  assumes "unlock s tr rid = Inr (s', rep)"
  obtains "s' = s" "\<And>h. find_lock s (get_str_res_id rid) = Some h \<Longrightarrow> find_request tr (lh_queue h) = None"
  | h r where "find_lock s (get_str_res_id rid) = Some h" "lh_queue h = [r]" "rq_tran r = tr"
     "find_lock s' = (find_lock s)(get_str_res_id (lh_r_id h) := None)"
  | h r h' wk where "find_lock s (get_str_res_id rid) = Some h" "find_request tr (lh_queue h) = Some r" "lh_queue h \<noteq> [r]"
     "unlock_head h tr = Inr (h', wk)" "find_lock s' = (find_lock s)(get_str_res_id rid \<mapsto> h')"
proof (cases "\<exists>h r. find_lock s (get_str_res_id rid) = Some h \<and> find_request tr (lh_queue h) = Some r")
  case False
  with assms that(1) unlock_absent[of s rid tr] show thesis by fastforce
next
  case True
  then obtain h r where h: "find_lock s (get_str_res_id rid) = Some h" "find_request tr (lh_queue h) = Some r" by blast
  note r = find_request_in[OF h(2)]
  show thesis
  proof (cases "lh_queue h = [r]")
    case True
    with assms h that(2)[OF h(1) True] r show thesis
      by (auto simp: unlock_def sbind_eq_Inr fun_eq_iff dest!: delete_lock_request_find_lock)
  next
    case False
    with assms h that(3)[OF h False] show thesis
      by (auto simp: unlock_def Let_def sbind_eq_Inr fun_eq_iff dest!: delete_lock_request_find_lock wake_ups_find_lock)
  qed
qed

lemma remaining_request:
  "find_request tr q = Some r \<Longrightarrow> q \<noteq> [r] \<Longrightarrow> remove_request tr q \<noteq> []"
  by (induction q) (auto simp: find_request_def split: if_splits)

lemma unlock_safe:
  assumes safe: "lm_safe s" and c: "\<And>h. find_lock s (get_str_res_id rid) = Some h \<Longrightarrow> conv_clear (remove_request tr (lh_queue h))"
    and u: "unlock s tr rid = Inr (s', rep)"
  shows "lm_safe s'"
  using u
proof (cases rule: unlock_cases)
  case (3 h r h' wk)
  then have "head_inv h'"
    using unlock_head_inv[OF _ c[OF 3(1)] remaining_request[OF 3(2,3)] 3(4)] safe by (auto simp: lm_safe_def)
  with 3 safe show ?thesis by (auto simp: lm_safe_def)
qed (use safe in \<open>auto simp: lm_safe_def\<close>)

lemma wake_loop_clear:
  "wake_loop pre rest gm wt crw wk = Inr (q, gm', wt', wk') \<Longrightarrow> conv_clear (pre @ rest) \<Longrightarrow> conv_clear q"
proof (induction rest arbitrary: pre gm wt crw wk)
  case (Cons r rs)
  have g: "conv_clear ((pre @ [x]) @ rs)" if "rq_status x = LOCK_GRANTED" for x
    using Cons.prems(2) that unfolding conv_clear_def sorted_wrt_append by (auto simp: conv_apart_def)
  have k: "conv_clear ((pre @ [r]) @ rs)" using Cons.prems(2) by simp
  show ?case using Cons.prems
    by (auto simp: Let_def split: if_splits intro: Cons.IH[OF _ g] Cons.IH[OF _ k])
qed simp

lemma unlock_clear:
  assumes c: "lm_clear s tr" and u: "unlock s tr rid = Inr (s', rep)"
  shows "lm_clear s' tr"
  using u
proof (cases rule: unlock_cases)
  case (3 h r h' wk)
  from 3(4) obtain gm wt where "wake_loop [] (remove_request tr (lh_queue h)) NULL_LOCK False False [] = Inr (lh_queue h', gm, wt, wk)"
    by (auto simp: unlock_head_def sbind_eq_Inr)
  from wake_loop_clear[OF this] have "conv_clear (lh_queue h')" using c 3(1) by (auto simp: lm_clear_def)
  from conv_clear_remove[OF this, of tr] have "conv_clear (remove_request tr (lh_queue h'))" .
  with 3 c show ?thesis by (auto simp: lm_clear_def)
qed (use c in \<open>auto simp: lm_clear_def\<close>)

text \<open>Whatever every successful unlock keeps, releasing all locks of a transaction keeps.\<close>

lemma release_loop_induct:
  assumes "release_loop n s tr p = Inr s'" "P s"
    and "\<And>s rid s1 rep. P s \<Longrightarrow> unlock s tr rid = Inr (s1, rep) \<Longrightarrow> P s1"
  shows "P s'"
  using assms(1,2)
proof (induction n arbitrary: s p)
  case 0
  then show ?case by (cases p) simp_all
next
  case (Suc n)
  then show ?case
    by (cases p) (auto simp: sbind_eq_Inr split: option.splits intro: assms(3))
qed

lemma release_tr_locks_induct:
  assumes "release_tr_locks s tr = Inr (s', rep)" "P s"
    and "\<And>s rid s1 rep. P s \<Longrightarrow> unlock s tr rid = Inr (s1, rep) \<Longrightarrow> P s1"
  shows "P s'"
  using assms(1,2) release_loop_induct[where P = P, OF _ _ assms(3)]
  by (auto simp: release_tr_locks_def sbind_eq_Inr split: option.splits if_splits)

lemma release_safe:
  assumes "lm_safe s" "lm_clear s tr" "release_tr_locks s tr = Inr (s', rep)"
  shows "lm_safe s' \<and> lm_clear s' tr"
proof (rule release_tr_locks_induct[where P = "\<lambda>s. lm_safe s \<and> lm_clear s tr", OF assms(3)])
  fix s rid s1 rep assume P: "lm_safe s \<and> lm_clear s tr" and u: "unlock s tr rid = Inr (s1, rep)"
  have "lm_safe s1" by (rule unlock_safe[OF _ _ u]) (use P in \<open>auto simp: lm_clear_def\<close>)
  then show "lm_safe s1 \<and> lm_clear s1 tr" using unlock_clear[OF _ u] P by blast
qed (use assms in simp)

end
