(* ===== verification/Deadlock.thy ===== *)
theory Deadlock
  imports LockTable
begin

text \<open>
  Deadlock detection: \<^verbatim>\<open>deadlock\<close> and \<^verbatim>\<open>visit\<close> of \<^verbatim>\<open>sm/lm/lock_table.cpp\<close>, a depth-first search in
  the graph of transactions waiting for each other.
\<close>

section \<open>Whom a request waits for\<close>

text \<open>
  \<^verbatim>\<open>visit\<close> for a waiting request looks at every request ahead of it. The queue does not change during
  the search, so the transactions to be visited are listed first.
\<close>

fun ahead_blockers :: "transaction_id \<Rightarrow> lock_mode \<Rightarrow> lock_request list \<Rightarrow> transaction_id list" where
  "ahead_blockers me m [] = []"
| "ahead_blockers me m (x # xs) =
     (if rq_tran x = me then []
      else (if \<not> lock_compat (rq_mode x) m
               \<or> (rq_status x = LOCK_CONVERTING \<and> \<not> lock_compat (rq_convert_mode x) m)
            then [rq_tran x] else []) @ ahead_blockers me m xs)"

text \<open>For a converting request it looks at every request that holds the lock, on both sides.\<close>

fun convert_blockers :: "transaction_id \<Rightarrow> lock_mode \<Rightarrow> bool \<Rightarrow> lock_request list \<Rightarrow> transaction_id list" where
  "convert_blockers me cm ahead_me [] = []"
| "convert_blockers me cm ahead_me (x # xs) =
     (if rq_status x = LOCK_WAITING then []
      else if rq_tran x = me then convert_blockers me cm False xs
      else (if (ahead_me \<and> (\<not> lock_compat (rq_mode x) cm
                            \<or> (rq_status x = LOCK_CONVERTING \<and> \<not> lock_compat (rq_convert_mode x) cm)))
              \<or> (\<not> ahead_me \<and> \<not> lock_compat (rq_mode x) cm)
            then [rq_tran x] else []) @ convert_blockers me cm ahead_me xs)"

definition blockers :: "transaction_id \<Rightarrow> lock_request \<Rightarrow> lock_request list \<Rightarrow> transaction_id list" where
  "blockers me r q = (if rq_status r = LOCK_WAITING then ahead_blockers me (rq_mode r) q
                      else convert_blockers me (rq_convert_mode r) True q)"

section \<open>The search\<close>

definition CHARISMA_MAX_TRNS_NUMBER :: nat where
  "CHARISMA_MAX_TRNS_NUMBER = 50"

text \<open>
  The outcome of \<^verbatim>\<open>visit\<close>: the exception \<^verbatim>\<open>SE4705\<close>, the other failures, or a return that leaves
  \<^verbatim>\<open>nodesVisited[0 .. nVisited - 1]\<close> behind.
\<close>

datatype visit_result =
    Deadlock_found
  | Visit_error lm_error
  | Visited "transaction_id list"

text \<open>
  \<^verbatim>\<open>visit\<close>; the first argument bounds the depth of the recursion, which is at most one more than the
  size of the array, see \<open>visit_fuel\<close>.
\<close>

fun visit :: "nat \<Rightarrow> lm_state \<Rightarrow> transaction_id \<Rightarrow> transaction_id list \<Rightarrow> visit_result" where
  "visit 0 s me vis = Visit_error NonTermination"
| "visit (Suc n) s me vis =
     (case find_tr_lock_head s me of
        None \<Rightarrow> Visit_error UseAfterFree
      | Some t \<Rightarrow>
          (case tc_wait t of
             None \<Rightarrow> Visited vis
           | Some k \<Rightarrow>
               if me \<in> set vis then (if me = hd vis then Deadlock_found else Visited vis)
               else if \<not> length vis < CHARISMA_MAX_TRNS_NUMBER then Visit_error BufferOverrun
               else (case find_lock s k of
                       None \<Rightarrow> Visit_error UseAfterFree
                     | Some h \<Rightarrow>
                         (case find_request me (lh_queue h) of
                            None \<Rightarrow> Visit_error UseAfterFree
                          | Some r \<Rightarrow>
                              foldl (\<lambda>acc them. case acc of Visited v \<Rightarrow> visit n s them v | e \<Rightarrow> e)
                                (Visited (vis @ [me])) (blockers me r (lh_queue h))))))"

definition deadlock :: "lm_state \<Rightarrow> transaction_id \<Rightarrow> lm_error + bool" where
  "deadlock s trid =
     (case find_tr_lock_head s trid of
        None \<Rightarrow> Inl InconsistentTable
      | Some t \<Rightarrow> (case visit (Suc CHARISMA_MAX_TRNS_NUMBER) s trid [] of
                     Deadlock_found \<Rightarrow> Inr True
                   | Visit_error e \<Rightarrow> Inl e
                   | Visited _ \<Rightarrow> Inr False))"

section \<open>The graph\<close>

definition waits_on :: "lm_state \<Rightarrow> transaction_id \<Rightarrow> transaction_id list" where
  "waits_on s me =
     (case find_tr_lock_head s me of
        None \<Rightarrow> []
      | Some t \<Rightarrow> (case tc_wait t of
                     None \<Rightarrow> []
                   | Some k \<Rightarrow> (case find_lock s k of
                                  None \<Rightarrow> []
                                | Some h \<Rightarrow> (case find_request me (lh_queue h) of
                                               None \<Rightarrow> []
                                             | Some r \<Rightarrow> blockers me r (lh_queue h)))))"

definition waits_for :: "lm_state \<Rightarrow> (transaction_id \<times> transaction_id) set" where
  "waits_for s = {(a, b). b \<in> set (waits_on s a)}"

definition waiting :: "lm_state \<Rightarrow> transaction_id \<Rightarrow> bool" where
  "waiting s t \<longleftrightarrow> (\<exists>tcb k. find_tr_lock_head s t = Some tcb \<and> tc_wait tcb = Some k)"

definition visit_ready :: "lm_state \<Rightarrow> transaction_id \<Rightarrow> bool" where
  "visit_ready s t \<longleftrightarrow> (\<exists>tcb. find_tr_lock_head s t = Some tcb \<and>
     (\<forall>k. tc_wait tcb = Some k \<longrightarrow> (\<exists>h r. find_lock s k = Some h \<and> find_request t (lh_queue h) = Some r)))"

lemma waits_on_waiting: "waits_on s t \<noteq> [] \<Longrightarrow> waiting s t"
  by (cases "find_tr_lock_head s t") (auto simp: waits_on_def waiting_def split: option.splits)

abbreviation visit_all :: "nat \<Rightarrow> lm_state \<Rightarrow> transaction_id list \<Rightarrow> visit_result \<Rightarrow> visit_result" where
  "visit_all n s ts acc \<equiv> foldl (\<lambda>acc them. case acc of Visited v \<Rightarrow> visit n s them v | e \<Rightarrow> e) acc ts"

lemma visit_all_stuck [simp]:
  "visit_all n s ts Deadlock_found = Deadlock_found" "visit_all n s ts (Visit_error e) = Visit_error e"
  by (induction ts) auto

text \<open>How one call of \<^verbatim>\<open>visit\<close> behaves, in terms of the graph.\<close>

lemma visit_cases:
  obtains "\<not> visit_ready s me" "visit (Suc n) s me vis = Visit_error UseAfterFree"
  | "waiting s me" "me \<notin> set vis" "\<not> length vis < CHARISMA_MAX_TRNS_NUMBER" "visit (Suc n) s me vis = Visit_error BufferOverrun"
  | "\<not> waiting s me" "waits_on s me = []" "visit (Suc n) s me vis = Visited vis"
  | "waiting s me" "me \<in> set vis" "visit (Suc n) s me vis = (if me = hd vis then Deadlock_found else Visited vis)"
  | "waiting s me" "me \<notin> set vis" "length vis < CHARISMA_MAX_TRNS_NUMBER"
    "visit (Suc n) s me vis = visit_all n s (waits_on s me) (Visited (vis @ [me]))"
  by (cases "find_tr_lock_head s me"; fastforce simp: waiting_def waits_on_def visit_ready_def split: option.splits if_splits)

text \<open>The array is only extended.\<close>

declare visit.simps(2) [simp del]

lemma visit_all_extends:
  assumes "\<And>t v v'. visit n s t v = Visited v' \<Longrightarrow> \<exists>w. v' = v @ w" and "visit_all n s ts (Visited v) = Visited v'"
  shows "\<exists>w. v' = v @ w"
  using assms(2)
proof (induction ts arbitrary: v)
  case (Cons t ts)
  then obtain v1 where v1: "visit n s t v = Visited v1" "visit_all n s ts (Visited v1) = Visited v'"
    by (cases "visit n s t v") auto
  with Cons.IH[OF v1(2)] assms(1)[OF v1(1)] show ?case by auto
qed simp

lemma visit_extends: "visit n s me vis = Visited v' \<Longrightarrow> \<exists>w. v' = vis @ w"
proof (induction n arbitrary: me vis v')
  case (Suc n)
  have "visit_all n s (waits_on s me) (Visited (vis @ [me])) = Visited v' \<Longrightarrow> \<exists>w. v' = (vis @ [me]) @ w"
    using visit_all_extends Suc.IH by blast
  then show ?case
    by - (rule visit_cases[of s me n vis], use Suc.prems in \<open>auto split: if_splits\<close>)
qed simp

lemma all_ext: "visit_all n s ts (Visited v) = Visited v' \<Longrightarrow> \<exists>w. v' = v @ w"
  using visit_all_extends visit_extends by blast

lemma visit_all_Cons_cases:
  obtains e where "visit n s t v = Visit_error e" "visit_all n s (t # ts) (Visited v) = Visit_error e"
  | "visit n s t v = Deadlock_found" "visit_all n s (t # ts) (Visited v) = Deadlock_found"
  | w where "visit n s t v = Visited (v @ w)" "visit_all n s (t # ts) (Visited v) = visit_all n s ts (Visited (v @ w))"
  by (cases "visit n s t v") (auto dest: visit_extends)

lemma visit_sound:
  "visit n s me vis = Deadlock_found \<Longrightarrow>
     if vis = [] then (me, me) \<in> (waits_for s)\<^sup>+ else (me, hd vis) \<in> (waits_for s)\<^sup>*"
proof (induction n arbitrary: me vis)
  case (Suc n)
  have all: "visit_all n s ts (Visited v) = Deadlock_found \<Longrightarrow> v \<noteq> [] \<Longrightarrow> \<exists>t\<in>set ts. (t, hd v) \<in> (waits_for s)\<^sup>*" for ts v
  proof (induction ts arbitrary: v)
    case (Cons t ts)
    show ?case
    proof (rule visit_all_Cons_cases[of n s t v ts])
      assume "visit n s t v = Deadlock_found"
      with Suc.IH[of t v] Cons.prems(2) show ?thesis by simp
    next
      fix w assume "visit_all n s (t # ts) (Visited v) = visit_all n s ts (Visited (v @ w))"
      with Cons.IH[of "v @ w"] Cons.prems show ?thesis by simp
    qed (use Cons.prems in simp)
  qed simp
  show ?case
  proof (rule visit_cases[of s me n vis])
    assume "visit (Suc n) s me vis = visit_all n s (waits_on s me) (Visited (vis @ [me]))"
    with all[of "vis @ [me]" "waits_on s me"] Suc.prems
    obtain t where t: "t \<in> set (waits_on s me)" "(t, hd (vis @ [me])) \<in> (waits_for s)\<^sup>*" by auto
    then have "(me, t) \<in> waits_for s" by (simp add: waits_for_def)
    with t(2) show ?thesis by (auto intro: rtrancl_into_trancl2 converse_rtrancl_into_rtrancl)
  qed (use Suc.prems in \<open>auto split: if_splits\<close>)
qed simp

text \<open>
  A search that returns has visited everything it could reach, and never came back to the transaction
  it started from.
\<close>

definition explored :: "lm_state \<Rightarrow> transaction_id \<Rightarrow> transaction_id list \<Rightarrow> transaction_id \<Rightarrow> bool" where
  "explored s start vis t \<longleftrightarrow> (waiting s t \<longrightarrow> t \<noteq> start \<and> t \<in> set vis)"

lemma explored_mono: "explored s start vis t \<Longrightarrow> explored s start (vis @ w) t"
  by (auto simp: explored_def)

definition completed :: "lm_state \<Rightarrow> transaction_id list \<Rightarrow> transaction_id list \<Rightarrow> transaction_id set \<Rightarrow> bool" where
  "completed s vis v' T \<longleftrightarrow> (\<forall>t\<in>T. explored s (hd vis) v' t)
     \<and> (\<forall>x\<in>set v' - set vis. \<forall>y\<in>set (waits_on s x). explored s (hd vis) v' y)"

lemma completed_step:
  assumes "completed s v (v @ w) T" "completed s (v @ w) (v @ w @ u) T'" "v \<noteq> []"
  shows "completed s v (v @ w @ u) (T \<union> T')"
proof -
  have hd: "hd (v @ w) = hd v" using assms(3) by auto
  have "explored s (hd v) (v @ w @ u) y" if "explored s (hd v) (v @ w) y" for y
    using explored_mono[OF that, of u] by simp
  with assms(1,2) show ?thesis unfolding completed_def hd
    by (metis Diff_iff UnE)
qed

lemma visit_all_complete:
  assumes IH: "\<And>me vis v'. visit n s me vis = Visited v' \<Longrightarrow> vis \<noteq> [] \<Longrightarrow> completed s vis v' {me}"
  shows "visit_all n s ts (Visited v) = Visited v' \<Longrightarrow> v \<noteq> [] \<Longrightarrow> completed s v v' (set ts)"
proof (induction ts arbitrary: v)
  case (Cons t ts)
  show ?case
  proof (rule visit_all_Cons_cases[of n s t v ts])
    fix w assume w: "visit n s t v = Visited (v @ w)" "visit_all n s (t # ts) (Visited v) = visit_all n s ts (Visited (v @ w))"
    then have r: "visit_all n s ts (Visited (v @ w)) = Visited v'" using Cons.prems by simp
    obtain u where u: "v' = v @ w @ u" using all_ext[OF r] by auto
    have "completed s (v @ w) v' (set ts)" by (rule Cons.IH[OF r]) (use Cons.prems in simp)
    with completed_step[OF IH[OF w(1) Cons.prems(2)] _ Cons.prems(2), of u "set ts"] u show ?thesis by simp
  qed (use Cons.prems in simp_all)
qed (simp add: completed_def)

lemma visit_complete:
  "visit n s me vis = Visited v' \<Longrightarrow> vis \<noteq> [] \<Longrightarrow> completed s vis v' {me}"
proof (induction n arbitrary: me vis v')
  case (Suc n)
  show ?case
  proof (rule visit_cases[of s me n vis])
    assume w: "waiting s me" "me \<notin> set vis" and "visit (Suc n) s me vis = visit_all n s (waits_on s me) (Visited (vis @ [me]))"
    then have r: "visit_all n s (waits_on s me) (Visited (vis @ [me])) = Visited v'" using Suc.prems(1) by simp
    have hd: "hd (vis @ [me]) = hd vis" "vis @ [me] \<noteq> []" "me \<noteq> hd vis" using Suc.prems(2) w(2) by auto
    obtain u where u: "v' = (vis @ [me]) @ u" using all_ext[OF r] by blast
    have "completed s (vis @ [me]) v' (set (waits_on s me))" by (rule visit_all_complete[OF _ r hd(2)]) (rule Suc.IH)
    moreover have "set v' - set vis = insert me (set v' - set (vis @ [me]))" using u w(2) by auto
    moreover have "explored s (hd vis) v' me" using hd(3) u by (simp add: explored_def)
    ultimately show ?thesis unfolding completed_def hd(1) by simp
  qed (use Suc.prems in \<open>auto simp: completed_def explored_def split: if_splits\<close>)
qed simp

text \<open>
  What every step of the search keeps of the array it keeps throughout; an error can only come from a
  dangling pointer or from a full array, never from the bound on the depth.
\<close>

definition outcome :: "(transaction_id list \<Rightarrow> bool) \<Rightarrow> (lm_error \<Rightarrow> bool) \<Rightarrow> visit_result \<Rightarrow> bool" where
  "outcome I B res = (case res of Visit_error e \<Rightarrow> B e | Visited v \<Rightarrow> I v | Deadlock_found \<Rightarrow> True)"

lemma visit_invariant:
  assumes closed: "\<And>me. me \<in> T \<Longrightarrow> set (waits_on s me) \<subseteq> T"
    and step: "\<And>me vis. me \<in> T \<Longrightarrow> I vis \<Longrightarrow> me \<notin> set vis \<Longrightarrow> length vis < CHARISMA_MAX_TRNS_NUMBER \<Longrightarrow> I (vis @ [me])"
    and ready: "\<And>me. me \<in> T \<Longrightarrow> \<not> visit_ready s me \<Longrightarrow> B UseAfterFree"
    and over: "\<And>me vis. me \<in> T \<Longrightarrow> I vis \<Longrightarrow> me \<notin> set vis \<Longrightarrow> \<not> length vis < CHARISMA_MAX_TRNS_NUMBER \<Longrightarrow> B BufferOverrun"
    and small: "\<And>vis. I vis \<Longrightarrow> length vis \<le> CHARISMA_MAX_TRNS_NUMBER"
  shows "I vis \<Longrightarrow> me \<in> T \<Longrightarrow> CHARISMA_MAX_TRNS_NUMBER < n + length vis \<Longrightarrow> outcome I B (visit n s me vis)"
proof (induction n arbitrary: me vis)
  case 0
  then show ?case using small[of vis] by simp
next
  case (Suc n)
  have all: "I v \<Longrightarrow> set ts \<subseteq> T \<Longrightarrow> CHARISMA_MAX_TRNS_NUMBER < n + length v \<Longrightarrow> outcome I B (visit_all n s ts (Visited v))" for ts v
  proof (induction ts arbitrary: v)
    case (Cons t ts)
    have t: "outcome I B (visit n s t v)" by (rule Suc.IH) (use Cons.prems in auto)
    show ?case
    proof (rule visit_all_Cons_cases[of n s t v ts])
      fix w assume w: "visit n s t v = Visited (v @ w)" "visit_all n s (t # ts) (Visited v) = visit_all n s ts (Visited (v @ w))"
      have "outcome I B (visit_all n s ts (Visited (v @ w)))"
        by (rule Cons.IH) (use t w(1) Cons.prems in \<open>auto simp: outcome_def\<close>)
      with w(2) show ?thesis by simp
    qed (use t in \<open>simp_all add: outcome_def\<close>)
  qed (simp add: outcome_def)
  show ?case
  proof (rule visit_cases[of s me n vis])
    assume w: "me \<notin> set vis" "length vis < CHARISMA_MAX_TRNS_NUMBER"
      and v: "visit (Suc n) s me vis = visit_all n s (waits_on s me) (Visited (vis @ [me]))"
    have "outcome I B (visit_all n s (waits_on s me) (Visited (vis @ [me])))"
      by (rule all) (use closed[OF Suc.prems(2)] step[OF Suc.prems(2,1) w] Suc.prems(3) in auto)
    with v show ?thesis by simp
  qed (use Suc.prems ready[of me] over[of me vis] in \<open>simp_all add: outcome_def\<close>)
qed

lemma visit_fuel: "visit (Suc CHARISMA_MAX_TRNS_NUMBER) s me [] \<noteq> Visit_error NonTermination"
  using visit_invariant[of UNIV s "\<lambda>v. length v \<le> CHARISMA_MAX_TRNS_NUMBER" "\<lambda>e. e \<noteq> NonTermination" "[]" me "Suc CHARISMA_MAX_TRNS_NUMBER"]
  by (auto simp: outcome_def)

lemma visit_total:
  assumes "finite T" "card T \<le> CHARISMA_MAX_TRNS_NUMBER" "\<And>me. me \<in> T \<Longrightarrow> set (waits_on s me) \<subseteq> T \<and> visit_ready s me" "me \<in> T"
  shows "visit (Suc CHARISMA_MAX_TRNS_NUMBER) s me [] \<noteq> Visit_error e"
proof -
  let ?I = "\<lambda>v. distinct v \<and> set v \<subseteq> T"
  have len: "length v \<le> CHARISMA_MAX_TRNS_NUMBER" if "?I v" for v
    using that assms(1,2) card_mono distinct_card by (metis le_trans)
  have "outcome ?I (\<lambda>_. False) (visit (Suc CHARISMA_MAX_TRNS_NUMBER) s me [])"
  proof (rule visit_invariant[of T])
    fix x v assume x: "x \<in> T" "?I v" "x \<notin> set v"
    then have "length (v @ [x]) \<le> CHARISMA_MAX_TRNS_NUMBER" by (intro len) auto
    then show "\<not> length v < CHARISMA_MAX_TRNS_NUMBER \<Longrightarrow> False" by simp
  qed (use assms len in auto)
  then show ?thesis by (auto simp: outcome_def)
qed

lemma deadlock_found_iff:
  assumes "deadlock s t = Inr b"
  shows "b \<longleftrightarrow> (t, t) \<in> (waits_for s)\<^sup>+"
proof (cases "visit (Suc CHARISMA_MAX_TRNS_NUMBER) s t []")
  case Deadlock_found
  then have b using assms by (auto simp: deadlock_def split: option.splits)
  with visit_sound[OF Deadlock_found] show ?thesis by simp
next
  case (Visited v)
  then have b: "\<not> b" using assms by (auto simp: deadlock_def split: option.splits)
  show ?thesis
  proof (cases "waits_on s t = []")
    case True
    then have "(t, t) \<notin> (waits_for s)\<^sup>+" by (auto dest!: tranclD simp: waits_for_def)
    with b show ?thesis by simp
  next
    case False
    then have "visit_all CHARISMA_MAX_TRNS_NUMBER s (waits_on s t) (Visited [t]) = Visited v"
      by - (rule visit_cases[of s t CHARISMA_MAX_TRNS_NUMBER "[]"], use Visited in auto)
    from visit_all_complete[OF visit_complete this] have c: "completed s [t] v (set (waits_on s t))" by simp
    let ?R = "{x. explored s t v x}"
    have "x \<in> ?R" if "(t, x) \<in> (waits_for s)\<^sup>+" for x
      using that
    proof (induction rule: trancl_induct)
      case (base y)
      then show ?case using c by (simp add: completed_def waits_for_def)
    next
      case (step y z)
      then have "waiting s y" by (intro waits_on_waiting) (auto simp: waits_for_def)
      with step.IH have "y \<in> set v - {t}" by (simp add: explored_def)
      with c step.hyps(2) show ?case by (simp add: completed_def waits_for_def)
    qed
    moreover have "waiting s t" using False by (rule waits_on_waiting)
    ultimately show ?thesis using b by (auto simp: explored_def)
  qed
next
  case (Visit_error e)
  then show ?thesis using assms by (auto simp: deadlock_def split: option.splits)
qed

section \<open>Suspended transactions\<close>

definition wait_of :: "lm_state \<Rightarrow> transaction_id \<Rightarrow> string option" where
  "wait_of s t = Option.bind (find_tr_lock_head s t) tc_wait"

definition request_at :: "lm_state \<Rightarrow> transaction_id \<Rightarrow> string \<Rightarrow> lock_request option" where
  "request_at s t k = Option.bind (find_lock s k) (\<lambda>h. find_request t (lh_queue h))"

definition pending_at :: "lm_state \<Rightarrow> transaction_id \<Rightarrow> string \<Rightarrow> bool" where
  "pending_at s t k \<longleftrightarrow> (\<exists>r. request_at s t k = Some r \<and> rq_status r \<noteq> LOCK_GRANTED)"

text \<open>The field \<^verbatim>\<open>wait\<close> points to the one request of the transaction that is not granted, if there is one.\<close>

definition waits_ok :: "lm_state \<Rightarrow> transaction_id \<Rightarrow> bool" where
  "waits_ok s t \<longleftrightarrow> (\<forall>k. wait_of s t = Some k \<longleftrightarrow> pending_at s t k)"

lemma waits_ok_granted:
  assumes "waits_ok s t" "wait_of s t = None"
  shows "\<not> pending_at s t k"
  using assms by (simp add: waits_ok_def)

lemma new_lock_request_wait: "new_lock_request s tr sid k m cls = Inr (r, s') \<Longrightarrow> wait_of s' t = wait_of s t"
  by (auto simp: new_lock_request_def Let_def sbind_eq_Inr wait_of_def new_TransCB_def split: option.splits)

lemma finish_lock_wait: "finish_lock tr k (h, rep) s = Inr (s', rep') \<Longrightarrow>
    wait_of s' t = (if t = tr \<and> rep \<noteq> LOCK_OK then Some k else wait_of s t)"
  by (auto simp: finish_lock_def Let_def set_wait_def sbind_eq_Inr wait_of_def split: option.splits if_splits)

lemma lock_wait:
  assumes "lock s tr sid rid m cls = Inr (s', rep)"
  shows "wait_of s' t = (if t = tr \<and> rep \<noteq> LOCK_OK then Some (get_str_res_id rid) else wait_of s t)"
proof (cases "find_lock s (get_str_res_id rid)")
  case None
  with assms show ?thesis by (auto simp: lock_def Let_def sbind_eq_Inr dest!: new_lock_request_wait[of _ _ _ _ _ _ _ _ t]) (simp_all add: wait_of_def)
next
  case (Some h)
  show ?thesis
  proof (cases "find_request tr (lh_queue h)")
    case None
    then obtain r s1 where n: "new_lock_request s tr sid (get_str_res_id rid) m cls = Inr (r, s1)"
      and f: "finish_lock tr (get_str_res_id rid) (lock_new h r) s1 = Inr (s', rep)"
      using assms Some by (auto simp: lock_def Let_def sbind_eq_Inr)
    obtain h' rep' where "lock_new h r = (h', rep')" by fastforce
    with f finish_lock_wait[of tr _ h' rep' s1 s' rep t] finish_lock_find_lock[of tr _ h' rep' s1 s' rep] new_lock_request_wait[OF n] show ?thesis by auto
  next
    case r: (Some r)
    obtain h' rep' where "lock_convert h r m = (h', rep')" by fastforce
    with r Some assms finish_lock_wait[of tr _ h' rep' s s' rep t] finish_lock_find_lock[of tr _ h' rep' s s' rep] show ?thesis
      by (auto simp: lock_def Let_def)
  qed
qed

lemma find_request_update:
  "(\<And>x. rq_tran (f x) = rq_tran x) \<Longrightarrow>
     find_request t (update_request me f q) = (if t = me then map_option f (find_request t q) else find_request t q)"
  by (induction q) (auto simp: find_request_def)

text \<open>Where the requests are after a call of \<^verbatim>\<open>lock\<close>.\<close>

lemma lock_request_at:
  assumes "lock s tr sid rid m cls = Inr (s', rep)" "t \<noteq> tr \<or> k \<noteq> get_str_res_id rid"
  shows "request_at s' t k = request_at s t k"
  using assms(1)
proof (cases rule: lock_cases)
  case (1 r)
  then show ?thesis using assms(2) by (auto simp: request_at_def find_request_def)
next
  case (2 h r h')
  then have "find_request t (lh_queue h') = find_request t (lh_queue h)" if "t \<noteq> tr"
    using that by (auto simp: lock_new_def find_request_append split: if_splits option.splits)
  then show ?thesis using assms(2) 2 by (auto simp: request_at_def)
next
  case (3 h r h')
  then have "find_request t (lh_queue h') = find_request t (lh_queue h)" if "t \<noteq> tr"
    using that find_request_in[OF 3(2)] by (auto simp: lock_convert_def Let_def find_request_update split: if_splits)
  then show ?thesis using assms(2) 3 by (auto simp: request_at_def)
qed

lemma lock_request_at_me:
  assumes "lock s tr sid rid m cls = Inr (s', rep)"
  shows "\<exists>r. request_at s' tr (get_str_res_id rid) = Some r \<and> (rq_status r = LOCK_GRANTED \<longleftrightarrow> rep = LOCK_OK)"
  using assms
proof (cases rule: lock_cases)
  case (1 r)
  then show ?thesis by (auto simp: request_at_def find_request_def)
next
  case (2 h r h')
  then show ?thesis by (auto simp: request_at_def lock_new_def find_request_append split: if_splits)
next
  case (3 h r h')
  then show ?thesis using find_request_in[OF 3(2)]
    by (auto simp: request_at_def lock_convert_def Let_def find_request_update split: if_splits)
qed

lemma lock_waits_ok:
  assumes ok: "\<forall>t. waits_ok s t" and free: "wait_of s tr = None" and l: "lock s tr sid rid m cls = Inr (s', rep)"
  shows "waits_ok s' t"
proof -
  let ?k = "get_str_res_id rid"
  obtain r where r: "request_at s' tr ?k = Some r" "rq_status r = LOCK_GRANTED \<longleftrightarrow> rep = LOCK_OK"
    using lock_request_at_me[OF l] by blast
  have "pending_at s' t k \<longleftrightarrow> (if t = tr then k = ?k \<and> rep \<noteq> LOCK_OK else pending_at s t k)" for k
    using r lock_request_at[OF l, of t k] waits_ok_granted[of s tr k] ok free
    by (cases "k = ?k"; cases "t = tr") (simp_all add: pending_at_def)
  then show ?thesis using lock_wait[OF l, of t] free spec[OF ok, of t]
    by (cases "t = tr") (simp_all add: waits_ok_def eq_commute)
qed

text \<open>The same for \<^verbatim>\<open>unlock\<close>, seen from the other transactions.\<close>

lemma delete_lock_request_wait: "delete_lock_request s r = Inr s' \<Longrightarrow> t \<noteq> rq_tran r \<Longrightarrow> wait_of s' t = wait_of s t"
  by (auto simp: delete_lock_request_def sbind_eq_Inr wait_of_def split: option.splits if_splits)

lemma wake_up_wait: "wake_up r s = Inr s' \<Longrightarrow> wait_of s' t = (if t = rq_tran r then None else wait_of s t)"
  by (auto simp: wake_up_def Let_def wait_of_def split: option.splits if_splits)

lemma wake_ups_wait: "wake_ups rs s = Inr s' \<Longrightarrow> wait_of s' t = (if t \<in> rq_tran ` set rs then None else wait_of s t)"
proof (induction rs arbitrary: s)
  case (Cons r rs)
  then obtain s1 where s1: "wake_up r s = Inr s1" "wake_ups rs s1 = Inr s'" by (auto simp: sbind_eq_Inr)
  from Cons.IH[OF s1(2)] wake_up_wait[OF s1(1), of t] show ?case by auto
qed simp

lemma find_request_remove: "t \<noteq> me \<Longrightarrow> find_request t (remove_request me q) = find_request t q"
  by (induction q) (auto simp: find_request_def)

lemma find_request_ex: "find_request t q \<noteq> None \<longleftrightarrow> t \<in> set (map rq_tran q)"
  by (induction q) (auto simp: find_request_def)

lemma unlock_head_requests:
  assumes wf: "head_wf h" and u: "unlock_head h me = Inr (h', wk)" and t: "t \<noteq> me"
  shows "t \<in> rq_tran ` set wk \<Longrightarrow> \<exists>r r'. find_request t (lh_queue h) = Some r \<and> rq_status r \<noteq> LOCK_GRANTED
            \<and> find_request t (lh_queue h') = Some r' \<and> rq_status r' = LOCK_GRANTED"
    and "t \<notin> rq_tran ` set wk \<Longrightarrow> find_request t (lh_queue h') = find_request t (lh_queue h)"
proof -
  let ?q = "remove_request me (lh_queue h)"
  from u obtain gm wt where w: "wake_loop [] ?q NULL_LOCK False False [] = Inr (lh_queue h', gm, wt, wk)"
    by (auto simp: unlock_head_def sbind_eq_Inr)
  have d: "distinct (map rq_tran ?q)" using wf by (simp add: head_wf_def remove_request_distinct)
  have tr: "map rq_tran (lh_queue h') = map rq_tran ?q" using wake_loop_trans[OF w] by simp
  note woken = wake_loop_woken[OF w, simplified]
  note same = find_request_remove[OF t, of "lh_queue h"]
  show "\<exists>r r'. find_request t (lh_queue h) = Some r \<and> rq_status r \<noteq> LOCK_GRANTED
            \<and> find_request t (lh_queue h') = Some r' \<and> rq_status r' = LOCK_GRANTED" if tw: "t \<in> rq_tran ` set wk"
  proof -
    obtain x where x: "x \<in> set wk" "rq_tran x = t" using tw by auto
    with woken obtain y where y: "y \<in> set ?q" "rq_tran y = t" "rq_status y \<noteq> LOCK_GRANTED" "x \<in> set (lh_queue h')" "rq_status x = LOCK_GRANTED" by blast
    have "find_request t (lh_queue h') = Some x" by (rule find_request_unique) (use x y d tr in simp_all)
    moreover have "find_request t ?q = Some y" by (rule find_request_unique) (use y d in simp_all)
    ultimately show ?thesis using y same by auto
  qed
  show "find_request t (lh_queue h') = find_request t (lh_queue h)" if nt: "t \<notin> rq_tran ` set wk"
  proof (cases "find_request t (lh_queue h')")
    case None
    then have "find_request t ?q = None" using find_request_ex[of t ?q] find_request_ex[of t "lh_queue h'"] tr by simp
    with None same show ?thesis by simp
  next
    case (Some r)
    with find_request_in[OF Some] woken nt have "r \<in> set ?q" "rq_tran r = t" by auto
    with find_request_unique[OF d] Some same show ?thesis by simp
  qed
qed

lemma unlock_waits_ok:
  assumes wf: "lm_wf s" and ok: "waits_ok s t" and t: "t \<noteq> tr" and u: "unlock s tr rid = Inr (s', rep)"
  shows "waits_ok s' t"
proof (cases "\<exists>h r. find_lock s (get_str_res_id rid) = Some h \<and> find_request tr (lh_queue h) = Some r")
  case False
  with u unlock_absent[of s rid tr] ok show ?thesis by fastforce
next
  case True
  let ?k = "get_str_res_id rid"
  from True obtain h r where h: "find_lock s ?k = Some h" "find_request tr (lh_queue h) = Some r" by blast
  note r = find_request_in[OF h(2)] and hw = lm_wfD(1,2)[OF wf h(1)]
  show ?thesis
  proof (cases "lh_queue h = [r]")
    case True
    with u h obtain s1 where s1: "delete_lock_request s r = Inr s1" "s' = erase_head (get_str_res_id (lh_r_id h)) s1"
      by (auto simp: unlock_def sbind_eq_Inr)
    have "wait_of s' t = wait_of s t" using delete_lock_request_wait[OF s1(1)] r t s1(2) by (simp add: wait_of_def)
    moreover have "request_at s' t k = request_at s t k" for k
      using s1(2) hw r t True h delete_lock_request_find_lock[OF s1(1)] by (auto simp: request_at_def find_request_def)
    ultimately show ?thesis using ok by (simp add: waits_ok_def pending_at_def)
  next
    case False
    with u h obtain s1 h' wk where s1: "delete_lock_request s r = Inr s1" "unlock_head h tr = Inr (h', wk)" "wake_ups wk (put_head ?k h' s1) = Inr s'"
      by (auto simp: unlock_def Let_def sbind_eq_Inr)
    have w: "wait_of s' t = (if t \<in> rq_tran ` set wk then None else wait_of s t)"
      using wake_ups_wait[OF s1(3), of t] delete_lock_request_wait[OF s1(1)] r t by (simp add: wait_of_def)
    have ra: "request_at s' t k = (if k = ?k then find_request t (lh_queue h') else request_at s t k)" for k
      using wake_ups_find_lock[OF s1(3)] delete_lock_request_find_lock[OF s1(1)] by (simp add: request_at_def)
    have "pending_at s' t k \<longleftrightarrow> pending_at s t k \<and> t \<notin> rq_tran ` set wk" for k
    proof (cases "t \<in> rq_tran ` set wk")
      case True
      then obtain x x' where x: "find_request t (lh_queue h) = Some x" "rq_status x \<noteq> LOCK_GRANTED"
        "find_request t (lh_queue h') = Some x'" "rq_status x' = LOCK_GRANTED"
        using unlock_head_requests(1)[OF hw(1) s1(2) t] by blast
      then have "wait_of s t = Some ?k" using ok h(1) by (simp add: waits_ok_def pending_at_def request_at_def)
      moreover have "wait_of s t = Some k \<longleftrightarrow> pending_at s t k" using ok by (simp add: waits_ok_def)
      ultimately have "pending_at s t k \<longleftrightarrow> k = ?k" by auto
      moreover have "\<not> pending_at s' t k" if "k = ?k" using that x ra[of k] by (simp add: pending_at_def)
      moreover have "pending_at s' t k \<longleftrightarrow> pending_at s t k" if "k \<noteq> ?k" using that ra[of k] by (simp add: pending_at_def)
      ultimately show ?thesis using True by auto
    next
      case False
      with unlock_head_requests(2)[OF hw(1) s1(2) t] ra[of k] h(1) show ?thesis
        by (simp add: pending_at_def request_at_def)
    qed
    with w ok show ?thesis by (auto simp: waits_ok_def)
  qed
qed

definition lm_ok :: "lm_state \<Rightarrow> bool" where
  "lm_ok s \<longleftrightarrow> lm_wf s \<and> (\<forall>t. waits_ok s t)"

lemma lm_okD:
  assumes "lm_ok s"
  shows "lm_wf s" "waits_ok s t" "wait_of s t = Some k \<longleftrightarrow> pending_at s t k"
  using assms by (simp_all add: lm_ok_def waits_ok_def)

lemma lm_ok_init: "lm_ok lm_init"
proof -
  have "waits_ok lm_init t" for t
    by (simp add: waits_ok_def pending_at_def request_at_def wait_of_def lm_init_def find_lock_def find_tr_lock_head_def)
  with lm_wf_init show ?thesis unfolding lm_ok_def by blast
qed

lemma lock_ok:
  assumes ok: "lm_ok s" and free: "wait_of s tr = None"
  obtains s' rep where "lock s tr sid rid m cls = Inr (s', rep)" "lm_ok s'"
proof -
  obtain s' rep where l: "lock s tr sid rid m cls = Inr (s', rep)" "lm_wf s'"
    using ok by (auto simp: lm_ok_def intro: lock_spec[of s tr sid rid m cls])
  moreover have "waits_ok s' t" for t using lock_waits_ok[OF _ free l(1)] ok by (simp add: lm_ok_def)
  ultimately show thesis using that unfolding lm_ok_def by blast
qed

lemma no_entry_waits_ok:
  assumes "lm_wf s" "find_tr_lock_head s t = None"
  shows "waits_ok s t"
  using assms no_entry_no_request[OF assms]
  by (auto simp: waits_ok_def pending_at_def wait_of_def request_at_def bind_eq_Some_conv)

lemma release_ok:
  assumes ok: "lm_ok s"
  obtains s' where "release_tr_locks s tr = Inr (s', LOCK_OK)" "lm_ok s'" "find_tr_lock_head s' tr = None"
proof -
  obtain s' where r: "release_tr_locks s tr = Inr (s', LOCK_OK)" "lm_wf s'" "find_tr_lock_head s' tr = None"
    using release_tr_locks_spec ok unfolding lm_ok_def by blast
  have "lm_wf s' \<and> (\<forall>t. t \<noteq> tr \<longrightarrow> waits_ok s' t)"
  proof (rule release_tr_locks_induct[where P = "\<lambda>s. lm_wf s \<and> (\<forall>t. t \<noteq> tr \<longrightarrow> waits_ok s t)", OF r(1)])
    show "lm_wf s \<and> (\<forall>t. t \<noteq> tr \<longrightarrow> waits_ok s t)" using ok unfolding lm_ok_def by blast
  next
    fix s rid s1 rep assume P: "lm_wf s \<and> (\<forall>t. t \<noteq> tr \<longrightarrow> waits_ok s t)" and u: "unlock s tr rid = Inr (s1, rep)"
    then have "waits_ok s1 t" if "t \<noteq> tr" for t using unlock_waits_ok[OF _ _ that u] that by blast
    moreover have "lm_wf s1" using unlock_wf[OF _ u] P by blast
    ultimately show "lm_wf s1 \<and> (\<forall>t. t \<noteq> tr \<longrightarrow> waits_ok s1 t)" by blast
  qed
  then have "lm_ok s'" using no_entry_waits_ok[OF r(2,3)] unfolding lm_ok_def by metis
  with that r show thesis by blast
qed

text \<open>The transactions a request waits for have requests of their own in the same queue.\<close>

lemma blockers_queue: "set (blockers me r q) \<subseteq> rq_tran ` set q"
proof -
  have "set (ahead_blockers me m q) \<subseteq> rq_tran ` set q" for m by (induction q) auto
  moreover have "set (convert_blockers me cm b q) \<subseteq> rq_tran ` set q" for cm b by (induction q arbitrary: b) auto
  ultimately show ?thesis by (simp add: blockers_def)
qed

lemma waits_on_known:
  assumes "lm_wf s" "t \<in> set (waits_on s me)"
  shows "find_tr_lock_head s t \<noteq> None"
proof -
  from assms(2) obtain k h r where h: "find_lock s k = Some h" "t \<in> set (blockers me r (lh_queue h))"
    by (auto simp: waits_on_def split: option.splits dest!: sym[of "Some _"])
  then obtain x where "x \<in> set (lh_queue h)" "t = rq_tran x" using blockers_queue by fastforce
  with lm_wf_known[OF assms(1) h(1)] show ?thesis by simp
qed

lemma lm_ok_ready:
  assumes "lm_ok s" "find_tr_lock_head s t \<noteq> None"
  shows "visit_ready s t"
proof -
  obtain c where c: "find_tr_lock_head s t = Some c" using assms(2) by auto
  have "\<exists>h r. find_lock s k = Some h \<and> find_request t (lh_queue h) = Some r" if "tc_wait c = Some k" for k
  proof -
    have "pending_at s t k" using lm_okD(3)[OF assms(1), of t k] c that by (simp add: wait_of_def)
    then show ?thesis by (auto simp: pending_at_def request_at_def bind_eq_Some_conv)
  qed
  with c show ?thesis by (simp add: visit_ready_def)
qed

definition transactions :: "lm_state \<Rightarrow> transaction_id set" where
  "transactions s = {t. find_tr_lock_head s t \<noteq> None}"

lemma transactions_tr_table: "transactions s = set (map fst (tr_table s))"
  by (auto simp: transactions_def find_tr_lock_head_def map_of_eq_None_iff)

lemma deadlock_total:
  assumes "lm_ok s" "t \<in> transactions s" "card (transactions s) \<le> CHARISMA_MAX_TRNS_NUMBER"
  shows "\<exists>b. deadlock s t = Inr b"
proof -
  have "finite (transactions s)"
    using finite_dom_map_of[of "tr_table s"] by (simp add: transactions_def find_tr_lock_head_def dom_def)
  then have "visit (Suc CHARISMA_MAX_TRNS_NUMBER) s t [] \<noteq> Visit_error e" for e
    by (rule visit_total) (use assms waits_on_known[OF lm_okD(1)[OF assms(1)]] lm_ok_ready[OF assms(1)] in \<open>auto simp: transactions_def\<close>)
  with assms(2) show ?thesis by (auto simp: deadlock_def transactions_def split: option.splits visit_result.splits)
qed

end
