(* ===== verification/LockServer.thy ===== *)
theory LockServer
  imports Deadlock
begin

text \<open>
  The two ends of the lock protocol: the messages 3, 4 and 5 of \<^verbatim>\<open>sm_server_handler\<close> in
  \<^verbatim>\<open>kernel/sm/sm.cpp\<close>, and the local lock manager of a transaction in \<^verbatim>\<open>kernel/tr/locks/locks.cpp\<close> that
  sends them. The transport between them and the suspension of a blocked transaction are parameters.
\<close>

section \<open>Messages\<close>

record sm_msg =
  msg_cmd :: int
  msg_trid :: transaction_id
  msg_sid :: session_id
  msg_data :: "char list"

text \<open>Reading the character array \<^verbatim>\<open>data\<close>: a position beyond what was written counts as the closing zero.\<close>

definition data_at :: "char list \<Rightarrow> nat \<Rightarrow> char" where
  "data_at d i = (if i < length d then d ! i else CHR 0x00)"

definition c_string :: "char list \<Rightarrow> string" where
  "c_string d = takeWhile (\<lambda>c. c \<noteq> CHR 0x00) d"

section \<open>The server\<close>

definition msg_mode :: "char list \<Rightarrow> lock_mode" where
  "msg_mode d =
     (if data_at d 0 = CHR ''s'' then lm_s
      else if data_at d 0 = CHR ''x'' then lm_x
      else if data_at d 0 = CHR ''r'' then lm_is
      else lm_ix)"

definition msg_kind :: "char list \<Rightarrow> resource_kind" where
  "msg_kind d =
     (if data_at d 1 = CHR ''d'' then LM_DOCUMENT
      else if data_at d 1 = CHR ''c'' then LM_COLLECTION
      else if data_at d 1 = CHR ''i'' then LM_INDEX
      else if data_at d 1 = CHR ''t'' then LM_TRIGGER
      else LM_DATABASE)"

definition msg_resource :: "char list \<Rightarrow> resource_id" where
  "msg_resource d = \<lparr>res_name = c_string (drop 2 d), res_kind = msg_kind d\<rparr>"

definition set_reply :: "sm_msg \<Rightarrow> char \<Rightarrow> sm_msg" where
  "set_reply msg c = msg\<lparr>msg_data := (msg_data msg)[0 := c]\<rparr>"

text \<open>Message 3: obtain a lock; a transaction whose wait closes a cycle becomes the victim.\<close>

definition handle_obtain :: "sm_msg \<Rightarrow> lm_state \<Rightarrow> lm_error + sm_msg \<times> lm_state" where
  "handle_obtain msg s =
     sbind (lock s (msg_trid msg) (msg_sid msg) (msg_resource (msg_data msg)) (msg_mode (msg_data msg)) LOCK_LONG)
       (\<lambda>(s', r).
          if r = LOCK_OK then Inr (set_reply msg (CHR ''1''), s')
          else sbind (if r = LOCK_NOT_LOCKED then deadlock s' (msg_trid msg) else Inr True) (\<lambda>dl.
            if \<not> dl then Inr (set_reply msg (CHR ''0''), s')
            else case find_tr_lock_head s' (msg_trid msg) of
                   None \<Rightarrow> Inl InconsistentTable
                 | Some t \<Rightarrow> Inr (set_reply msg (CHR ''2''),
                     put_tr (msg_trid msg) (t\<lparr>tc_status := ROLLING_BACK_AFTER_DEADLOCK\<rparr>) s')))"

text \<open>Messages 4 and 5: release every lock of the transaction, or one.\<close>

definition handle_release :: "sm_msg \<Rightarrow> lm_state \<Rightarrow> lm_error + sm_msg \<times> lm_state" where
  "handle_release msg s = sbind (release_tr_locks s (msg_trid msg)) (\<lambda>(s', r). Inr (msg, s'))"

definition handle_unlock :: "sm_msg \<Rightarrow> lm_state \<Rightarrow> lm_error + sm_msg \<times> lm_state" where
  "handle_unlock msg s = sbind (unlock s (msg_trid msg) (msg_resource (msg_data msg))) (\<lambda>(s', r). Inr (msg, s'))"

text \<open>The dispatch on the command, for the commands of the lock manager.\<close>

definition sm_lock_handler :: "sm_msg \<Rightarrow> lm_state \<Rightarrow> lm_error + sm_msg \<times> lm_state" where
  "sm_lock_handler msg s =
     (if msg_cmd msg = 3 then handle_obtain msg s
      else if msg_cmd msg = 4 then handle_release msg s
      else handle_unlock msg s)"

section \<open>The local lock manager\<close>

datatype client_error = SE3034 | SE4702 | SE4703 | SE4704 | SE4706

record LocalLockMgr =
  tr_ro_mode :: bool
  llm_mode :: lock_mode

record tr_env =
  env_trid :: transaction_id
  env_sid :: session_id
  env_db_name :: string

definition MAX_RESOURCE_NAME_LENGTH :: nat where
  "MAX_RESOURCE_NAME_LENGTH = 100"

fun getCharFromResource :: "resource_kind \<Rightarrow> char" where
  "getCharFromResource LM_DOCUMENT = CHR ''d''"
| "getCharFromResource LM_COLLECTION = CHR ''c''"
| "getCharFromResource LM_INDEX = CHR ''i''"
| "getCharFromResource LM_TRIGGER = CHR ''t''"
| "getCharFromResource LM_DATABASE = CHR ''b''"

definition obtain_msg :: "LocalLockMgr \<Rightarrow> tr_env \<Rightarrow> string \<Rightarrow> resource_kind \<Rightarrow> bool \<Rightarrow> sm_msg" where
  "obtain_msg g e name kind intention_mode =
     \<lparr>msg_cmd = 3, msg_trid = env_trid e, msg_sid = env_sid e,
      msg_data = (if \<not> intention_mode then (if llm_mode g = lm_s then CHR ''s'' else CHR ''x'')
                  else (if llm_mode g = lm_s then CHR ''r'' else CHR ''w''))
                 # getCharFromResource kind # name @ [CHR 0x00]\<rparr>"

text \<open>
  \<open>send\<close> is the transport to the storage manager and back, \<open>wait_for_sm_to_unblock\<close> whatever happens
  until the semaphore of the session is raised.
\<close>

definition obtain_lock :: "(sm_msg \<Rightarrow> 's \<Rightarrow> (sm_msg \<times> 's) option) \<Rightarrow> ('s \<Rightarrow> 's) \<Rightarrow> LocalLockMgr \<Rightarrow> tr_env
    \<Rightarrow> string \<Rightarrow> resource_kind \<Rightarrow> bool \<Rightarrow> 's \<Rightarrow> (client_error \<times> 's) + 's" where
  "obtain_lock send wait_for_sm_to_unblock g e name kind intention_mode s =
     (if tr_ro_mode g \<and> llm_mode g = lm_x then Inl (SE4706, s)
      else if tr_ro_mode g then Inr s
      else case send (obtain_msg g e name kind intention_mode) s of
             None \<Rightarrow> Inl (SE3034, s)
           | Some (msg, s') \<Rightarrow>
               let c = data_at (msg_data msg) 0
               in if c = CHR ''0'' then Inr (wait_for_sm_to_unblock s')
                  else if c = CHR ''1'' then Inr s'
                  else if c = CHR ''2'' then Inl (SE4703, s')
                  else Inl (SE4704, s'))"

definition put_lock_on :: "resource_kind \<Rightarrow> (sm_msg \<Rightarrow> 's \<Rightarrow> (sm_msg \<times> 's) option) \<Rightarrow> ('s \<Rightarrow> 's) \<Rightarrow> LocalLockMgr \<Rightarrow> tr_env
    \<Rightarrow> string \<Rightarrow> 's \<Rightarrow> (client_error \<times> 's) + 's" where
  "put_lock_on kind send w g e name s =
     (if length name > MAX_RESOURCE_NAME_LENGTH - 1 then Inl (SE4702, s)
      else sbind (obtain_lock send w g e (env_db_name e) LM_DATABASE True s) (\<lambda>s'.
             obtain_lock send w g e name kind False s'))"

definition put_lock_on_document where "put_lock_on_document send w g e name s = put_lock_on LM_DOCUMENT send w g e name s"

definition put_lock_on_collection where "put_lock_on_collection send w g e name s = put_lock_on LM_COLLECTION send w g e name s"

definition put_lock_on_index where "put_lock_on_index send w g e name s = put_lock_on LM_INDEX send w g e name s"

definition put_lock_on_trigger where "put_lock_on_trigger send w g e name s = put_lock_on LM_TRIGGER send w g e name s"

definition put_lock_on_db :: "(sm_msg \<Rightarrow> 's \<Rightarrow> (sm_msg \<times> 's) option) \<Rightarrow> ('s \<Rightarrow> 's) \<Rightarrow> LocalLockMgr \<Rightarrow> tr_env
    \<Rightarrow> 's \<Rightarrow> (client_error \<times> 's) + 's" where
  "put_lock_on_db send w g e s =
     (if length (env_db_name e) > MAX_RESOURCE_NAME_LENGTH - 1 then Inl (SE4702, s)
      else obtain_lock send w g e (env_db_name e) LM_DATABASE False s)"

definition release_msg :: "tr_env \<Rightarrow> session_id \<Rightarrow> char list \<Rightarrow> sm_msg" where
  "release_msg e sid d = \<lparr>msg_cmd = 4, msg_trid = env_trid e, msg_sid = sid, msg_data = d\<rparr>"

text \<open>\<open>sid\<close>, \<open>d\<close> and \<open>c\<close> are the fields of the message that the source leaves uninitialised.\<close>

definition release :: "(sm_msg \<Rightarrow> 's \<Rightarrow> (sm_msg \<times> 's) option) \<Rightarrow> session_id \<Rightarrow> char list \<Rightarrow> LocalLockMgr \<Rightarrow> tr_env
    \<Rightarrow> 's \<Rightarrow> (client_error \<times> 's) + 's" where
  "release send sid d g e s =
     (if tr_ro_mode g then Inr s
      else case send (release_msg e sid d) s of None \<Rightarrow> Inl (SE3034, s) | Some (msg, s') \<Rightarrow> Inr s')"

definition release_resource :: "(sm_msg \<Rightarrow> 's \<Rightarrow> (sm_msg \<times> 's) option) \<Rightarrow> session_id \<Rightarrow> char \<Rightarrow> LocalLockMgr \<Rightarrow> tr_env
    \<Rightarrow> string \<Rightarrow> resource_kind \<Rightarrow> 's \<Rightarrow> (client_error \<times> 's) + 's" where
  "release_resource send sid c g e name kind s =
     (if tr_ro_mode g then Inr s
      else case send \<lparr>msg_cmd = 5, msg_trid = env_trid e, msg_sid = sid,
                      msg_data = c # getCharFromResource kind # name @ [CHR 0x00]\<rparr> s of
             None \<Rightarrow> Inl (SE3034, s)
           | Some (msg, s') \<Rightarrow> Inr s')"

section \<open>What a message changes\<close>

text \<open>The storage manager as the transport sees it; a failure inside it reaches the sender as a failed send.\<close>

definition sm_send :: "sm_msg \<Rightarrow> lm_state \<Rightarrow> (sm_msg \<times> lm_state) option" where
  "sm_send msg s = (case sm_lock_handler msg s of Inl _ \<Rightarrow> None | Inr x \<Rightarrow> Some x)"

text \<open>
  The states the lock manager goes through when every transaction follows the protocol: it asks for
  nothing while it is suspended, and it gives its locks back all at once.
\<close>

inductive sm_step :: "lm_state \<Rightarrow> lm_state \<Rightarrow> bool" where
  obtain_step: "msg_cmd msg = 3 \<Longrightarrow> wait_of s (msg_trid msg) = None \<Longrightarrow> sm_lock_handler msg s = Inr (msg', s') \<Longrightarrow> sm_step s s'"
| release_step: "msg_cmd msg = 4 \<Longrightarrow> sm_lock_handler msg s = Inr (msg', s') \<Longrightarrow> sm_step s s'"

inductive_cases sm_stepE: "sm_step s s'"

inductive sm_reachable :: "lm_state \<Rightarrow> bool" where
  initial: "sm_reachable lm_init"
| step: "sm_reachable s \<Longrightarrow> sm_step s s' \<Longrightarrow> sm_reachable s'"

lemma data_at_reply: "msg_data msg \<noteq> [] \<Longrightarrow> data_at (msg_data (set_reply msg c)) 0 = c"
  by (simp add: data_at_def set_reply_def)

lemma same_locks_wf:
  assumes "same_locks s s'" "lm_wf s"
  shows "lm_wf s'"
proof -
  have "find_lock s' = find_lock s" using assms(1) by (simp add: same_locks_def)
  then have "heads_wf s' = heads_wf s" "held s' = held s" by (auto simp: heads_wf_def held_def fun_eq_iff)
  then show ?thesis using assms same_locks_chained[OF assms(1)] same_locks_chains_wf[OF assms(1)] by (simp add: lm_wf_def)
qed

lemma set_status_same:
  assumes "find_tr_lock_head s t = Some c"
  shows "same_locks s (put_tr t (c\<lparr>tc_status := st\<rparr>) s)" "wait_of (put_tr t (c\<lparr>tc_status := st\<rparr>) s) = wait_of s"
    "request_at (put_tr t (c\<lparr>tc_status := st\<rparr>) s) = request_at s" "waits_on (put_tr t (c\<lparr>tc_status := st\<rparr>) s) = waits_on s"
  using assms by (auto simp: same_locks_def wait_of_def request_at_def waits_on_def fun_eq_iff cong: option.case_cong)

lemma set_status_ok:
  assumes "lm_ok s" "find_tr_lock_head s t = Some c"
  shows "lm_ok (put_tr t (c\<lparr>tc_status := st\<rparr>) s)"
proof -
  let ?s = "put_tr t (c\<lparr>tc_status := st\<rparr>) s"
  have "waits_ok ?s t'" for t'
    using lm_okD(2)[OF assms(1), of t'] set_status_same[OF assms(2)] by (simp add: waits_ok_def pending_at_def)
  with same_locks_wf[OF set_status_same(1)[OF assms(2)] lm_okD(1)[OF assms(1)]] show ?thesis unfolding lm_ok_def by blast
qed

lemma finite_transactions: "finite (transactions s)"
  using finite_dom_map_of[of "tr_table s"] by (simp add: transactions_def find_tr_lock_head_def dom_def)

lemma lock_reply_cases: "lock s tr sid rid m cls = Inr (s', rep) \<Longrightarrow> rep = LOCK_OK \<or> rep = LOCK_NOT_LOCKED"
  by (erule lock_cases) (auto simp: lock_new_def lock_convert_def Let_def split: if_splits)

text \<open>\<^verbatim>\<open>lock\<close> adds at most the transaction it is called for to the table.\<close>

lemma lock_transactions:
  assumes "lock s tr sid rid m cls = Inr (s', rep)"
  shows "transactions s' \<subseteq> insert tr (transactions s)"
proof -
  have n: "transactions s1 \<subseteq> insert tr (transactions s)" if "new_lock_request s tr sid k m cls = Inr (r, s1)" for k r s1
    using that by (auto simp: new_lock_request_def Let_def sbind_eq_Inr transactions_def split: option.splits if_splits)
  have f: "transactions s2 \<subseteq> insert tr (transactions s1)" if "finish_lock tr k hr s1 = Inr (s2, rep)" for k hr s1 s2
    using that by (auto simp: finish_lock_def set_wait_def Let_def sbind_eq_Inr transactions_def split: option.splits if_splits)
  have p: "transactions (put_head k h s) = transactions s" for k h s by (simp add: transactions_def)
  show ?thesis
  proof (cases "find_lock s (get_str_res_id rid)")
    case None
    with assms show ?thesis by (auto simp: lock_def Let_def sbind_eq_Inr p dest!: n)
  next
    case (Some h)
    with assms show ?thesis by (cases "find_request tr (lh_queue h)") (auto simp: lock_def Let_def sbind_eq_Inr dest!: n f)
  qed
qed

text \<open>
  The three outcomes of message 3. The mode of a granted request covers the mode asked for; a
  transaction is suspended only if its wait closes no cycle, and is told to roll back only if it does.
\<close>

definition obtain_outcome :: "transaction_id \<Rightarrow> resource_id \<Rightarrow> lock_mode \<Rightarrow> lm_state \<Rightarrow> char \<Rightarrow> bool" where
  "obtain_outcome tr rid m s c \<longleftrightarrow>
     (if c = CHR ''1'' then wait_of s tr = None
        \<and> (\<exists>r. request_at s tr (get_str_res_id rid) = Some r \<and> rq_status r = LOCK_GRANTED \<and> lock_max m (rq_mode r) = rq_mode r)
      else (c = CHR ''0'' \<or> c = CHR ''2'') \<and> wait_of s tr = Some (get_str_res_id rid)
        \<and> (c = CHR ''2'' \<longleftrightarrow> (tr, tr) \<in> (waits_for s)\<^sup>+))"

lemma lock_request_mode:
  assumes "lock s tr sid rid m cls = Inr (s', LOCK_OK)"
  shows "\<exists>r. request_at s' tr (get_str_res_id rid) = Some r \<and> rq_status r = LOCK_GRANTED \<and> lock_max m (rq_mode r) = rq_mode r"
proof -
  have cov: "lock_max m (lock_max x m) = lock_max x m" for x using lm.sup_assoc lm.sup_comm lm.sup_idem by metis
  from assms show ?thesis
  proof (cases rule: lock_cases)
    case (1 r)
    then show ?thesis by (auto simp: request_at_def find_request_def lm.sup_idem)
  next
    case (2 h r h')
    then show ?thesis by (auto simp: request_at_def lock_new_def find_request_append lm.sup_idem split: if_splits)
  next
    case (3 h r h')
    then show ?thesis using find_request_in[OF 3(2)]
      by (auto simp: request_at_def lock_convert_def Let_def find_request_update cov split: if_splits)
  qed
qed

lemma handle_obtain_spec:
  assumes ok: "lm_ok s" and free: "wait_of s (msg_trid msg) = None"
    and few: "card (insert (msg_trid msg) (transactions s)) \<le> CHARISMA_MAX_TRNS_NUMBER"
  obtains s' c where "handle_obtain msg s = Inr (set_reply msg c, s')" "lm_ok s'"
    "obtain_outcome (msg_trid msg) (msg_resource (msg_data msg)) (msg_mode (msg_data msg)) s' c"
proof -
  let ?tr = "msg_trid msg" and ?rid = "msg_resource (msg_data msg)" and ?m = "msg_mode (msg_data msg)"
  obtain s1 rep where l: "lock s ?tr (msg_sid msg) ?rid ?m LOCK_LONG = Inr (s1, rep)" and ok1: "lm_ok s1"
    by (rule lock_ok[OF ok free])
  note w = lock_wait[OF l, of ?tr]
  show thesis
  proof (cases "rep = LOCK_OK")
    case True
    with l w free lock_request_mode[of s ?tr "msg_sid msg" ?rid ?m LOCK_LONG s1] ok1 show thesis
      by (intro that[of "CHR ''1''" s1]) (simp_all add: handle_obtain_def obtain_outcome_def)
  next
    case False
    then have w: "wait_of s1 ?tr = Some (get_str_res_id ?rid)" and rep: "rep = LOCK_NOT_LOCKED"
      using w lock_reply_cases[OF l] by auto
    then obtain c where c: "find_tr_lock_head s1 ?tr = Some c" by (auto simp: wait_of_def bind_eq_Some_conv)
    have "card (transactions s1) \<le> CHARISMA_MAX_TRNS_NUMBER"
      using few card_mono[OF _ lock_transactions[OF l]] by (simp add: finite_transactions)
    then obtain b where b: "deadlock s1 ?tr = Inr b" using deadlock_total[OF ok1] c by (auto simp: transactions_def)
    note b' = deadlock_found_iff[OF b]
    show thesis
    proof (cases b)
      case False
      with w b' ok1 l rep b show thesis
        by (intro that[of "CHR ''0''" s1]) (simp_all add: handle_obtain_def obtain_outcome_def)
    next
      case True
      let ?s = "put_tr ?tr (c\<lparr>tc_status := ROLLING_BACK_AFTER_DEADLOCK\<rparr>) s1"
      have "waits_for ?s = waits_for s1" using set_status_same(4)[OF c] by (simp add: waits_for_def)
      with True w b' set_status_ok[OF ok1 c] set_status_same(2)[OF c] l rep b c show thesis
        by (intro that[of "CHR ''2''" ?s]) (simp_all add: handle_obtain_def obtain_outcome_def)
    qed
  qed
qed

text \<open>Without the bound on the number of transactions: what holds whenever the handler succeeds.\<close>

lemma handle_obtain_cases:
  assumes "handle_obtain msg s = Inr (msg', s')"
  obtains s1 rep where "lock s (msg_trid msg) (msg_sid msg) (msg_resource (msg_data msg)) (msg_mode (msg_data msg)) LOCK_LONG = Inr (s1, rep)"
    "s' = s1 \<or> (\<exists>t. find_tr_lock_head s1 (msg_trid msg) = Some t
                    \<and> s' = put_tr (msg_trid msg) (t\<lparr>tc_status := ROLLING_BACK_AFTER_DEADLOCK\<rparr>) s1)"
  using assms by (auto simp: handle_obtain_def sbind_eq_Inr split: if_splits option.splits)

lemma handle_obtain_ok:
  assumes ok: "lm_ok s" and free: "wait_of s (msg_trid msg) = None" and h: "handle_obtain msg s = Inr (msg', s')"
  shows "lm_ok s'"
proof -
  obtain s1 rep where l: "lock s (msg_trid msg) (msg_sid msg) (msg_resource (msg_data msg)) (msg_mode (msg_data msg)) LOCK_LONG = Inr (s1, rep)"
    and s': "s' = s1 \<or> (\<exists>t. find_tr_lock_head s1 (msg_trid msg) = Some t
                    \<and> s' = put_tr (msg_trid msg) (t\<lparr>tc_status := ROLLING_BACK_AFTER_DEADLOCK\<rparr>) s1)"
    by (rule handle_obtain_cases[OF h])
  have "lm_ok s1"
    by (rule lock_ok[OF ok free, of "msg_sid msg" "msg_resource (msg_data msg)" "msg_mode (msg_data msg)" LOCK_LONG]) (use l in simp)
  with s' set_status_ok show ?thesis by blast
qed

lemma sm_step_ok:
  assumes "lm_ok s" "sm_step s s'"
  shows "lm_ok s'"
  using assms(2)
proof cases
  case (obtain_step msg msg')
  then show ?thesis using handle_obtain_ok[OF assms(1)] by (simp add: sm_lock_handler_def)
next
  case (release_step msg msg')
  obtain s1 where "release_tr_locks s (msg_trid msg) = Inr (s1, LOCK_OK)" "lm_ok s1" by (rule release_ok[OF assms(1)])
  with release_step show ?thesis by (simp add: sm_lock_handler_def handle_release_def)
qed

lemma sm_reachable_ok: "sm_reachable s \<Longrightarrow> lm_ok s"
  by (induction rule: sm_reachable.induct) (auto intro: lm_ok_init sm_step_ok)

section \<open>Conversions that exclude each other are a deadlock\<close>

lemma convert_blockers_hold:
  assumes "\<not> lock_compat (rq_mode b) cm" "rq_tran b \<noteq> me" "rq_status b \<noteq> LOCK_WAITING" "\<forall>x\<in>set xs. rq_status x \<noteq> LOCK_WAITING"
  shows "rq_tran b \<in> set (convert_blockers me cm ah (xs @ b # zs))"
  using assms by (induction xs arbitrary: ah) auto

lemma convert_blockers_ahead:
  assumes "\<not> lock_compat (rq_convert_mode a) cm" "rq_tran a \<noteq> me" "rq_status a = LOCK_CONVERTING"
    "\<forall>x\<in>set xs. rq_status x \<noteq> LOCK_WAITING \<and> rq_tran x \<noteq> me"
  shows "rq_tran a \<in> set (convert_blockers me cm True (xs @ a # zs))"
  using assms by (induction xs) auto

lemma sorted_wrt_by_split: "(\<And>xs a ys b zs. q = xs @ a # ys @ b # zs \<Longrightarrow> P a b) \<Longrightarrow> sorted_wrt P q"
proof (induction q)
  case (Cons x q)
  have "P x b" if "b \<in> set q" for b using split_list[OF that] Cons.prems[of "[]" x _ b] by auto
  moreover have "sorted_wrt P q" using Cons.prems[of "x # _"] by (intro Cons.IH) auto
  ultimately show ?case by simp
qed simp

lemma waits_on_convert:
  assumes ok: "lm_ok s" and h: "find_lock s k = Some h" and r: "r \<in> set (lh_queue h)" "rq_status r = LOCK_CONVERTING"
  shows "waits_on s (rq_tran r) = convert_blockers (rq_tran r) (rq_convert_mode r) True (lh_queue h)"
proof -
  have f: "find_request (rq_tran r) (lh_queue h) = Some r"
    using lm_wfD(1)[OF lm_okD(1)[OF ok] h] r by (intro find_request_unique) (auto simp: head_wf_def)
  then have "pending_at s (rq_tran r) k" using h r by (simp add: pending_at_def request_at_def)
  then have "wait_of s (rq_tran r) = Some k" using lm_okD(3)[OF ok] by simp
  then show ?thesis using f h r by (auto simp: waits_on_def wait_of_def bind_eq_Some_conv blockers_def)
qed

text \<open>The waits-for graph without one transaction, and conversions that leave that transaction aside.\<close>

definition waits_for_but :: "lm_state \<Rightarrow> transaction_id \<Rightarrow> (transaction_id \<times> transaction_id) set" where
  "waits_for_but s tr = {(a, b) \<in> waits_for s. a \<noteq> tr \<and> b \<noteq> tr}"

definition conv_apart_but :: "transaction_id \<Rightarrow> lock_request \<Rightarrow> lock_request \<Rightarrow> bool" where
  "conv_apart_but tr a b \<longleftrightarrow> (rq_tran a \<noteq> tr \<longrightarrow> rq_tran b \<noteq> tr \<longrightarrow> conv_apart a b)"

lemma acyclic_apart:
  assumes ok: "lm_ok s" and safe: "lm_safe s" and ac: "acyclic (waits_for_but s tr)" and h: "find_lock s k = Some h"
  shows "sorted_wrt (conv_apart_but tr) (lh_queue h)"
proof (rule sorted_wrt_by_split)
  fix xs a ys b zs assume q: "lh_queue h = xs @ a # ys @ b # zs"
  have inv: "queue_inv (lh_queue h)" using safe h by (simp add: lm_safe_def head_inv_def)
  show "conv_apart_but tr a b"
  proof (rule ccontr)
    assume "\<not> conv_apart_but tr a b"
    then have nme: "rq_tran a \<noteq> tr" "rq_tran b \<noteq> tr"
      and st: "rq_status a = LOCK_CONVERTING" "rq_status b = LOCK_CONVERTING" "\<not> lock_compat (rq_convert_mode a) (rq_mode b)"
      by (auto simp: conv_apart_but_def conv_apart_def)
    have nw: "\<forall>x\<in>set (xs @ a # ys). rq_status x \<noteq> LOCK_WAITING"
      using inv st(2) by (auto simp: queue_inv_def wait_suffix_def q sorted_wrt_append served_before_def)
    have "rq_tran b \<notin> rq_tran ` set (xs @ a # ys)" using inv by (auto simp: queue_inv_def q)
    then have nt: "\<forall>x\<in>set (xs @ a # ys). rq_tran x \<noteq> rq_tran b" by (metis image_eqI)
    have "lock_max (rq_mode b) (rq_convert_mode b) = rq_convert_mode b" using inv st(2) by (auto simp: queue_inv_def q conv_above_def)
    then have c: "\<not> lock_compat (rq_convert_mode a) (rq_convert_mode b)" using st(3) lm.compat_sup by metis
    have "rq_tran b \<in> set (convert_blockers (rq_tran a) (rq_convert_mode a) True ((xs @ a # ys) @ b # zs))"
      by (rule convert_blockers_hold) (use st nw nt lm.compat_sym in auto)
    then have "(rq_tran a, rq_tran b) \<in> waits_for_but s tr"
      using nme waits_on_convert[OF ok h, of a] st q by (simp add: waits_for_but_def waits_for_def)
    moreover have "rq_tran a \<in> set (convert_blockers (rq_tran b) (rq_convert_mode b) True (xs @ a # ys @ b # zs))"
      by (rule convert_blockers_ahead) (use st c nw nt in auto)
    then have "(rq_tran b, rq_tran a) \<in> waits_for_but s tr"
      using nme waits_on_convert[OF ok h, of b] st q by (simp add: waits_for_but_def waits_for_def)
    ultimately show False using ac by (meson acyclic_def trancl.simps)
  qed
qed

lemma acyclic_clear:
  assumes ok: "lm_ok s" and safe: "lm_safe s" and ac: "acyclic (waits_for_but s tr)"
  shows "lm_clear s tr"
  unfolding lm_clear_def conv_clear_def
proof (intro allI impI)
  fix k h assume h: "find_lock s k = Some h"
  have "sorted_wrt (conv_apart_but tr) (remove_request tr (lh_queue h))"
    by (rule remove_request_cases[of tr "lh_queue h"]) (use acyclic_apart[OF assms h] in \<open>auto simp: sorted_wrt_append\<close>)
  moreover have "\<forall>x\<in>set (remove_request tr (lh_queue h)). rq_tran x \<noteq> tr"
    using lm_wfD(1)[OF lm_okD(1)[OF ok] h] by (auto simp: head_wf_def remove_request_set)
  ultimately show "sorted_wrt conv_apart (remove_request tr (lh_queue h))"
    by (auto simp: conv_apart_but_def intro: sorted_wrt_mono_rel[rotated])
qed

text \<open>
  Steps in which a transaction gives its locks back only while the others are not deadlocked among
  themselves. Obtaining locks is not restricted.
\<close>

inductive calm_step :: "lm_state \<Rightarrow> lm_state \<Rightarrow> bool" where
  calm_obtain: "msg_cmd msg = 3 \<Longrightarrow> wait_of s (msg_trid msg) = None \<Longrightarrow> sm_lock_handler msg s = Inr (msg', s') \<Longrightarrow> calm_step s s'"
| calm_release: "msg_cmd msg = 4 \<Longrightarrow> acyclic (waits_for_but s (msg_trid msg)) \<Longrightarrow> sm_lock_handler msg s = Inr (msg', s') \<Longrightarrow> calm_step s s'"

inductive calm_reachable :: "lm_state \<Rightarrow> bool" where
  calm_init: "calm_reachable lm_init"
| calm_next: "calm_reachable s \<Longrightarrow> calm_step s s' \<Longrightarrow> calm_reachable s'"

lemma calm_step_safe:
  assumes ok: "lm_ok s" and safe: "lm_safe s" and st: "calm_step s s'"
  shows "lm_safe s'"
  using st
proof cases
  case (calm_obtain msg msg')
  then obtain s1 rep where l: "lock s (msg_trid msg) (msg_sid msg) (msg_resource (msg_data msg)) (msg_mode (msg_data msg)) LOCK_LONG = Inr (s1, rep)"
    and s': "find_lock s' = find_lock s1"
    by (auto simp: sm_lock_handler_def fun_eq_iff elim!: handle_obtain_cases)
  have "not_queued s (msg_trid msg) (get_str_res_id (msg_resource (msg_data msg)))"
    using waits_ok_granted[OF lm_okD(2)[OF ok] calm_obtain(2), of "get_str_res_id (msg_resource (msg_data msg))"]
    by (auto simp: not_queued_def pending_at_def request_at_def)
  from lock_safe[OF safe this l] s' show ?thesis by (simp add: lm_safe_def)
next
  case (calm_release msg msg')
  then show ?thesis using release_safe[OF safe acyclic_clear[OF ok safe calm_release(2)]]
    by (auto simp: sm_lock_handler_def handle_release_def sbind_eq_Inr)
qed

lemma calm_step_sm: "calm_step s s' \<Longrightarrow> sm_step s s'"
  by (auto elim!: calm_step.cases intro: sm_step.intros)

lemma calm_reachable_safe: "calm_reachable s \<Longrightarrow> lm_ok s \<and> lm_safe s"
proof (induction rule: calm_reachable.induct)
  case calm_init
  then show ?case using lm_ok_init by (simp add: lm_safe_def lm_init_def find_lock_def)
next
  case (calm_next s s')
  then show ?case using calm_step_safe sm_step_ok calm_step_sm by blast
qed

lemma calm_reachable_sm: "calm_reachable s \<Longrightarrow> sm_reachable s"
  by (induction rule: calm_reachable.induct) (auto intro: sm_reachable.intros calm_step_sm)

section \<open>Both ends together\<close>

lemma data_at_Cons [simp]: "data_at (c # d # ds) 0 = c" "data_at (c # d # ds) (Suc 0) = d"
  by (simp_all add: data_at_def)

lemma c_string_terminated: "CHR 0x00 \<notin> set name \<Longrightarrow> c_string (name @ [CHR 0x00]) = name"
  unfolding c_string_def by (induction name) auto

lemma obtain_msg_decode:
  assumes "CHR 0x00 \<notin> set name"
  shows "msg_resource (msg_data (obtain_msg g e name kind i)) = \<lparr>res_name = name, res_kind = kind\<rparr>"
    "msg_mode (msg_data (obtain_msg g e name kind i)) =
       (if i then (if llm_mode g = lm_s then lm_is else lm_ix) else (if llm_mode g = lm_s then lm_s else lm_x))"
proof -
  have "msg_kind (c # getCharFromResource kind # ds) = kind" for c ds by (cases kind) (simp_all add: msg_kind_def)
  then show "msg_resource (msg_data (obtain_msg g e name kind i)) = \<lparr>res_name = name, res_kind = kind\<rparr>"
    by (simp add: msg_resource_def obtain_msg_def c_string_terminated[OF assms])
qed (simp add: msg_mode_def obtain_msg_def)

lemma obtain_lock_sm_spec:
  assumes ok: "lm_ok s" and free: "wait_of s (env_trid e) = None" and name: "CHR 0x00 \<notin> set name" and rw: "\<not> tr_ro_mode g"
    and few: "card (insert (env_trid e) (transactions s)) \<le> CHARISMA_MAX_TRNS_NUMBER"
  obtains s' c where "lm_ok s'"
    "obtain_outcome (env_trid e) \<lparr>res_name = name, res_kind = kind\<rparr>
       (if i then (if llm_mode g = lm_s then lm_is else lm_ix) else (if llm_mode g = lm_s then lm_s else lm_x)) s' c"
    "obtain_lock sm_send w g e name kind i s =
       (if c = CHR ''1'' then Inr s' else if c = CHR ''0'' then Inr (w s') else Inl (SE4703, s'))"
proof -
  let ?msg = "obtain_msg g e name kind i"
  have msg: "msg_trid ?msg = env_trid e" "msg_cmd ?msg = 3" "msg_data ?msg \<noteq> []" by (simp_all add: obtain_msg_def)
  obtain s' c where h: "handle_obtain ?msg s = Inr (set_reply ?msg c, s')" "lm_ok s'"
    "obtain_outcome (msg_trid ?msg) (msg_resource (msg_data ?msg)) (msg_mode (msg_data ?msg)) s' c"
    by (rule handle_obtain_spec[of s ?msg]) (use ok free few msg in simp_all)
  have c: "c = CHR ''1'' \<or> c = CHR ''0'' \<or> c = CHR ''2''" using h(3) by (auto simp: obtain_outcome_def split: if_splits)
  have "sm_send ?msg s = Some (set_reply ?msg c, s')" using h(1) msg by (simp add: sm_send_def sm_lock_handler_def)
  then have "obtain_lock sm_send w g e name kind i s =
       (if c = CHR ''1'' then Inr s' else if c = CHR ''0'' then Inr (w s') else Inl (SE4703, s'))"
    using c rw data_at_reply[OF msg(3), of c] by (auto simp: obtain_lock_def)
  then show thesis using that h(2,3) obtain_msg_decode[OF name] msg(1) by simp
qed

section \<open>Runs\<close>

text \<open>A sequence of messages, handled one after the other.\<close>

fun sm_run :: "sm_msg list \<Rightarrow> lm_state \<Rightarrow> lm_error + lm_state" where
  "sm_run [] s = Inr s"
| "sm_run (m # ms) s = sbind (sm_lock_handler m s) (\<lambda>(m', s'). sm_run ms s')"

text \<open>Runs in which every message asks for a lock, each sender not being suspended.\<close>

fun polite :: "sm_msg list \<Rightarrow> lm_state \<Rightarrow> bool" where
  "polite [] s = True"
| "polite (m # ms) s =
     (msg_cmd m = 3 \<and> wait_of s (msg_trid m) = None
      \<and> (case sm_lock_handler m s of Inl _ \<Rightarrow> True | Inr (m', s') \<Rightarrow> polite ms s'))"

lemma polite_run:
  "calm_reachable s \<Longrightarrow> polite ms s \<Longrightarrow> sm_run ms s = Inr s' \<Longrightarrow> calm_reachable s'"
proof (induction ms arbitrary: s)
  case (Cons m ms)
  then obtain m' s1 where s1: "sm_lock_handler m s = Inr (m', s1)" "sm_run ms s1 = Inr s'" by (auto simp: sbind_eq_Inr)
  with Cons.prems have "calm_step s s1" by (auto intro: calm_step.calm_obtain)
  with Cons.prems s1 show ?case by (auto intro: Cons.IH calm_reachable.calm_next)
qed simp

lemma polite_reachable: "polite ms lm_init \<Longrightarrow> sm_run ms lm_init = Inr s \<Longrightarrow> sm_reachable s"
  using calm_reachable_sm polite_run[OF calm_init] by blast

text \<open>The two messages of concrete runs.\<close>

definition ask :: "transaction_id \<Rightarrow> string \<Rightarrow> sm_msg" where
  "ask t d = \<lparr>msg_cmd = 3, msg_trid = t, msg_sid = t, msg_data = d\<rparr>"

definition give_back :: "transaction_id \<Rightarrow> sm_msg" where
  "give_back t = \<lparr>msg_cmd = 4, msg_trid = t, msg_sid = t, msg_data = []\<rparr>"

end
