(* ===== verification/WuTypes.thy ===== *)
theory WuTypes
  imports Prelude
begin

text \<open>
  Types shared by the modules of the version manager (\<^verbatim>\<open>kernel/sm/wu\<close>): timestamps and block addresses
  of \<^verbatim>\<open>kernel/common/wutypes.h\<close> as 64-bit words, and the error codes the modelled functions set.
\<close>

type_synonym XPTR = "64 word"

type_synonym LXPTR = "64 word"

type_synonym TIMESTAMP = "64 word"

definition TIMESTAMP_MIN :: TIMESTAMP where
  "TIMESTAMP_MIN = 0x0000000000010000"

definition TIMESTAMP_MAX :: TIMESTAMP where
  "TIMESTAMP_MAX = 0xFFFFFFFFFFFF0000"

definition INVALID_TIMESTAMP :: TIMESTAMP where
  "INVALID_TIMESTAMP = 0xFFFFFFFFFFFFFFFF"

definition IsValidTimestamp :: "TIMESTAMP \<Rightarrow> bool" where
  "IsValidTimestamp ts \<longleftrightarrow> TIMESTAMP_MIN \<le> ts \<and> ts \<le> TIMESTAMP_MAX"

text \<open>The two special timestamps of \<^verbatim>\<open>wusnapshots.h\<close>.\<close>

definition SN_LAST_COMMITED_VERSION_TIMESTAMP :: TIMESTAMP where
  "SN_LAST_COMMITED_VERSION_TIMESTAMP = 1 + TIMESTAMP_MAX"

definition SN_WORKING_VERSION_TIMESTAMP :: TIMESTAMP where
  "SN_WORKING_VERSION_TIMESTAMP = 2 + TIMESTAMP_MAX"

datatype wu_error =
    WUERR_BAD_PARAMS
  | WUERR_BAD_TIMESTAMP
  | WUERR_MAX_TIMESTAMP_VALUE_EXCEEDED
  | WUERR_NO_MEMORY
  | WUERR_GENERAL_ERROR
  | WUERR_FUNCTION_INVALID_IN_THIS_STATE
  | WUERR_NO_SNAPSHOT_WITH_THIS_TIMESTAMP
  | WUERR_NO_SNAPSHOT_WITH_THIS_TYPE
  | WUERR_UNABLE_TO_DISCARD_SPECIAL_SNAPSHOT
  | WUERR_UNABLE_TO_DISCARD_SNAPSHOT_IN_USE
  | WUERR_MAX_NUMBER_OF_SNAPSHOTS_EXCEEDED
  | WUERR_MAX_NUMBER_OF_CLIENTS_EXCEEDED
  | WUERR_VERSIONS_DISABLED
  | WUERR_NO_SNAPSHOTS_EXIST
  | WUERR_UNABLE_TO_USE_DAMAGED_SNAPSHOT
  | WUERR_UNABLE_TO_DAMAGE_SNAPSHOT_IN_USE
  | WUERR_SNAPSHOT_ALREADY_PERSISTENT
  | WUERR_SHUTDOWN_ERROR
  | WUERR_BAD_CLIENT_ID
  | WUERR_CLIENT_ID_ALREADY_IN_USE
  | WUERR_CLIENT_ALREADY_MARKED_READY
  | WUERR_CLIENT_ALREADY_MARKED_LEAVING
  | WUERR_UNABLE_TO_UNREGISTER_CURRENT_CLIENT
  | WUERR_UNABLE_TO_UNREGISTER_READY_CLIENT
  | WUERR_CLIENT_SET_DEADLOCK_DETECTED
  | WUERR_CLIENT_SET_MAX_NUMBER_OF_LOCKS_EXCEEDED
  | WUERR_CLIENT_SET_ALREADY_UNLOCKED
  | WUERR_STATE_TABLE_BAD_ROW_ID
  | WUERR_STATE_TABLE_FULL
  | WUERR_STATE_TABLE_MAX_ROW_SIZE_EXCEEDED
  | WUERR_STATE_TABLE_MAX_NUMBER_OF_COLUMNS_EXCEEDED
  | WUERR_BAD_TICKET
  | WUERR_DEBUG_FUNCTION_UNAVAILABLE
  | WUERR_CALLBACK           \<comment> \<open>the error is whatever the callback left behind\<close>
  | WU_ASSERTION             \<comment> \<open>an \<^verbatim>\<open>assert\<close> of the source does not hold, or a null pointer is followed\<close>

lemma special_timestamps:
  "\<not> IsValidTimestamp INVALID_TIMESTAMP" "\<not> IsValidTimestamp SN_LAST_COMMITED_VERSION_TIMESTAMP"
  "\<not> IsValidTimestamp SN_WORKING_VERSION_TIMESTAMP" "\<not> IsValidTimestamp 0"
  "SN_LAST_COMMITED_VERSION_TIMESTAMP \<noteq> SN_WORKING_VERSION_TIMESTAMP"
  "SN_LAST_COMMITED_VERSION_TIMESTAMP \<noteq> INVALID_TIMESTAMP" "SN_WORKING_VERSION_TIMESTAMP \<noteq> INVALID_TIMESTAMP"
  by (simp_all add: IsValidTimestamp_def INVALID_TIMESTAMP_def SN_LAST_COMMITED_VERSION_TIMESTAMP_def
      SN_WORKING_VERSION_TIMESTAMP_def TIMESTAMP_MIN_def TIMESTAMP_MAX_def)

lemma valid_less_special:
  assumes "IsValidTimestamp ts"
  shows "ts < SN_LAST_COMMITED_VERSION_TIMESTAMP" "ts < SN_WORKING_VERSION_TIMESTAMP" "ts < INVALID_TIMESTAMP"
  using assms by (auto simp: IsValidTimestamp_def SN_LAST_COMMITED_VERSION_TIMESTAMP_def INVALID_TIMESTAMP_def
      SN_WORKING_VERSION_TIMESTAMP_def TIMESTAMP_MAX_def elim!: order.strict_trans1)

end
