(* ===== verification/GcChains.thy ===== *)
theory GcChains
  imports WuTypes
begin

text \<open>
  The garbage-collection chains of the snapshots (\<^verbatim>\<open>kernel/sm/wu/wusnapshots.cpp\<close>). Every snapshot owns a
  chain of nodes with pushed versions; node \<open>y\<close> of the snapshot at position \<open>x\<close> holds the versions that
  belong to the snapshots at the positions \<open>x - y\<close> to \<open>x\<close>. The pointers of the source never share a
  node or a snapshot, so both the list of snapshots and every chain are lists here. Discarding a
  snapshot is shown to keep what every other snapshot sees.
\<close>

section \<open>Nodes\<close>

record SnVersionEntry =
  ve_lxptr :: LXPTR
  ve_xptr :: XPTR

record SnGcNode =
  gn_entries :: "SnVersionEntry list"
  gn_garbageCount :: nat

definition empty_node :: SnGcNode where
  "empty_node = \<lparr>gn_entries = [], gn_garbageCount = 0\<rparr>"

text \<open>
  \<^verbatim>\<open>GetGcNodeByIndex\<close>: whether the node exists, and the position of the node the result pointer is
  left at (none if the chain is empty).
\<close>

fun gc_walk :: "SnGcNode list \<Rightarrow> nat \<Rightarrow> nat option \<Rightarrow> int \<Rightarrow> bool \<times> nat option" where
  "gc_walk [] pos prevOr1st index = (False, prevOr1st)"
| "gc_walk (g # gs) pos prevOr1st index =
     (if index > 0 then gc_walk gs (Suc pos) (Some pos) (index - 1)
      else if index = 0 then (True, Some pos)
      else (False, prevOr1st))"

definition GetGcNodeByIndex :: "SnGcNode list \<Rightarrow> int \<Rightarrow> bool \<times> nat option" where
  "GetGcNodeByIndex chain index = gc_walk chain 0 (if chain = [] then None else Some 0) index"

text \<open>\<^verbatim>\<open>MergeNodesAppendReset\<close>: the new contents of the destination and of the source.\<close>

definition MergeNodesAppendReset :: "SnGcNode \<Rightarrow> SnGcNode \<Rightarrow> SnGcNode \<times> SnGcNode" where
  "MergeNodesAppendReset dest src =
     (\<lparr>gn_entries = gn_entries dest @ gn_entries src, gn_garbageCount = gn_garbageCount dest + gn_garbageCount src\<rparr>,
      src\<lparr>gn_entries := [], gn_garbageCount := 0\<rparr>)"

section \<open>Rearranging chains\<close>

text \<open>\<^verbatim>\<open>RotateGcChain\<close>; no result if one of its assertions fails.\<close>

definition RotateGcChain :: "SnGcNode list \<Rightarrow> nat \<Rightarrow> SnGcNode list option" where
  "RotateGcChain chain mergeIndex =
     (case GetGcNodeByIndex chain (int mergeIndex) of
        (True, Some i) \<Rightarrow>
          if Suc i < length chain then
            (case MergeNodesAppendReset (chain ! i) (chain ! Suc i) of
               (toMerge, moved) \<Rightarrow> Some (take i chain @ [toMerge] @ drop (Suc (Suc i)) chain @ [moved]))
          else None
      | _ \<Rightarrow> None)"

text \<open>The loop of \<^verbatim>\<open>DiscardSnapshot\<close> over the snapshots after the victim.\<close>

fun rotate_after :: "nat \<Rightarrow> SnGcNode list list \<Rightarrow> SnGcNode list list option" where
  "rotate_after i [] = Some []"
| "rotate_after i (c # cs) =
     (case RotateGcChain c i of
        None \<Rightarrow> None
      | Some c' \<Rightarrow> map_option ((#) c') (rotate_after (Suc i) cs))"

text \<open>
  The two loops of \<^verbatim>\<open>RotateSnapshots\<close>: merging the detached nodes of the victim into the chain of its
  predecessor, and appending the emptied nodes to the chains of all its predecessors. Both come with
  the assertion that the two lists they run over end together.
\<close>

fun merge_chains :: "SnGcNode list \<Rightarrow> SnGcNode list \<Rightarrow> (SnGcNode list \<times> SnGcNode list) option" where
  "merge_chains [] [] = Some ([], [])"
| "merge_chains (m # ms) (g # gs) =
     (case merge_chains ms gs of
        None \<Rightarrow> None
      | Some (ms', gs') \<Rightarrow> (case MergeNodesAppendReset m g of (m', g') \<Rightarrow> Some (m' # ms', g' # gs')))"
| "merge_chains _ _ = None"

fun repair_chains :: "SnGcNode list list \<Rightarrow> SnGcNode list \<Rightarrow> SnGcNode list list option" where
  "repair_chains [] [] = Some []"
| "repair_chains (c # cs) (g # gs) = map_option ((#) (c @ [g])) (repair_chains cs gs)"
| "repair_chains _ _ = None"

text \<open>
  \<^verbatim>\<open>RotateSnapshots\<close> on the chains alone: \<open>front\<close> are the chains before the victim, \<open>vc\<close> is the chain of
  the victim. The result has the victim's chain first.
\<close>

definition rotate_chains :: "SnGcNode list list \<Rightarrow> SnGcNode list \<Rightarrow> SnGcNode list list option" where
  "rotate_chains front vc =
     (if front = [] then Some [vc]
      else case vc of
             [] \<Rightarrow> None
           | own # detached \<Rightarrow>
               (case merge_chains (last front) detached of
                  None \<Rightarrow> None
                | Some (merged, detached') \<Rightarrow>
                    map_option ((#) [own]) (repair_chains (butlast front @ [merged]) detached')))"

section \<open>What a snapshot sees\<close>

text \<open>Chains grow by one node per position.\<close>

fun tri_from :: "nat \<Rightarrow> SnGcNode list list \<Rightarrow> bool" where
  "tri_from n [] = True"
| "tri_from n (c # cs) = (length c = Suc n \<and> tri_from (Suc n) cs)"

definition triangular :: "SnGcNode list list \<Rightarrow> bool" where
  "triangular cs = tri_from 0 cs"

text \<open>
  \<open>seen f p x cs\<close> sums a measure of the nodes over everything that belongs to the snapshot at position
  \<open>p\<close>, for the chains \<open>cs\<close> of the snapshots from position \<open>x\<close> on.
\<close>

fun seen :: "(SnGcNode \<Rightarrow> 'a :: comm_monoid_add) \<Rightarrow> nat \<Rightarrow> nat \<Rightarrow> SnGcNode list list \<Rightarrow> 'a" where
  "seen f p x [] = 0"
| "seen f p x (c # cs) = (if p \<le> x then sum_list (map f (drop (x - p) c)) else 0) + seen f p (Suc x) cs"

definition total :: "(SnGcNode \<Rightarrow> 'a :: comm_monoid_add) \<Rightarrow> SnGcNode list list \<Rightarrow> 'a" where
  "total f cs = sum_list (map f (concat cs))"

definition node_versions :: "SnGcNode \<Rightarrow> SnVersionEntry multiset" where
  "node_versions g = mset (gn_entries g)"

lemma gc_walk_found: "i < length c \<Longrightarrow> gc_walk c pos prev (int i) = (True, Some (pos + i))"
  by (induction c arbitrary: pos prev i) (auto simp: nth_Cons split: nat.splits, (case_tac i; simp)+)

section \<open>The contract of merging\<close>

text \<open>
  A measure of nodes that merging preserves: the multiset of versions, the number of versions and the
  number of garbage versions are such measures.
\<close>

locale node_measure =
  fixes f :: "SnGcNode \<Rightarrow> 'a :: comm_monoid_add"
  assumes f_empty: "f \<lparr>gn_entries = [], gn_garbageCount = 0\<rparr> = 0"
    and f_merge: "f \<lparr>gn_entries = es @ es', gn_garbageCount = g + g'\<rparr> =
                  f \<lparr>gn_entries = es, gn_garbageCount = g\<rparr> + f \<lparr>gn_entries = es', gn_garbageCount = g'\<rparr>"
begin

lemma f_MergeNodes:
  assumes "MergeNodesAppendReset d s = (d', s')"
  shows "f d' = f d + f s" "f s' = 0"
  using assms f_merge[of "gn_entries d" "gn_entries s" "gn_garbageCount d" "gn_garbageCount s"] f_empty
  by (cases d; cases s; auto simp: MergeNodesAppendReset_def)+

end

lemma gc_walk_last: "c \<noteq> [] \<Longrightarrow> int (length c) \<le> i \<Longrightarrow> gc_walk c pos prev i = (False, Some (pos + length c - 1))"
proof (induction c arbitrary: pos prev i)
  case (Cons g gs)
  note IH = Cons.IH and prems = Cons.prems
  show ?case
  proof (cases gs)
    case Nil
    with prems show ?thesis by simp
  next
    case (Cons g' gs')
    with IH[of "i - 1" "Suc pos" "Some pos"] prems show ?thesis by simp
  qed
qed simp

lemma GetGcNodeByIndex_spec:
  "i < length c \<Longrightarrow> GetGcNodeByIndex c (int i) = (True, Some i)"
  "c \<noteq> [] \<Longrightarrow> int (length c) \<le> j \<Longrightarrow> GetGcNodeByIndex c j = (False, Some (length c - 1))"
  by (simp_all add: GetGcNodeByIndex_def gc_walk_found gc_walk_last)

lemma RotateGcChain_Some:
  assumes "Suc i < length c"
  obtains d s where "MergeNodesAppendReset (c ! i) (c ! Suc i) = (d, s)"
    "RotateGcChain c i = Some (take i c @ [d] @ drop (Suc (Suc i)) c @ [s])"
  using assms by (cases "MergeNodesAppendReset (c ! i) (c ! Suc i)") (simp add: RotateGcChain_def GetGcNodeByIndex_spec)

lemma RotateGcChain_length:
  assumes "RotateGcChain c i = Some c'"
  shows "length c' = length c \<and> Suc i < length c"
proof (cases "i < length c")
  case True
  with assms show ?thesis
    by (auto simp: RotateGcChain_def MergeNodesAppendReset_def GetGcNodeByIndex_spec split: if_splits)
next
  case False
  then have "\<not> fst (GetGcNodeByIndex c (int i))" using GetGcNodeByIndex_spec(2)[of c "int i"]
    by (cases "c = []") (auto simp: GetGcNodeByIndex_def)
  with assms show ?thesis by (auto simp: RotateGcChain_def split: prod.splits bool.splits)
qed

lemma merge_chains_lengths:
  "merge_chains ms gs = Some (ms', gs') \<Longrightarrow> length ms = length gs \<and> length ms' = length ms \<and> length gs' = length gs"
  by (induction ms gs arbitrary: ms' gs' rule: merge_chains.induct) (auto split: option.splits prod.splits)

lemma merge_chains_total: "length ms = length gs \<Longrightarrow> \<exists>r. merge_chains ms gs = Some r"
  by (induction ms gs rule: merge_chains.induct) (fastforce split: prod.splits)+

lemma repair_chains_length: "repair_chains cs gs = Some cs' \<Longrightarrow> length cs' = length cs \<and> length gs = length cs"
  by (induction cs gs arbitrary: cs' rule: repair_chains.induct) auto

lemma repair_chains_total: "length cs = length gs \<Longrightarrow> \<exists>r. repair_chains cs gs = Some r"
  by (induction cs gs rule: repair_chains.induct) auto

lemma rotate_chains_length: "rotate_chains front vc = Some front' \<Longrightarrow> length front' = Suc (length front)"
  by (auto simp: rotate_chains_def dest: repair_chains_length split: if_splits list.splits option.splits)

lemma rotate_after_length: "rotate_after i cs = Some cs' \<Longrightarrow> length cs' = length cs"
  by (induction i cs arbitrary: cs' rule: rotate_after.induct) (auto split: option.splits)

context node_measure
begin

abbreviation fs :: "SnGcNode list \<Rightarrow> 'a" where "fs c \<equiv> sum_list (map f c)"

lemma RotateGcChain_low:
  assumes "RotateGcChain c i = Some c'" "k \<le> i"
  shows "fs (drop k c') = fs (drop k c)"
proof -
  have i: "Suc i < length c" using RotateGcChain_length[OF assms(1)] by simp
  obtain d s where m: "MergeNodesAppendReset (c ! i) (c ! Suc i) = (d, s)"
    and c': "c' = take i c @ [d] @ drop (Suc (Suc i)) c @ [s]" using RotateGcChain_Some[OF i] assms(1) by auto
  have c: "c = take i c @ [c ! i, c ! Suc i] @ drop (Suc (Suc i)) c"
    using i by (simp add: Cons_nth_drop_Suc id_take_nth_drop[symmetric])
  have "fs (drop k c') = fs (drop k (take i c)) + f d + fs (drop (Suc (Suc i)) c)"
    using i assms(2) f_MergeNodes[OF m] by (simp add: c' add.assoc)
  moreover have "fs (drop k c) = fs (drop k (take i c)) + f (c ! i) + f (c ! Suc i) + fs (drop (Suc (Suc i)) c)"
    by (subst c) (use i assms(2) in \<open>simp add: add.assoc\<close>)
  ultimately show ?thesis using f_MergeNodes[OF m] by (simp add: add.assoc)
qed

lemma RotateGcChain_high:
  assumes "RotateGcChain c i = Some c'" "i < k"
  shows "fs (drop k c') = fs (drop (Suc k) c)"
proof -
  have i: "Suc i < length c" using RotateGcChain_length[OF assms(1)] by simp
  obtain d s where m: "MergeNodesAppendReset (c ! i) (c ! Suc i) = (d, s)"
    and c': "c' = take i c @ [d] @ drop (Suc (Suc i)) c @ [s]" using RotateGcChain_Some[OF i] assms(1) by auto
  have "drop k c' = drop (k - Suc i) (drop (Suc (Suc i)) c @ [s])"
    using i assms(2) by (simp add: c' drop_Cons' Suc_diff_Suc[symmetric] del: drop_drop)
  moreover have "fs \<dots> = fs (drop (k - Suc i) (drop (Suc (Suc i)) c))"
    using f_MergeNodes(2)[OF m] by (cases "k - Suc i \<le> length c - Suc (Suc i)") auto
  ultimately show ?thesis using assms(2) by simp
qed

lemma seen_append: "seen f p x (as @ bs) = seen f p x as + seen f p (x + length as) bs"
  by (induction as arbitrary: x) (simp_all add: add.assoc)

lemma seen_before: "x + length cs \<le> p \<Longrightarrow> seen f p x cs = 0"
  by (induction cs arbitrary: x) simp_all

lemma rotate_after_younger:
  "rotate_after i cs = Some cs' \<Longrightarrow> p < v \<Longrightarrow> seen f (Suc p) (v + Suc i) cs' = seen f p (v + Suc i) cs"
proof (induction i cs arbitrary: cs' rule: rotate_after.induct)
  case (2 i c cs)
  then obtain c' cs1 where c: "RotateGcChain c i = Some c'" "rotate_after (Suc i) cs = Some cs1" "cs' = c' # cs1"
    by (auto split: option.splits)
  have "fs (drop (v + Suc i - Suc p) c') = fs (drop (v + Suc i - p) c)"
    using RotateGcChain_high[OF c(1), of "v + i - p"] 2(3) by (simp add: Suc_diff_le)
  with 2(1)[OF c(1,2)] 2(3) c(3) show ?case by simp
qed simp

lemma rotate_after_older:
  "rotate_after i cs = Some cs' \<Longrightarrow> v < p \<Longrightarrow> seen f p (v + Suc i) cs' = seen f p (v + Suc i) cs"
proof (induction i cs arbitrary: cs' rule: rotate_after.induct)
  case (2 i c cs)
  then obtain c' cs1 where c: "RotateGcChain c i = Some c'" "rotate_after (Suc i) cs = Some cs1" "cs' = c' # cs1"
    by (auto split: option.splits)
  have "fs (drop (v + Suc i - p) c') = fs (drop (v + Suc i - p) c)"
    using RotateGcChain_low[OF c(1), of "v + Suc i - p"] 2(3) by simp
  with 2(1)[OF c(1,2)] 2(3) c(3) show ?case by simp
qed simp

lemma merge_chains_spec:
  "merge_chains ms gs = Some (ms', gs') \<Longrightarrow> fs (drop k ms') = fs (drop k ms) + fs (drop k gs) \<and> (\<forall>g\<in>set gs'. f g = 0)"
proof (induction ms gs arbitrary: ms' gs' k rule: merge_chains.induct)
  case (2 m ms g gs)
  then obtain ms1 gs1 m' g' where *: "merge_chains ms gs = Some (ms1, gs1)" "MergeNodesAppendReset m g = (m', g')"
    "ms' = m' # ms1" "gs' = g' # gs1" by (auto split: option.splits prod.splits)
  note IH = 2(1)[OF *(1)] and m = f_MergeNodes[OF *(2)]
  show ?case
  proof (cases k)
    case 0
    then show ?thesis using IH[of 0] m * by (simp add: ac_simps)
  next
    case (Suc j)
    then show ?thesis using IH[of j] m * by simp
  qed
qed auto

lemma repair_chains_spec:
  "repair_chains cs gs = Some cs' \<Longrightarrow> \<forall>g\<in>set gs. f g = 0 \<Longrightarrow> seen f (Suc p) (Suc x) cs' = seen f p x cs"
proof (induction cs gs arbitrary: cs' x rule: repair_chains.induct)
  case (2 c cs g gs)
  then obtain cs1 where c: "repair_chains cs gs = Some cs1" "cs' = (c @ [g]) # cs1" by auto
  have "fs (drop k (c @ [g])) = fs (drop k c)" for k using 2(3) by (cases "k \<le> length c") auto
  then show ?case using 2(1)[OF c(1)] 2(3) c(2) by (simp del: drop_append)
qed auto

lemma rotate_chains_younger:
  assumes "rotate_chains front vc = Some (h # front')" "p < length front"
  shows "seen f (Suc p) (Suc 0) front' = seen f p 0 (front @ [vc])"
proof -
  from assms obtain own detached merged detached' where v: "vc = own # detached"
    and m: "merge_chains (last front) detached = Some (merged, detached')"
    and r: "repair_chains (butlast front @ [merged]) detached' = Some front'"
    by (auto simp: rotate_chains_def split: if_splits list.splits option.splits)
  have "front \<noteq> []" using assms(2) by auto
  then have fr: "front = butlast front @ [last front]" and lf: "length (butlast front) = length front - 1" by simp_all
  have k: "length front - p = Suc (length front - 1 - p)" "p \<le> length front - 1" using assms(2) by auto
  have "seen f (Suc p) (Suc 0) front' = seen f p 0 (butlast front @ [merged])"
    using repair_chains_spec[OF r] merge_chains_spec[OF m] by blast
  also have "\<dots> = seen f p 0 (butlast front) + (fs (drop (length front - 1 - p) (last front)) + fs (drop (length front - 1 - p) detached))"
    using merge_chains_spec[OF m, of "length front - 1 - p"] k(2) lf by (simp add: seen_append)
  also have "\<dots> = seen f p 0 (butlast front @ [last front]) + fs (drop (length front - p) vc)"
    using k v lf by (simp add: seen_append add.assoc)
  also have "\<dots> = seen f p 0 (front @ [vc])" using assms(2) fr by (simp add: seen_append[of p 0 front])
  finally show ?thesis .
qed

text \<open>Every other snapshot sees the same after the victim at position \<open>length front\<close> is gone.\<close>

lemma discard_seen:
  assumes r: "rotate_chains front vc = Some front'" and a: "rotate_after 0 back = Some back'"
    and p: "p \<noteq> length front"
  shows "seen f (if p < length front then Suc p else p) 0 (front' @ back') = seen f p 0 (front @ vc # back)"
proof -
  let ?v = "length front"
  have len: "length front' = Suc ?v" using rotate_chains_length[OF r] .
  then obtain h fr where fr: "front' = h # fr" by (cases front') auto
  show ?thesis
  proof (cases "p < ?v")
    case True
    have "seen f (Suc p) 0 (front' @ back') = seen f (Suc p) (Suc 0) fr + seen f (Suc p) (Suc ?v) back'"
      using len fr by (simp add: seen_append)
    also have "\<dots> = seen f p 0 (front @ [vc]) + seen f p (Suc ?v) back"
      using rotate_chains_younger[OF r[unfolded fr] True] rotate_after_younger[OF a True] by simp
    finally show ?thesis using True by (simp add: seen_append add.assoc)
  next
    case False
    then have v: "?v < p" using p by simp
    have "seen f p 0 front' = 0" "seen f p 0 (front @ [vc]) = 0" using v len by (simp_all add: seen_before)
    moreover have "seen f p (Suc ?v) back' = seen f p (Suc ?v) back" using rotate_after_older[OF a v] by simp
    moreover have "front @ vc # back = (front @ [vc]) @ back" by simp
    ultimately show ?thesis using v len by (simp only: seen_append) simp
  qed
qed

text \<open>No version is lost or duplicated.\<close>

lemma rotate_after_total_versions: "rotate_after i cs = Some cs' \<Longrightarrow> fs (concat cs') = fs (concat cs)"
proof (induction i cs arbitrary: cs' rule: rotate_after.induct)
  case (2 i c cs)
  then obtain c' cs1 where c: "RotateGcChain c i = Some c'" "rotate_after (Suc i) cs = Some cs1" "cs' = c' # cs1"
    by (auto split: option.splits)
  with 2(1)[OF c(1,2)] RotateGcChain_low[OF c(1), of 0] show ?case by simp
qed simp

lemma repair_chains_total_versions: "repair_chains cs gs = Some cs' \<Longrightarrow> \<forall>g\<in>set gs. f g = 0 \<Longrightarrow> fs (concat cs') = fs (concat cs)"
  by (induction cs gs arbitrary: cs' rule: repair_chains.induct) auto

lemma rotate_chains_total_versions:
  assumes "rotate_chains front vc = Some front'"
  shows "fs (concat front') = fs (concat (front @ [vc]))"
proof (cases "front = []")
  case True
  with assms show ?thesis by (simp add: rotate_chains_def)
next
  case False
  with assms obtain own detached merged detached' rest where v: "vc = own # detached" "front' = [own] # rest"
    and m: "merge_chains (last front) detached = Some (merged, detached')"
    and r: "repair_chains (butlast front @ [merged]) detached' = Some rest"
    by (auto simp: rotate_chains_def split: list.splits option.splits)
  have "fs (concat rest) = fs (concat (butlast front)) + (fs (last front) + fs detached)"
    using repair_chains_total_versions[OF r] merge_chains_spec[OF m, of 0] by simp
  moreover have "fs (concat front) = fs (concat (butlast front)) + fs (last front)"
    by (subst append_butlast_last_id[OF False, symmetric]) simp
  ultimately show ?thesis using v by (simp add: ac_simps)
qed

lemma discard_total:
  assumes "rotate_chains front vc = Some front'" "rotate_after 0 back = Some back'"
  shows "total f (front' @ back') = total f (front @ vc # back)"
  using rotate_chains_total_versions[OF assms(1)] rotate_after_total_versions[OF assms(2)]
  by (simp add: total_def add.assoc)

end

section \<open>The shape of the chains\<close>

lemma tri_from_append: "tri_from n (as @ bs) \<longleftrightarrow> tri_from n as \<and> tri_from (n + length as) bs"
  by (induction as arbitrary: n) auto

lemma tri_from_nth: "tri_from n cs \<Longrightarrow> i < length cs \<Longrightarrow> length (cs ! i) = Suc (n + i)"
  by (induction cs arbitrary: n i) (auto simp: nth_Cons split: nat.splits)

lemma rotate_after_tri:
  "tri_from (v + Suc i) cs \<Longrightarrow> \<exists>cs'. rotate_after i cs = Some cs' \<and> tri_from (v + Suc i) cs'"
proof (induction cs arbitrary: i)
  case (Cons c cs)
  have "Suc i < length c" using Cons.prems by simp
  then obtain c' where c': "RotateGcChain c i = Some c'" by (rule RotateGcChain_Some)
  obtain cs' where "rotate_after (Suc i) cs = Some cs'" "tri_from (v + Suc (Suc i)) cs'"
    using Cons.IH[of "Suc i"] Cons.prems by auto
  with c' RotateGcChain_length[OF c'] Cons.prems show ?case by simp
qed simp

lemma repair_chains_tri: "repair_chains cs gs = Some cs' \<Longrightarrow> tri_from n cs \<Longrightarrow> tri_from (Suc n) cs'"
  by (induction cs gs arbitrary: cs' n rule: repair_chains.induct) auto

lemma rotate_chains_tri:
  assumes "tri_from 0 (front @ [vc])"
  shows "\<exists>front'. rotate_chains front vc = Some front' \<and> tri_from 0 front'"
proof (cases "front = []")
  case True
  with assms show ?thesis by (simp add: rotate_chains_def)
next
  case False
  have t: "tri_from 0 front" "length vc = Suc (length front)" using assms by (simp_all add: tri_from_append)
  then obtain own detached where v: "vc = own # detached" "length detached = length front" by (cases vc) auto
  have fr: "front = butlast front @ [last front]" using False by simp
  have "tri_from 0 (butlast front @ [last front])" using t(1) fr by simp
  then have tb: "tri_from 0 (butlast front)" "length (last front) = length front"
    unfolding tri_from_append using False by simp_all
  then obtain merged detached' where m: "merge_chains (last front) detached = Some (merged, detached')"
    using merge_chains_total[of "last front" detached] v by force
  note ml = merge_chains_lengths[OF m]
  have "length (butlast front @ [merged]) = length detached'" using ml v False by simp
  then obtain rest where r: "repair_chains (butlast front @ [merged]) detached' = Some rest" using repair_chains_total by blast
  have "tri_from 0 (butlast front @ [merged])" using tb ml v False by (simp add: tri_from_append)
  with repair_chains_tri[OF r] v m r False show ?thesis by (simp add: rotate_chains_def)
qed

lemma discard_tri:
  assumes "triangular (front @ vc # back)"
  shows "\<exists>front' back'. rotate_chains front vc = Some front' \<and> rotate_after 0 back = Some back' \<and> triangular (front' @ back')"
proof -
  have t: "tri_from 0 (front @ [vc])" "tri_from (length front + Suc 0) back"
    using assms by (simp_all add: triangular_def tri_from_append)
  obtain front' where f: "rotate_chains front vc = Some front'" "tri_from 0 front'" using rotate_chains_tri[OF t(1)] by blast
  obtain back' where b: "rotate_after 0 back = Some back'" "tri_from (length front + Suc 0) back'" using rotate_after_tri[OF t(2)] by blast
  with f rotate_chains_length[OF f(1)] show ?thesis by (auto simp: triangular_def tri_from_append)
qed

section \<open>The measures\<close>

interpretation versions: node_measure node_versions
  by unfold_locales (simp_all add: node_versions_def)

interpretation version_count: node_measure "\<lambda>g. length (gn_entries g)"
  by unfold_locales simp_all

interpretation garbage: node_measure gn_garbageCount
  by unfold_locales simp_all

end
