(* ===== verification/Snapshots.thy ===== *)
theory Snapshots
  imports GcChains
begin

text \<open>
  The snapshots module of the version manager, \<^verbatim>\<open>kernel/sm/wu/wusnapshots.cpp\<close>: the list of snapshots,
  its garbage collection, the clients' use of snapshots and checkpoints. A pointer to a snapshot is its
  position in the list. Every function returns the error it sets, if any, and the new state; the state
  may change on the error paths as well.
\<close>

section \<open>Data\<close>

datatype sn_kind = SN_REGULAR_SNAPSHOT | SN_PERSISTENT_SNAPSHOT | SN_PREV_PERSISTENT_SNAPSHOT | SN_FUTURE_SNAPSHOT

record SnSnapshot =
  sn_timestamp :: TIMESTAMP
  sn_active :: "TIMESTAMP list"      \<comment> \<open>\<^verbatim>\<open>tsBegin .. tsEnd\<close>\<close>
  sn_gcChain :: "SnGcNode list"
  sn_type :: sn_kind
  sn_occupancy :: int
  sn_isDamaged :: bool

text \<open>
  The list, the clock of \<^verbatim>\<open>wu.cpp\<close> that hands out timestamps, and a record of the blocks that have been
  freed so far.
\<close>

record sn_state =
  sl_snapshots :: "SnSnapshot list"
  sl_activeTs :: "TIMESTAMP list"
  sl_nClientsMax :: nat
  sl_runawayCount :: nat
  sl_clock :: TIMESTAMP
  sl_freed :: "XPTR list"

text \<open>
  What the module relies on: whether freeing a block succeeds, given what has been freed before, whether
  an allocation of so many timestamps succeeds, and the flag \<^verbatim>\<open>SN_SETUP_DISABLE_VERSIONS_FLAG\<close>.
\<close>

record sn_env =
  env_freeBlock :: "XPTR list \<Rightarrow> XPTR \<Rightarrow> bool"
  env_malloc :: "nat \<Rightarrow> bool"
  env_disableVersions :: bool

type_synonym sn_result = "wu_error option \<times> sn_state"

definition SN_SNAPSHOTS_COUNT :: nat where
  "SN_SNAPSHOTS_COUNT = 3"

definition SN_MAX_CLIENTS_COUNT :: int where
  "SN_MAX_CLIENTS_COUNT = 0x10000"

definition SN_MAX_SNAPSHOTS_COUNT :: int where
  "SN_MAX_SNAPSHOTS_COUNT = 0x100"

section \<open>Building the list\<close>

definition future_snapshot :: "nat \<Rightarrow> SnSnapshot" where
  "future_snapshot i =
     \<lparr>sn_timestamp = INVALID_TIMESTAMP, sn_active = [], sn_gcChain = replicate (Suc i) empty_node,
      sn_type = SN_FUTURE_SNAPSHOT, sn_occupancy = 0, sn_isDamaged = False\<rparr>"

text \<open>\<open>mem\<close> tells whether the allocation of the pools succeeds.\<close>

definition InitSnapshotsList :: "bool \<Rightarrow> int \<Rightarrow> int \<Rightarrow> sn_state \<Rightarrow> sn_result" where
  "InitSnapshotsList mem nClientsMaxParam nSnapshotsMaxParam s =
     (if nClientsMaxParam < 1 \<or> nClientsMaxParam > SN_MAX_CLIENTS_COUNT \<or>
         nSnapshotsMaxParam < 1 \<or> nSnapshotsMaxParam > SN_MAX_SNAPSHOTS_COUNT
      then (Some WUERR_BAD_PARAMS, s)
      else if \<not> mem then (Some WUERR_NO_MEMORY, s)
      else (None, s\<lparr>sl_snapshots := map future_snapshot [0..<nat nSnapshotsMaxParam],
                    sl_activeTs := [], sl_nClientsMax := nat nClientsMaxParam, sl_runawayCount := 0\<rparr>))"

definition DestroySnapshotsList :: "sn_state \<Rightarrow> sn_state" where
  "DestroySnapshotsList s = s\<lparr>sl_snapshots := [], sl_activeTs := [], sl_nClientsMax := 0, sl_runawayCount := 0\<rparr>"

section \<open>Looking up\<close>

fun position :: "('a \<Rightarrow> bool) \<Rightarrow> 'a list \<Rightarrow> nat option" where
  "position P [] = None"
| "position P (x # xs) = (if P x then Some 0 else map_option Suc (position P xs))"

definition GetSnapshotByTimestamp :: "sn_state \<Rightarrow> TIMESTAMP \<Rightarrow> nat option" where
  "GetSnapshotByTimestamp s ts = position (\<lambda>sn. sn_timestamp sn = ts) (sl_snapshots s)"

definition GetSnapshotByType :: "sn_state \<Rightarrow> sn_kind list \<Rightarrow> nat option" where
  "GetSnapshotByType s typeMask = position (\<lambda>sn. sn_type sn \<in> set typeMask) (sl_snapshots s)"

definition not_future :: "sn_kind list" where
  "not_future = [SN_REGULAR_SNAPSHOT, SN_PERSISTENT_SNAPSHOT, SN_PREV_PERSISTENT_SNAPSHOT]"

definition GetCurrentSnapshot :: "sn_state \<Rightarrow> nat option" where
  "GetCurrentSnapshot s = GetSnapshotByType s not_future"

definition set_snapshot :: "nat \<Rightarrow> (SnSnapshot \<Rightarrow> SnSnapshot) \<Rightarrow> sn_state \<Rightarrow> sn_state" where
  "set_snapshot i f s = s\<lparr>sl_snapshots := (sl_snapshots s)[i := f (sl_snapshots s ! i)]\<rparr>"

section \<open>Discarding\<close>

text \<open>\<^verbatim>\<open>PurgeVersions\<close>: success, what is left in the node, and the blocks freed.\<close>

fun purge_entries :: "sn_env \<Rightarrow> SnVersionEntry list \<Rightarrow> XPTR list \<Rightarrow> bool \<times> SnVersionEntry list \<times> XPTR list" where
  "purge_entries env [] freed = (True, [], freed)"
| "purge_entries env (e # es) freed =
     (if \<not> env_freeBlock env freed (ve_xptr e) then (False, e # es, freed)
      else purge_entries env es (freed @ [ve_xptr e]))"

definition PurgeVersions :: "sn_env \<Rightarrow> SnGcNode \<Rightarrow> XPTR list \<Rightarrow> bool \<times> SnGcNode \<times> XPTR list" where
  "PurgeVersions env g freed =
     (case purge_entries env (gn_entries g) freed of
        (ok, es, freed') \<Rightarrow>
          (ok, g\<lparr>gn_entries := es, gn_garbageCount := (if ok then 0 else gn_garbageCount g)\<rparr>, freed'))"

definition set_chains :: "SnSnapshot list \<Rightarrow> SnGcNode list list \<Rightarrow> SnSnapshot list" where
  "set_chains sns cs = map2 (\<lambda>sn c. sn\<lparr>sn_gcChain := c\<rparr>) sns cs"

text \<open>\<^verbatim>\<open>RotateSnapshots\<close>; \<open>v\<close> is the position of the victim, so \<^verbatim>\<open>beforeVictim\<close> is at \<open>v - 1\<close>.\<close>

definition RotateSnapshots :: "SnSnapshot list \<Rightarrow> nat \<Rightarrow> SnSnapshot list option" where
  "RotateSnapshots sns v =
     (case rotate_chains (map sn_gcChain (take v sns)) (sn_gcChain (sns ! v)) of
        None \<Rightarrow> None
      | Some cs \<Rightarrow> Some (set_chains (sns ! v # take v sns) cs @ drop (Suc v) sns))"

text \<open>The fields of a discarded snapshot.\<close>

definition reset_snapshot :: "SnSnapshot \<Rightarrow> SnSnapshot" where
  "reset_snapshot sn = sn\<lparr>sn_timestamp := INVALID_TIMESTAMP, sn_type := SN_FUTURE_SNAPSHOT, sn_isDamaged := False,
                         sn_occupancy := 0, sn_active := []\<rparr>"

definition DiscardSnapshot :: "sn_env \<Rightarrow> sn_state \<Rightarrow> TIMESTAMP \<Rightarrow> sn_result" where
  "DiscardSnapshot env s ts =
     (case GetSnapshotByTimestamp s ts of
        None \<Rightarrow> (Some WUERR_NO_SNAPSHOT_WITH_THIS_TIMESTAMP, s)
      | Some v \<Rightarrow>
          let victim = sl_snapshots s ! v in
          if sn_type victim \<noteq> SN_REGULAR_SNAPSHOT then (Some WUERR_UNABLE_TO_DISCARD_SPECIAL_SNAPSHOT, s)
          else if sn_occupancy victim > 0 then (Some WUERR_UNABLE_TO_DISCARD_SNAPSHOT_IN_USE, s)
          else (case sn_gcChain victim of
                  [] \<Rightarrow> (Some WU_ASSERTION, s)
                | own # rest \<Rightarrow>
                    (case PurgeVersions env own (sl_freed s) of
                       (ok, own', freed') \<Rightarrow>
                         let s1 = (set_snapshot v (\<lambda>sn. sn\<lparr>sn_gcChain := own' # rest\<rparr>) s)\<lparr>sl_freed := freed'\<rparr> in
                         if \<not> ok then (Some WUERR_CALLBACK, s1)
                         else let s2 = set_snapshot v reset_snapshot s1;
                                  sns = sl_snapshots s2
                              in (case rotate_after 0 (map sn_gcChain (drop (Suc v) sns)) of
                                    None \<Rightarrow> (Some WU_ASSERTION, s2)
                                  | Some back \<Rightarrow>
                                      let sns' = take (Suc v) sns @ set_chains (drop (Suc v) sns) back
                                      in (case RotateSnapshots sns' v of
                                            None \<Rightarrow> (Some WU_ASSERTION, s2)
                                          | Some sns'' \<Rightarrow> (None, s2\<lparr>sl_snapshots := sns''\<rparr>))))))"

section \<open>Creating\<close>

definition CreateSnapshot :: "sn_env \<Rightarrow> sn_state \<Rightarrow> TIMESTAMP \<Rightarrow> sn_kind \<Rightarrow> sn_result" where
  "CreateSnapshot env s ts kind =
     (if ts = 0 \<or> sl_snapshots s = [] then (Some WU_ASSERTION, s)
      else if \<not> IsValidTimestamp ts then (Some WUERR_BAD_TIMESTAMP, s)
      else if sn_type (hd (sl_snapshots s)) \<noteq> SN_FUTURE_SNAPSHOT then (Some WUERR_MAX_NUMBER_OF_SNAPSHOTS_EXCEEDED, s)
      else if sl_activeTs s \<noteq> [] \<and> \<not> env_malloc env (length (sl_activeTs s)) then (Some WUERR_NO_MEMORY, s)
      else let lastFutureSn = (case GetSnapshotByType s not_future of
                                 Some (Suc j) \<Rightarrow> j
                               | _ \<Rightarrow> length (sl_snapshots s) - 1)
           in (None, set_snapshot lastFutureSn
                       (\<lambda>sn. sn\<lparr>sn_timestamp := ts, sn_active := sl_activeTs s, sn_type := kind,
                               sn_occupancy := 0, sn_isDamaged := False\<rparr>) s))"

section \<open>Lemmas on the list\<close>

lemma position_Some: "position P xs = Some i \<Longrightarrow> i < length xs \<and> P (xs ! i) \<and> (\<forall>j<i. \<not> P (xs ! j))"
proof (induction xs arbitrary: i)
  case (Cons x xs)
  then show ?case by (auto split: if_splits simp: nth_Cons' less_Suc_eq_0_disj)
qed simp

lemma position_None: "position P xs = None \<longleftrightarrow> (\<forall>x\<in>set xs. \<not> P x)"
  by (induction xs) auto

lemma position_first: "i < length xs \<Longrightarrow> P (xs ! i) \<Longrightarrow> (\<And>j. j < i \<Longrightarrow> \<not> P (xs ! j)) \<Longrightarrow> position P xs = Some i"
proof (induction xs arbitrary: i)
  case (Cons x xs)
  show ?case
  proof (cases i)
    case 0
    with Cons.prems show ?thesis by simp
  next
    case (Suc j)
    have "position P xs = Some j"
    proof (rule Cons.IH)
      show "\<not> P (xs ! n)" if "n < j" for n using Cons.prems(3)[of "Suc n"] that Suc by simp
    qed (use Cons.prems Suc in auto)
    moreover have "\<not> P x" using Cons.prems(3)[of 0] Suc by simp
    ultimately show ?thesis using Suc by simp
  qed
qed simp

definition chains_of :: "SnSnapshot list \<Rightarrow> SnGcNode list list" where
  "chains_of sns = map sn_gcChain sns"

text \<open>Everything of a snapshot but its chain.\<close>

definition sn_body :: "SnSnapshot \<Rightarrow> SnSnapshot" where
  "sn_body sn = sn\<lparr>sn_gcChain := []\<rparr>"

lemma set_chains_simps:
  assumes "length cs = length sns"
  shows "map sn_gcChain (set_chains sns cs) = cs" "map sn_body (set_chains sns cs) = map sn_body sns" "length (set_chains sns cs) = length sns"
proof -
  have "map sn_gcChain (set_chains sns cs) = cs \<and> map sn_body (set_chains sns cs) = map sn_body sns"
    using assms by (induction cs sns rule: list_induct2) (auto simp: set_chains_def sn_body_def)
  then show "map sn_gcChain (set_chains sns cs) = cs" "map sn_body (set_chains sns cs) = map sn_body sns" by auto
  show "length (set_chains sns cs) = length sns" using assms by (simp add: set_chains_def)
qed

context node_measure
begin

text \<open>The first node of a chain belongs to its own snapshot only.\<close>

lemma seen_own:
  assumes "p \<noteq> length front"
  shows "seen f p 0 (front @ (g # gs) # bk) = seen f p 0 (front @ (g' # gs) # bk)"
proof -
  have "length front - p = Suc (length front - p - 1)" if "p \<le> length front" using that assms by simp
  then show ?thesis by (cases "p \<le> length front") (simp_all add: seen_append drop_Cons')
qed

end

section \<open>Purging\<close>

lemma purge_entries_spec:
  "purge_entries env es freed = (ok, es', freed') \<Longrightarrow>
     \<exists>done. es = done @ es' \<and> freed' = freed @ map ve_xptr done \<and> (ok \<longleftrightarrow> es' = [])"
proof (induction env es freed rule: purge_entries.induct)
  case (2 env e es freed)
  show ?case
  proof (cases "env_freeBlock env freed (ve_xptr e)")
    case True
    with 2 obtain d where "es = d @ es'" "freed' = (freed @ [ve_xptr e]) @ map ve_xptr d" "ok \<longleftrightarrow> es' = []" by auto
    then show ?thesis by (intro exI[of _ "e # d"]) simp
  qed (use 2 in auto)
qed auto

section \<open>Discarding\<close>

text \<open>
  What a successful \<^verbatim>\<open>DiscardSnapshot\<close> does: the victim goes to the front as a future snapshot and the
  versions of its own node are freed.
\<close>

definition discarded :: "nat \<Rightarrow> sn_state \<Rightarrow> sn_state \<Rightarrow> bool" where
  "discarded v s s' \<longleftrightarrow>
     (let sns = sl_snapshots s; sns' = sl_snapshots s' in
      map sn_body sns' = map sn_body (reset_snapshot (sns ! v) # take v sns @ drop (Suc v) sns)
      \<and> triangular (chains_of sns')
      \<and> sl_freed s' = sl_freed s @ map ve_xptr (gn_entries (hd (sn_gcChain (sns ! v))))
      \<and> s' = s\<lparr>sl_snapshots := sns', sl_freed := sl_freed s'\<rparr>
      \<and> (\<forall>p. p \<noteq> v \<longrightarrow> seen node_versions (if p < v then Suc p else p) 0 (chains_of sns') = seen node_versions p 0 (chains_of sns))
      \<and> (\<forall>p. p \<noteq> v \<longrightarrow> seen gn_garbageCount (if p < v then Suc p else p) 0 (chains_of sns') = seen gn_garbageCount p 0 (chains_of sns)))"

lemma discard_rotation:
  assumes tri: "triangular (chains_of sns)" and v: "v < length sns"
    and own: "sn_gcChain (sns ! v) = own # rest" and vic: "sn_gcChain vic = own' # rest"
    and z: "gn_entries own' = []" "gn_garbageCount own' = 0"
  obtains bk sns' where
    "rotate_after 0 (map sn_gcChain (drop (Suc v) sns)) = Some bk"
    "RotateSnapshots (take v sns @ vic # set_chains (drop (Suc v) sns) bk) v = Some sns'"
    "map sn_body sns' = map sn_body (vic # take v sns @ drop (Suc v) sns)" "triangular (chains_of sns')"
    "\<forall>p. p \<noteq> v \<longrightarrow> seen node_versions (if p < v then Suc p else p) 0 (chains_of sns') = seen node_versions p 0 (chains_of sns)"
    "\<forall>p. p \<noteq> v \<longrightarrow> seen gn_garbageCount (if p < v then Suc p else p) 0 (chains_of sns') = seen gn_garbageCount p 0 (chains_of sns)"
proof -
  let ?f = "map sn_gcChain (take v sns)" and ?b = "map sn_gcChain (drop (Suc v) sns)"
  have lf: "length ?f = v" using v by simp
  have sns: "chains_of sns = ?f @ (own # rest) # ?b"
    unfolding chains_of_def own[symmetric] using v by (metis id_take_nth_drop list.simps(9) map_append)
  have "triangular (?f @ (own' # rest) # ?b)" using tri unfolding sns by (simp add: triangular_def tri_from_append)
  then obtain front bk where r: "rotate_chains ?f (own' # rest) = Some front" "rotate_after 0 ?b = Some bk" "triangular (front @ bk)"
    using discard_tri by blast
  note l = rotate_chains_length[OF r(1)] rotate_after_length[OF r(2)]
  let ?s = "take v sns @ vic # set_chains (drop (Suc v) sns) bk"
  let ?n = "set_chains (vic # take v sns) front @ set_chains (drop (Suc v) sns) bk"
  have lb: "length bk = length (drop (Suc v) sns)" "length front = length (vic # take v sns)" using l v by auto
  have R: "RotateSnapshots ?s v = Some ?n" using v r(1) vic by (simp add: RotateSnapshots_def nth_append min_absorb2)
  have C: "chains_of ?n = front @ bk" using set_chains_simps(1)[OF lb(1)] set_chains_simps(1)[OF lb(2)] by (simp add: chains_of_def)
  have B: "map sn_body ?n = map sn_body (vic # take v sns @ drop (Suc v) sns)"
    using set_chains_simps(2)[OF lb(1)] set_chains_simps(2)[OF lb(2)] by simp
  show thesis
  proof (rule that[OF r(2) R B])
    show "triangular (chains_of ?n)" using r(3) C by simp
    show "\<forall>p. p \<noteq> v \<longrightarrow> seen node_versions (if p < v then Suc p else p) 0 (chains_of ?n) = seen node_versions p 0 (chains_of sns)"
      using versions.discard_seen[OF r(1,2)] versions.seen_own[of _ ?f own rest ?b own'] unfolding C sns lf by simp
    show "\<forall>p. p \<noteq> v \<longrightarrow> seen gn_garbageCount (if p < v then Suc p else p) 0 (chains_of ?n) = seen gn_garbageCount p 0 (chains_of sns)"
      using garbage.discard_seen[OF r(1,2)] garbage.seen_own[of _ ?f own rest ?b own'] unfolding C sns lf by simp
  qed
qed

text \<open>What is left when freeing a block fails half-way.\<close>

definition partly_purged :: "nat \<Rightarrow> sn_state \<Rightarrow> sn_state \<Rightarrow> bool" where
  "partly_purged v s s' \<longleftrightarrow>
     (\<exists>own rest done left. sn_gcChain (sl_snapshots s ! v) = own # rest \<and> gn_entries own = done @ left \<and> left \<noteq> []
        \<and> s' = (set_snapshot v (\<lambda>sn. sn\<lparr>sn_gcChain := own\<lparr>gn_entries := left\<rparr> # rest\<rparr>) s)\<lparr>sl_freed := sl_freed s @ map ve_xptr done\<rparr>)"

lemma DiscardSnapshot_cases:
  assumes tri: "triangular (chains_of (sl_snapshots s))" and g: "GetSnapshotByTimestamp s ts = Some v"
    and reg: "sn_type (sl_snapshots s ! v) = SN_REGULAR_SNAPSHOT" and occ: "\<not> sn_occupancy (sl_snapshots s ! v) > 0"
  obtains s' where "DiscardSnapshot env s ts = (None, s')" "discarded v s s'"
  | s' where "DiscardSnapshot env s ts = (Some WUERR_CALLBACK, s')" "partly_purged v s s'"
proof -
  let ?sns = "sl_snapshots s"
  have v: "v < length ?sns" using position_Some g by (auto simp: GetSnapshotByTimestamp_def)
  have "length (chains_of ?sns ! v) = Suc v" using tri v tri_from_nth[of 0 "chains_of ?sns" v] by (simp add: triangular_def chains_of_def)
  then obtain own rest where own: "sn_gcChain (?sns ! v) = own # rest"
    using v by (cases "sn_gcChain (?sns ! v)") (auto simp: chains_of_def)
  obtain ok es freed where pe: "purge_entries env (gn_entries own) (sl_freed s) = (ok, es, freed)" by (metis prod_cases3)
  then obtain d where d: "gn_entries own = d @ es" "freed = sl_freed s @ map ve_xptr d" "ok \<longleftrightarrow> es = []"
    using purge_entries_spec by blast
  let ?own' = "own\<lparr>gn_entries := es, gn_garbageCount := (if ok then 0 else gn_garbageCount own)\<rparr>"
  let ?s1 = "(set_snapshot v (\<lambda>sn. sn\<lparr>sn_gcChain := ?own' # rest\<rparr>) s)\<lparr>sl_freed := freed\<rparr>"
  have P: "PurgeVersions env own (sl_freed s) = (ok, ?own', freed)" using pe by (simp add: PurgeVersions_def)
  show thesis
  proof (cases ok)
    case False
    have "DiscardSnapshot env s ts = (Some WUERR_CALLBACK, ?s1)"
      using g reg occ own P False by (simp add: DiscardSnapshot_def Let_def)
    moreover have "partly_purged v s ?s1" unfolding partly_purged_def
      using own d False by (intro exI[of _ own] exI[of _ rest] exI[of _ d] exI[of _ es]) simp
    ultimately show thesis by (rule that(2))
  next
    case True
    let ?vic = "reset_snapshot ((?sns ! v)\<lparr>sn_gcChain := ?own' # rest\<rparr>)"
    obtain bk sns' where r: "rotate_after 0 (map sn_gcChain (drop (Suc v) ?sns)) = Some bk"
      "RotateSnapshots (take v ?sns @ ?vic # set_chains (drop (Suc v) ?sns) bk) v = Some sns'"
      "map sn_body sns' = map sn_body (?vic # take v ?sns @ drop (Suc v) ?sns)" "triangular (chains_of sns')"
      "\<forall>p. p \<noteq> v \<longrightarrow> seen node_versions (if p < v then Suc p else p) 0 (chains_of sns') = seen node_versions p 0 (chains_of ?sns)"
      "\<forall>p. p \<noteq> v \<longrightarrow> seen gn_garbageCount (if p < v then Suc p else p) 0 (chains_of sns') = seen gn_garbageCount p 0 (chains_of ?sns)"
      by (rule discard_rotation[OF tri v own, of ?vic ?own']) (use True d in \<open>simp_all add: reset_snapshot_def\<close>)
    let ?s2 = "set_snapshot v reset_snapshot ?s1"
    have s2: "sl_snapshots ?s2 = ?sns[v := ?vic]" using v by (simp add: set_snapshot_def)
    have t: "take (Suc v) (?sns[v := ?vic]) = take v ?sns @ [?vic]" "drop (Suc v) (?sns[v := ?vic]) = drop (Suc v) ?sns"
      using v by (simp_all add: take_Suc_conv_app_nth)
    have "DiscardSnapshot env s ts = (None, ?s2\<lparr>sl_snapshots := sns'\<rparr>)"
      using g reg occ own P True r(1,2) t s2 by (simp add: DiscardSnapshot_def Let_def)
    moreover have "discarded v s (?s2\<lparr>sl_snapshots := sns'\<rparr>)"
      unfolding discarded_def using r own d True by (simp add: set_snapshot_def sn_body_def reset_snapshot_def)
    ultimately show thesis by (rule that(1))
  qed
qed

end
