(* ===== verification/SnapshotOps.thy ===== *)
theory SnapshotOps
  imports Snapshots
begin

text \<open>
  The rest of \<^verbatim>\<open>kernel/sm/wu/wusnapshots.cpp\<close>: statistics, garbage requests, the clients of snapshots and
  the public functions of the module. The callbacks are those that \<^verbatim>\<open>wu.cpp\<close> installs.
\<close>

section \<open>Visiting nodes\<close>

text \<open>
  \<^verbatim>\<open>VisitNodes\<close> with the procedure and the user data as a state transformer that may fail. \<open>pos\<close> is the
  position of the snapshot asked for; with no position no node belongs to it.
\<close>

fun visit_chain :: "(SnGcNode \<Rightarrow> bool \<Rightarrow> bool \<Rightarrow> 'u \<Rightarrow> bool \<times> 'u) \<Rightarrow> nat option \<Rightarrow> nat \<Rightarrow> nat \<Rightarrow> SnGcNode list \<Rightarrow> 'u
    \<Rightarrow> bool \<times> 'u" where
  "visit_chain proc pos x y [] u = (True, u)"
| "visit_chain proc pos x y (g # gs) u =
     (let belongs = (case pos of None \<Rightarrow> False | Some p \<Rightarrow> x \<ge> p \<and> int y \<ge> int x - int p)
      in case proc g belongs (y > 0) u of
           (False, u') \<Rightarrow> (False, u')
         | (True, u') \<Rightarrow> visit_chain proc pos x (Suc y) gs u')"

fun visit_chains :: "(SnGcNode \<Rightarrow> bool \<Rightarrow> bool \<Rightarrow> 'u \<Rightarrow> bool \<times> 'u) \<Rightarrow> nat option \<Rightarrow> nat \<Rightarrow> SnGcNode list list \<Rightarrow> 'u
    \<Rightarrow> bool \<times> 'u" where
  "visit_chains proc pos x [] u = (True, u)"
| "visit_chains proc pos x (c # cs) u =
     (case visit_chain proc pos x 0 c u of
        (False, u') \<Rightarrow> (False, u')
      | (True, u') \<Rightarrow> visit_chains proc pos (Suc x) cs u')"

definition VisitNodes :: "sn_state \<Rightarrow> TIMESTAMP \<Rightarrow> (SnGcNode \<Rightarrow> bool \<Rightarrow> bool \<Rightarrow> 'u \<Rightarrow> bool \<times> 'u) \<Rightarrow> 'u \<Rightarrow> bool \<times> 'u" where
  "VisitNodes s ts proc u =
     (if ts \<noteq> INVALID_TIMESTAMP \<and> GetSnapshotByTimestamp s ts = None then (False, u)
      else visit_chains proc (if ts = INVALID_TIMESTAMP then None else GetSnapshotByTimestamp s ts) 0
             (map sn_gcChain (sl_snapshots s)) u)"

section \<open>Statistics\<close>

record SnInternalSnapshotStats =
  st_nVersions :: nat
  st_nGarbageVersions :: nat
  st_nSnapshotVersions :: nat
  st_nSnapshotGarbageVersions :: nat
  st_nSnapshotSharedVersions :: nat
  st_nSnapshotSharedGarbageVersions :: nat

definition zero_stats :: SnInternalSnapshotStats where
  "zero_stats = \<lparr>st_nVersions = 0, st_nGarbageVersions = 0, st_nSnapshotVersions = 0, st_nSnapshotGarbageVersions = 0,
                 st_nSnapshotSharedVersions = 0, st_nSnapshotSharedGarbageVersions = 0\<rparr>"

definition GatherInternalStatsProc :: "SnGcNode \<Rightarrow> bool \<Rightarrow> bool \<Rightarrow> SnInternalSnapshotStats \<Rightarrow> bool \<times> SnInternalSnapshotStats" where
  "GatherInternalStatsProc node belongs shared st =
     (let nVersions = length (gn_entries node);
          nGarbageVersions = gn_garbageCount node;
          st1 = st\<lparr>st_nVersions := st_nVersions st + nVersions, st_nGarbageVersions := st_nGarbageVersions st + nGarbageVersions\<rparr>;
          st2 = st1\<lparr>st_nSnapshotVersions := st_nSnapshotVersions st1 + nVersions,
                    st_nSnapshotGarbageVersions := st_nSnapshotGarbageVersions st1 + nGarbageVersions\<rparr>;
          st3 = st2\<lparr>st_nSnapshotSharedVersions := st_nSnapshotSharedVersions st2 + nVersions,
                    st_nSnapshotSharedGarbageVersions := st_nSnapshotSharedGarbageVersions st2 + nGarbageVersions\<rparr>
      in (True, if belongs then (if shared then st3 else st2) else st1))"

definition GatherInternalStats :: "sn_state \<Rightarrow> TIMESTAMP \<Rightarrow> bool \<times> SnInternalSnapshotStats" where
  "GatherInternalStats s ts = VisitNodes s ts GatherInternalStatsProc zero_stats"

section \<open>Purifying\<close>

text \<open>Marking unused snapshots as damaged.\<close>

definition AutoDamageSnapshotsAndScanForGarbage :: "sn_state \<Rightarrow> bool \<Rightarrow> sn_state" where
  "AutoDamageSnapshotsAndScanForGarbage s isKeepingCurrentSnapshot =
     (case GetCurrentSnapshot s of
        None \<Rightarrow> s
      | Some c \<Rightarrow>
          let i = (if isKeepingCurrentSnapshot then Suc c else c)
          in s\<lparr>sl_snapshots := take i (sl_snapshots s) @
                 map (\<lambda>sn. if sn_occupancy sn = 0 then sn\<lparr>sn_isDamaged := True\<rparr> else sn) (drop i (sl_snapshots s))\<rparr>)"

text \<open>The two callbacks of \<^verbatim>\<open>wu.cpp\<close>.\<close>

definition OnBeforeDiscardSnapshot :: "TIMESTAMP \<Rightarrow> bool \<Rightarrow> bool \<times> bool" where
  "OnBeforeDiscardSnapshot snapshotTs bDenyDiscarding = (True, bDenyDiscarding)"

definition OnDiscardSnapshot :: "TIMESTAMP \<Rightarrow> bool" where
  "OnDiscardSnapshot snapshotTs = True"

text \<open>
  The loop of \<^verbatim>\<open>PurifySnapshots\<close> at position \<open>i\<close>, with as many rounds as there are snapshots from \<open>i\<close> on. The
  callbacks do not touch the list, so the comparisons of the timestamp after them hold.
\<close>

fun purify_loop :: "sn_env \<Rightarrow> nat \<Rightarrow> nat \<Rightarrow> sn_state \<Rightarrow> wu_error option \<times> sn_state" where
  "purify_loop env 0 i s = (None, s)"
| "purify_loop env (Suc n) i s =
     (let current = sl_snapshots s ! i;
          ts = sn_timestamp current;
          deny = (sn_occupancy current \<noteq> 0 \<or> sn_type current \<noteq> SN_REGULAR_SNAPSHOT);
          (ok, deny') = (if deny then (True, deny) else OnBeforeDiscardSnapshot ts deny)
      in if \<not> ok then (Some WUERR_CALLBACK, s)
         else if deny' then purify_loop env n (Suc i) s
         else if \<not> OnDiscardSnapshot ts then (Some WUERR_CALLBACK, s)
         else (case DiscardSnapshot env s ts of
                 (None, s') \<Rightarrow> purify_loop env n (Suc i) s'
               | (Some e, s') \<Rightarrow> (Some e, s')))"

definition PurifySnapshots :: "sn_env \<Rightarrow> bool \<Rightarrow> sn_state \<Rightarrow> sn_result" where
  "PurifySnapshots env isKeepingCurrentSnapshot s =
     (let start = (case GetCurrentSnapshot s of
                     None \<Rightarrow> length (sl_snapshots s)
                   | Some c \<Rightarrow> if isKeepingCurrentSnapshot then Suc c else c)
      in case purify_loop env (length (sl_snapshots s) - start) start s of
           (Some e, s') \<Rightarrow> (Some e, s')
         | (None, s') \<Rightarrow> (None, AutoDamageSnapshotsAndScanForGarbage s' isKeepingCurrentSnapshot))"

section \<open>Garbage requests\<close>

datatype request_type =
    SN_REQUEST_NOP
  | SN_REQUEST_DISCARD_VERSION
  | SN_REQUEST_ADD_NORMAL_VERSION
  | SN_REQUEST_ADD_BOGUS_VERSION

record SnRequestForGc =
  gr_lxptr :: LXPTR
  gr_xptr :: XPTR
  gr_anchorTs :: TIMESTAMP
  gr_type :: request_type

definition ValidateRequestForGc :: "SnRequestForGc \<Rightarrow> bool" where
  "ValidateRequestForGc req =
     (if gr_type req \<noteq> SN_REQUEST_NOP \<and> gr_xptr req = 0 then False
      else if gr_type req = SN_REQUEST_ADD_NORMAL_VERSION \<and> gr_lxptr req = 0 then False
      else if \<not> IsValidTimestamp (gr_anchorTs req) \<and> gr_anchorTs req \<noteq> INVALID_TIMESTAMP \<and>
              (gr_type req = SN_REQUEST_ADD_NORMAL_VERSION \<or> gr_type req = SN_REQUEST_ADD_BOGUS_VERSION) then False
      else True)"

text \<open>How many steps down the list the snapshots still depend on a version with that anchor.\<close>

fun dep_steps :: "TIMESTAMP \<Rightarrow> SnSnapshot list \<Rightarrow> nat" where
  "dep_steps anchor (sn # sn' # sns) =
     (if sn_timestamp sn' \<ge> anchor then Suc (dep_steps anchor (sn' # sns)) else 0)"
| "dep_steps anchor _ = 0"

text \<open>The snapshot a request starts from: one of the list, or the static \<^verbatim>\<open>infinipast\<close> with timestamp zero.\<close>

datatype entry_snapshot = Infinipast | At nat

text \<open>The last snapshot depending on the version and the level of the node to use.\<close>

definition dependent :: "SnSnapshot list \<Rightarrow> entry_snapshot \<Rightarrow> TIMESTAMP \<Rightarrow> (entry_snapshot \<times> nat) option" where
  "dependent sns pSn anchor =
     (case pSn of
        Infinipast \<Rightarrow> if 0 < anchor then None else Some (Infinipast, 0)
      | At i \<Rightarrow> if sn_timestamp (sns ! i) < anchor then None
                else let level = dep_steps anchor (drop i sns) in Some (At (i + level), level))"

definition free_block :: "sn_env \<Rightarrow> XPTR \<Rightarrow> sn_state \<Rightarrow> sn_result" where
  "free_block env x s =
     (if env_freeBlock env (sl_freed s) x then (None, s\<lparr>sl_freed := sl_freed s @ [x]\<rparr>) else (Some WUERR_CALLBACK, s))"

text \<open>Pushing an entry on a node of a snapshot.\<close>

definition push_version :: "entry_snapshot \<Rightarrow> nat \<Rightarrow> SnVersionEntry \<Rightarrow> bool \<Rightarrow> sn_state \<Rightarrow> sn_result" where
  "push_version pSn level entry bogus s =
     (case pSn of
        Infinipast \<Rightarrow> (Some WU_ASSERTION, s)
      | At x \<Rightarrow>
          (case GetGcNodeByIndex (sn_gcChain (sl_snapshots s ! x)) (int level) of
             (_, None) \<Rightarrow> (Some WU_ASSERTION, s)
           | (_, Some y) \<Rightarrow>
               (None, set_snapshot x (\<lambda>sn. sn\<lparr>sn_gcChain := (sn_gcChain sn)[y :=
                        (let g = sn_gcChain sn ! y
                         in \<lparr>gn_entries = gn_entries g @ [entry],
                             gn_garbageCount = (if bogus then Suc (gn_garbageCount g) else gn_garbageCount g)\<rparr>)]\<rparr>) s)))"

definition SubmitRequestForGc :: "sn_env \<Rightarrow> entry_snapshot \<Rightarrow> SnRequestForGc \<Rightarrow> sn_state \<Rightarrow> sn_result" where
  "SubmitRequestForGc env pSn request s =
     (if \<not> ValidateRequestForGc request then (Some WUERR_BAD_PARAMS, s)
      else if gr_type request = SN_REQUEST_NOP then (None, s)
      else (case dependent (sl_snapshots s) pSn (gr_anchorTs request) of
              None \<Rightarrow>
                free_block env (gr_xptr request)
                  (if gr_type request = SN_REQUEST_ADD_NORMAL_VERSION
                   then s\<lparr>sl_runawayCount := Suc (sl_runawayCount s)\<rparr> else s)
            | Some (sn, level) \<Rightarrow>
                (case gr_type request of
                   SN_REQUEST_DISCARD_VERSION \<Rightarrow> free_block env (gr_xptr request) s
                 | SN_REQUEST_ADD_BOGUS_VERSION \<Rightarrow>
                     push_version sn level \<lparr>ve_lxptr = 0, ve_xptr = gr_xptr request\<rparr> True s
                 | SN_REQUEST_ADD_NORMAL_VERSION \<Rightarrow>
                     push_version sn level \<lparr>ve_lxptr = gr_lxptr request, ve_xptr = gr_xptr request\<rparr> False s
                 | SN_REQUEST_NOP \<Rightarrow> (Some WUERR_BAD_PARAMS, s))))"

section \<open>Active transactions\<close>

definition AddActiveTimestamp :: "sn_state \<Rightarrow> TIMESTAMP \<Rightarrow> sn_result" where
  "AddActiveTimestamp s ts =
     (if \<not> IsValidTimestamp ts then (Some WUERR_BAD_TIMESTAMP, s)
      else if length (sl_activeTs s) = sl_nClientsMax s then (Some WUERR_MAX_NUMBER_OF_CLIENTS_EXCEEDED, s)
      else (None, s\<lparr>sl_activeTs := sl_activeTs s @ [ts]\<rparr>))"

text \<open>\<^verbatim>\<open>std::lower_bound\<close> and \<^verbatim>\<open>std::binary_search\<close> on an ascending array.\<close>

definition lower_bound :: "TIMESTAMP list \<Rightarrow> TIMESTAMP \<Rightarrow> nat" where
  "lower_bound tss ts = length (takeWhile (\<lambda>t. t < ts) tss)"

definition binary_search :: "TIMESTAMP list \<Rightarrow> TIMESTAMP \<Rightarrow> bool" where
  "binary_search tss ts = (let i = lower_bound tss ts in i < length tss \<and> \<not> ts < tss ! i)"

text \<open>
  \<^verbatim>\<open>RemoveActiveTimestamp\<close>: its result is always zero, so only the new state and the error that is set
  on the failing path are returned.
\<close>

definition RemoveActiveTimestamp :: "sn_state \<Rightarrow> TIMESTAMP \<Rightarrow> bool \<times> wu_error option \<times> sn_state" where
  "RemoveActiveTimestamp s ts =
     (let i = lower_bound (sl_activeTs s) ts
      in if i = length (sl_activeTs s) \<or> sl_activeTs s ! i \<noteq> ts then (False, Some WUERR_GENERAL_ERROR, s)
         else (False, None, s\<lparr>sl_activeTs := take i (sl_activeTs s) @ drop (Suc i) (sl_activeTs s)\<rparr>))"

definition IsVersionYoungerThanSnapshot :: "SnSnapshot \<Rightarrow> TIMESTAMP \<Rightarrow> bool" where
  "IsVersionYoungerThanSnapshot sn ts \<longleftrightarrow> ts > sn_timestamp sn \<or> binary_search (sn_active sn) ts"

definition EnsureCanAdvanceSnapshots :: "sn_state \<Rightarrow> bool" where
  "EnsureCanAdvanceSnapshots s =
     (let count = (case GetCurrentSnapshot s of
                     None \<Rightarrow> 0
                   | Some c \<Rightarrow> length (filter (\<lambda>sn. \<not> sn_isDamaged sn) (drop c (sl_snapshots s))))
      in count < SN_SNAPSHOTS_COUNT - 1 \<and> sl_snapshots s \<noteq> [] \<and> sn_type (hd (sl_snapshots s)) = SN_FUTURE_SNAPSHOT)"

section \<open>Public functions\<close>

text \<open>The clock of \<^verbatim>\<open>wu.cpp\<close>.\<close>

definition WuGetTimestamp :: "sn_state \<Rightarrow> wu_error option \<times> TIMESTAMP \<times> sn_state" where
  "WuGetTimestamp s =
     (if \<not> IsValidTimestamp (sl_clock s) then (Some WUERR_MAX_TIMESTAMP_VALUE_EXCEEDED, INVALID_TIMESTAMP, s)
      else (None, sl_clock s, s\<lparr>sl_clock := sl_clock s + 1\<rparr>))"

definition WuSetTimestamp :: "TIMESTAMP \<Rightarrow> sn_state \<Rightarrow> bool \<times> wu_error option \<times> sn_state" where
  "WuSetTimestamp ts s =
     (if \<not> IsValidTimestamp ts then (False, Some WUERR_BAD_TIMESTAMP, s) else (False, None, s\<lparr>sl_clock := ts\<rparr>))"

definition SnStartup :: "sn_env \<Rightarrow> bool \<Rightarrow> int \<Rightarrow> TIMESTAMP \<Rightarrow> sn_state \<Rightarrow> sn_result" where
  "SnStartup env mem maxClientsCount initialPersSnapshotTs s =
     (case InitSnapshotsList mem maxClientsCount (int SN_SNAPSHOTS_COUNT) s of
        (Some e, s') \<Rightarrow> (Some e, s')
      | (None, s') \<Rightarrow>
          if initialPersSnapshotTs = INVALID_TIMESTAMP then (None, s')
          else (case CreateSnapshot env s' initialPersSnapshotTs SN_PERSISTENT_SNAPSHOT of
                  (None, s'') \<Rightarrow> (None, s'')
                | (Some e, s'') \<Rightarrow> (Some e, DestroySnapshotsList s'')))"

definition SnShutdown :: "sn_env \<Rightarrow> sn_state \<Rightarrow> sn_result" where
  "SnShutdown env s =
     (let (failure, s1) =
        (case GetSnapshotByType s [SN_PERSISTENT_SNAPSHOT] of
           None \<Rightarrow> (False, s)
         | Some i \<Rightarrow>
             (case GatherInternalStats s (sn_timestamp (sl_snapshots s ! i)) of
                (_, stats) \<Rightarrow>
                  if st_nSnapshotVersions stats = 0 then (False, set_snapshot i (\<lambda>sn. sn\<lparr>sn_type := SN_REGULAR_SNAPSHOT\<rparr>) s)
                  else (True, s)))
      in if failure then (Some WUERR_SHUTDOWN_ERROR, s1)
         else (case PurifySnapshots env False s1 of
                 (Some e, s2) \<Rightarrow> (Some e, s2)
               | (None, s2) \<Rightarrow> if GetCurrentSnapshot s2 \<noteq> None then (Some WUERR_SHUTDOWN_ERROR, s2) else (None, s2)))"

datatype tr_kind = SN_NO_TRANSACTION | SN_UPDATER_TRANSACTION | SN_READ_ONLY_TRANSACTON | SN_COMPLETED_TRANSACTION

record SnClientState =
  cs_timestamp :: TIMESTAMP
  cs_statusAndType :: tr_kind

text \<open>
  The functions below work on the state block of the current client, which the clients module looks up;
  without a current client there is none.
\<close>

definition SnOnRegisterClient :: "sn_env \<Rightarrow> bool \<Rightarrow> SnClientState option \<Rightarrow> sn_state
    \<Rightarrow> bool \<times> wu_error option \<times> SnClientState option \<times> sn_state" where
  "SnOnRegisterClient env isUsingSnapshot state s =
     (case state of
        None \<Rightarrow> (False, None, state, s)
      | Some st \<Rightarrow>
          if isUsingSnapshot then
            (if env_disableVersions env then (False, Some WUERR_VERSIONS_DISABLED, state, s)
             else (case GetCurrentSnapshot s of
                     None \<Rightarrow> (False, Some WUERR_NO_SNAPSHOTS_EXIST, state, s)
                   | Some c \<Rightarrow>
                       if sn_isDamaged (sl_snapshots s ! c) then (False, Some WUERR_UNABLE_TO_USE_DAMAGED_SNAPSHOT, state, s)
                       else (True, None, Some \<lparr>cs_timestamp = sn_timestamp (sl_snapshots s ! c), cs_statusAndType = SN_READ_ONLY_TRANSACTON\<rparr>,
                             set_snapshot c (\<lambda>sn. sn\<lparr>sn_occupancy := sn_occupancy sn + 1\<rparr>) s)))
          else (case WuGetTimestamp s of
                  (Some e, ts, s1) \<Rightarrow> (False, Some e, Some (st\<lparr>cs_timestamp := ts\<rparr>), s1)
                | (None, ts, s1) \<Rightarrow>
                    (True, fst (AddActiveTimestamp s1 ts), Some \<lparr>cs_timestamp = ts, cs_statusAndType = SN_UPDATER_TRANSACTION\<rparr>,
                     snd (AddActiveTimestamp s1 ts))))"

definition current_ts :: "sn_state \<Rightarrow> TIMESTAMP" where
  "current_ts s = (case GetCurrentSnapshot s of None \<Rightarrow> INVALID_TIMESTAMP | Some c \<Rightarrow> sn_timestamp (sl_snapshots s ! c))"

text \<open>The last component of the result is the timestamp of the current snapshot.\<close>

definition SnOnTransactionEnd :: "sn_env \<Rightarrow> SnClientState option \<Rightarrow> sn_state
    \<Rightarrow> bool \<times> wu_error option \<times> SnClientState option \<times> sn_state \<times> TIMESTAMP" where
  "SnOnTransactionEnd env state s =
     (let (success, err, s') =
        (case state of
           None \<Rightarrow> (False, None, s)
         | Some st \<Rightarrow>
             (case cs_statusAndType st of
                SN_UPDATER_TRANSACTION \<Rightarrow>
                  (case RemoveActiveTimestamp s (cs_timestamp st) of (_, e, s1) \<Rightarrow> (True, e, s1))
              | SN_READ_ONLY_TRANSACTON \<Rightarrow>
                  (case GetSnapshotByTimestamp s (cs_timestamp st) of
                     None \<Rightarrow> (False, Some WU_ASSERTION, s)
                   | Some i \<Rightarrow>
                       (case PurifySnapshots env True (set_snapshot i (\<lambda>sn. sn\<lparr>sn_occupancy := sn_occupancy sn - 1\<rparr>) s) of
                          (e, s1) \<Rightarrow> (e = None, e, s1)))
              | SN_COMPLETED_TRANSACTION \<Rightarrow> (False, Some WUERR_FUNCTION_INVALID_IN_THIS_STATE, s)
              | SN_NO_TRANSACTION \<Rightarrow> (False, Some WUERR_BAD_PARAMS, s)))
      in (success, err,
          if success then Some \<lparr>cs_timestamp = INVALID_TIMESTAMP, cs_statusAndType = SN_COMPLETED_TRANSACTION\<rparr> else state,
          s', current_ts s'))"

definition SnOnUnregisterClient :: "sn_env \<Rightarrow> SnClientState option \<Rightarrow> sn_state
    \<Rightarrow> bool \<times> wu_error option \<times> SnClientState option \<times> sn_state" where
  "SnOnUnregisterClient env state s =
     (case state of
        None \<Rightarrow> (False, None, state, s)
      | Some st \<Rightarrow>
          if cs_statusAndType st = SN_NO_TRANSACTION then (True, None, state, s)
          else if cs_statusAndType st = SN_COMPLETED_TRANSACTION then (True, None, state, s)
          else (case SnOnTransactionEnd env state s of (ok, e, state', s', _) \<Rightarrow> (ok, e, state', s')))"

end
