(* ===== verification/SnapshotApi.thy ===== *)
theory SnapshotApi
  imports SnapshotOps
begin

text \<open>
  The public functions of \<^verbatim>\<open>kernel/sm/wu/wusnapshots.cpp\<close> that serve checkpoints, commits and the
  versions module: garbage requests, advancing snapshots, checkpoints, the enumeration of versions and
  the expansion of a block's version header.
\<close>

section \<open>Commits and advancing\<close>

fun submit_all :: "sn_env \<Rightarrow> entry_snapshot \<Rightarrow> SnRequestForGc list \<Rightarrow> sn_state \<Rightarrow> sn_result" where
  "submit_all env pSn [] s = (None, s)"
| "submit_all env pSn (r # rs) s =
     (case SubmitRequestForGc env pSn r s of
        (None, s') \<Rightarrow> submit_all env pSn rs s'
      | (Some e, s') \<Rightarrow> (Some e, s'))"

text \<open>The first snapshot from the current one on that is not younger than the timestamp.\<close>

definition entry_for :: "sn_state \<Rightarrow> TIMESTAMP \<Rightarrow> nat option" where
  "entry_for s ts =
     (case GetCurrentSnapshot s of
        None \<Rightarrow> None
      | Some c \<Rightarrow> map_option (\<lambda>j. c + j) (position (\<lambda>sn. \<not> sn_timestamp sn > ts) (drop c (sl_snapshots s))))"

definition SnSubmitRequestForGc :: "sn_env \<Rightarrow> TIMESTAMP \<Rightarrow> SnRequestForGc list \<Rightarrow> sn_state \<Rightarrow> sn_result" where
  "SnSubmitRequestForGc env currentSnapshotTs buf s =
     (if \<not> IsValidTimestamp currentSnapshotTs \<and> currentSnapshotTs \<noteq> INVALID_TIMESTAMP then (Some WUERR_BAD_TIMESTAMP, s)
      else let entrySn = (case entry_for s currentSnapshotTs of
                            None \<Rightarrow> Infinipast
                          | Some i \<Rightarrow> if env_disableVersions env then Infinipast else At i)
           in submit_all env entrySn buf s)"

definition SnPurifySnapshots :: "sn_env \<Rightarrow> sn_state \<Rightarrow> sn_result" where
  "SnPurifySnapshots env s = PurifySnapshots env True s"

definition SnTryAdvanceSnapshots :: "sn_env \<Rightarrow> sn_state \<Rightarrow> wu_error option \<times> TIMESTAMP \<times> sn_state" where
  "SnTryAdvanceSnapshots env s =
     (case PurifySnapshots env False s of
        (Some e, s1) \<Rightarrow> (Some e, INVALID_TIMESTAMP, s1)
      | (None, s1) \<Rightarrow>
          if \<not> EnsureCanAdvanceSnapshots s1 then (Some WUERR_MAX_NUMBER_OF_SNAPSHOTS_EXCEEDED, INVALID_TIMESTAMP, s1)
          else (case WuGetTimestamp s1 of
                  (Some e, _, s2) \<Rightarrow> (Some e, INVALID_TIMESTAMP, s2)
                | (None, ts, s2) \<Rightarrow>
                    (case CreateSnapshot env s2 ts SN_REGULAR_SNAPSHOT of
                       (None, s3) \<Rightarrow> (None, ts, s3\<lparr>sl_runawayCount := 0\<rparr>)
                     | (Some e, s3) \<Rightarrow> (Some e, INVALID_TIMESTAMP, s3))))"

section \<open>Checkpoints\<close>

definition SnOnBeginCheckpoint :: "sn_state \<Rightarrow> wu_error option \<times> TIMESTAMP \<times> sn_state" where
  "SnOnBeginCheckpoint s =
     (if GetSnapshotByType s [SN_PREV_PERSISTENT_SNAPSHOT] \<noteq> None
      then (Some WUERR_FUNCTION_INVALID_IN_THIS_STATE, INVALID_TIMESTAMP, s)
      else (case GetCurrentSnapshot s of
              None \<Rightarrow> (Some WUERR_NO_SNAPSHOTS_EXIST, INVALID_TIMESTAMP, s)
            | Some c \<Rightarrow>
                if sn_type (sl_snapshots s ! c) \<noteq> SN_REGULAR_SNAPSHOT
                then (Some WUERR_SNAPSHOT_ALREADY_PERSISTENT, INVALID_TIMESTAMP, s)
                else let s1 = (case GetSnapshotByType s [SN_PERSISTENT_SNAPSHOT] of
                                 None \<Rightarrow> s
                               | Some p \<Rightarrow> set_snapshot p (\<lambda>sn. sn\<lparr>sn_type := SN_PREV_PERSISTENT_SNAPSHOT\<rparr>) s)
                     in (None, sn_timestamp (sl_snapshots s ! c), set_snapshot c (\<lambda>sn. sn\<lparr>sn_type := SN_PERSISTENT_SNAPSHOT\<rparr>) s1)))"

definition SnOnCompleteCheckpoint :: "sn_env \<Rightarrow> sn_state \<Rightarrow> sn_result" where
  "SnOnCompleteCheckpoint env s =
     (if GetSnapshotByType s [SN_PERSISTENT_SNAPSHOT] = None then (Some WUERR_FUNCTION_INVALID_IN_THIS_STATE, s)
      else PurifySnapshots env True
             (case GetSnapshotByType s [SN_PREV_PERSISTENT_SNAPSHOT] of
                None \<Rightarrow> s
              | Some p \<Rightarrow> set_snapshot p (\<lambda>sn. sn\<lparr>sn_type := SN_REGULAR_SNAPSHOT\<rparr>) s))"

section \<open>Reading the state\<close>

definition persistent_ts :: "sn_state \<Rightarrow> TIMESTAMP" where
  "persistent_ts s = (case GetSnapshotByType s [SN_PERSISTENT_SNAPSHOT] of
                        None \<Rightarrow> INVALID_TIMESTAMP | Some p \<Rightarrow> sn_timestamp (sl_snapshots s ! p))"

definition SnGetSnapshotTimestamps :: "sn_env \<Rightarrow> sn_state \<Rightarrow> TIMESTAMP \<times> TIMESTAMP" where
  "SnGetSnapshotTimestamps env s = (if env_disableVersions env then INVALID_TIMESTAMP else current_ts s, persistent_ts s)"

record SnSnapshotStats =
  ss_curSnapshotTs :: TIMESTAMP
  ss_persSnapshotTs :: TIMESTAMP
  ss_versionsCount :: nat
  ss_runawayVersionsCount :: nat
  ss_curSnapshotVersionsCount :: nat
  ss_curSnapshotSharedVersionsCount :: nat
  ss_persSnapshotVersionsCount :: nat
  ss_persSnapshotSharedVersionsCount :: nat
  ss_isSnapshotSlotAvalible :: bool

text \<open>On a failure the fields other than the timestamps and the slot keep what \<open>st\<close> had.\<close>

definition SnGatherSnapshotStats :: "sn_env \<Rightarrow> SnSnapshotStats \<Rightarrow> sn_state \<Rightarrow> bool \<times> SnSnapshotStats" where
  "SnGatherSnapshotStats env st s =
     (let (curTs, persTs) = SnGetSnapshotTimestamps env s;
          (ok1, statsCur) = GatherInternalStats s curTs;
          (ok2, statsPers) = GatherInternalStats s persTs;
          st1 = st\<lparr>ss_curSnapshotTs := curTs, ss_persSnapshotTs := persTs\<rparr>;
          st2 = (if ok1 \<and> ok2
                 then st1\<lparr>ss_versionsCount := st_nVersions statsCur,
                          ss_runawayVersionsCount := sl_runawayCount s,
                          ss_curSnapshotVersionsCount := st_nSnapshotVersions statsCur,
                          ss_curSnapshotSharedVersionsCount := st_nSnapshotSharedVersions statsCur,
                          ss_persSnapshotVersionsCount := st_nSnapshotVersions statsPers,
                          ss_persSnapshotSharedVersionsCount := st_nSnapshotSharedVersions statsPers\<rparr>
                 else st1)
      in (ok1 \<and> ok2,
          st2\<lparr>ss_isSnapshotSlotAvalible := (if env_disableVersions env then False else EnsureCanAdvanceSnapshots s)\<rparr>))"

definition SnGetTransactionStatusAndType :: "SnClientState option \<Rightarrow> tr_kind option" where
  "SnGetTransactionStatusAndType state = map_option cs_statusAndType state"

definition SnGetTransactionSnapshotTs :: "SnClientState option \<Rightarrow> TIMESTAMP option" where
  "SnGetTransactionSnapshotTs state =
     map_option (\<lambda>st. if cs_statusAndType st = SN_READ_ONLY_TRANSACTON then cs_timestamp st else INVALID_TIMESTAMP) state"

definition SnGetTransactionTs :: "SnClientState option \<Rightarrow> TIMESTAMP option" where
  "SnGetTransactionTs state =
     map_option (\<lambda>st. if cs_statusAndType st = SN_UPDATER_TRANSACTION then cs_timestamp st else INVALID_TIMESTAMP) state"

definition SnGetDamagedTimestamps :: "sn_state \<Rightarrow> TIMESTAMP list" where
  "SnGetDamagedTimestamps s =
     (case GetCurrentSnapshot s of
        None \<Rightarrow> []
      | Some c \<Rightarrow> map sn_timestamp (filter sn_isDamaged (drop c (sl_snapshots s))))"

fun damage_loop :: "TIMESTAMP \<Rightarrow> SnSnapshot list \<Rightarrow> wu_error option \<times> SnSnapshot list" where
  "damage_loop from [] = (None, [])"
| "damage_loop from (sn # sns) =
     (if sn_timestamp sn \<le> from then
        (if sn_occupancy sn > 0 then (Some WUERR_UNABLE_TO_DAMAGE_SNAPSHOT_IN_USE, sn # sns)
         else (case damage_loop from sns of (e, sns') \<Rightarrow> (e, sn\<lparr>sn_isDamaged := True\<rparr> # sns')))
      else (case damage_loop from sns of (e, sns') \<Rightarrow> (e, sn # sns')))"

definition SnDamageSnapshots :: "sn_env \<Rightarrow> TIMESTAMP \<Rightarrow> sn_state \<Rightarrow> sn_result" where
  "SnDamageSnapshots env timestampFrom s =
     (if \<not> IsValidTimestamp timestampFrom then (Some WUERR_BAD_TIMESTAMP, s)
      else if env_disableVersions env then (Some WUERR_VERSIONS_DISABLED, s)
      else (case GetCurrentSnapshot s of
              None \<Rightarrow> (None, s)
            | Some c \<Rightarrow>
                (case damage_loop timestampFrom (drop c (sl_snapshots s)) of
                   (e, sns) \<Rightarrow> (e, s\<lparr>sl_snapshots := take c (sl_snapshots s) @ sns\<rparr>))))"

end
