(* ===== verification/SnapshotInv.thy ===== *)
theory SnapshotInv
  imports SnapshotApi
begin

text \<open>
  The invariant of the snapshots module and its preservation by every operation: the chains keep their
  triangular shape, unused snapshots stand before the others, the others are ordered by strictly
  decreasing timestamps below the clock, and their views fit together - a transaction that was active
  for a younger snapshot and had started before an older one was active for the older one, too.
\<close>

section \<open>The invariant\<close>

definition is_future :: "SnSnapshot \<Rightarrow> bool" where
  "is_future sn \<longleftrightarrow> sn_type sn = SN_FUTURE_SNAPSHOT"

definition newer :: "SnSnapshot \<Rightarrow> SnSnapshot \<Rightarrow> bool" where
  "newer a b \<longleftrightarrow> sn_timestamp b < sn_timestamp a \<and> (\<forall>t\<in>set (sn_active a). t \<le> sn_timestamp b \<longrightarrow> t \<in> set (sn_active b))"

definition real_ok :: "TIMESTAMP \<Rightarrow> TIMESTAMP list \<Rightarrow> SnSnapshot \<Rightarrow> bool" where
  "real_ok clock act sn \<longleftrightarrow> IsValidTimestamp (sn_timestamp sn) \<and> sn_timestamp sn < clock
     \<and> sorted (sn_active sn) \<and> (\<forall>t\<in>set act. t \<le> sn_timestamp sn \<longrightarrow> t \<in> set (sn_active sn))"

definition bodies_ok :: "TIMESTAMP \<Rightarrow> TIMESTAMP list \<Rightarrow> SnSnapshot list \<Rightarrow> bool" where
  "bodies_ok clock act sns \<longleftrightarrow>
     (\<exists>F R. sns = F @ R \<and> (\<forall>sn\<in>set F. is_future sn \<and> sn_timestamp sn = INVALID_TIMESTAMP)
        \<and> (\<forall>sn\<in>set R. \<not> is_future sn \<and> real_ok clock act sn) \<and> sorted_wrt newer R)"

definition active_ok :: "TIMESTAMP \<Rightarrow> TIMESTAMP list \<Rightarrow> bool" where
  "active_ok clock act \<longleftrightarrow> sorted_wrt (<) act \<and> (\<forall>t\<in>set act. t < clock)"

definition sn_inv :: "sn_state \<Rightarrow> bool" where
  "sn_inv s \<longleftrightarrow> triangular (chains_of (sl_snapshots s)) \<and> active_ok (sl_clock s) (sl_activeTs s)
     \<and> bodies_ok (sl_clock s) (sl_activeTs s) (map sn_body (sl_snapshots s))"

lemma sn_body_simps [simp]:
  "sn_timestamp (sn_body sn) = sn_timestamp sn" "sn_active (sn_body sn) = sn_active sn" "sn_type (sn_body sn) = sn_type sn"
  "sn_occupancy (sn_body sn) = sn_occupancy sn" "sn_isDamaged (sn_body sn) = sn_isDamaged sn" "is_future (sn_body sn) = is_future sn"
  "newer (sn_body a) b = newer a b" "newer a (sn_body b) = newer a b" "real_ok c act (sn_body sn) = real_ok c act sn"
  by (simp_all add: sn_body_def is_future_def newer_def real_ok_def)

lemma sn_invE:
  assumes "sn_inv s"
  obtains F R where "sl_snapshots s = F @ R" "\<forall>sn\<in>set F. is_future sn \<and> sn_timestamp sn = INVALID_TIMESTAMP"
    "\<forall>sn\<in>set R. \<not> is_future sn \<and> real_ok (sl_clock s) (sl_activeTs s) sn" "sorted_wrt newer R"
proof -
  from assms obtain F R where fr: "map sn_body (sl_snapshots s) = F @ R"
    and f: "\<forall>sn\<in>set F. is_future sn \<and> sn_timestamp sn = INVALID_TIMESTAMP"
    and r: "\<forall>sn\<in>set R. \<not> is_future sn \<and> real_ok (sl_clock s) (sl_activeTs s) sn" "sorted_wrt newer R"
    by (auto simp: sn_inv_def bodies_ok_def)
  from fr obtain F' R' where fr': "sl_snapshots s = F' @ R'" "F = map sn_body F'" "R = map sn_body R'"
    by (auto simp: map_eq_append_conv)
  show thesis by (rule that[OF fr'(1)]) (use f r fr' in \<open>auto simp: sorted_wrt_map\<close>)
qed

lemma sn_invI:
  assumes "triangular (chains_of (sl_snapshots s))" "active_ok (sl_clock s) (sl_activeTs s)"
    "map sn_body (sl_snapshots s) = map sn_body (F @ R)" "\<forall>sn\<in>set F. is_future sn \<and> sn_timestamp sn = INVALID_TIMESTAMP"
    "\<forall>sn\<in>set R. \<not> is_future sn \<and> real_ok (sl_clock s) (sl_activeTs s) sn" "sorted_wrt newer R"
  shows "sn_inv s"
proof -
  have "bodies_ok (sl_clock s) (sl_activeTs s) (map sn_body F @ map sn_body R)"
    unfolding bodies_ok_def using assms(4-6) by (intro exI[of _ "map sn_body F"] exI[of _ "map sn_body R"]) (auto simp: sorted_wrt_map)
  then show ?thesis using assms(1-3) by (simp add: sn_inv_def)
qed

section \<open>Finding snapshots\<close>

lemma not_future_iff: "sn_type sn \<in> set not_future \<longleftrightarrow> \<not> is_future sn"
  by (cases "sn_type sn") (simp_all add: not_future_def is_future_def)

lemma position_append: "\<forall>x\<in>set xs. \<not> P x \<Longrightarrow> position P (xs @ ys) = map_option (\<lambda>j. length xs + j) (position P ys)"
proof (induction xs)
  case Nil
  show ?case by (cases "position P ys") simp_all
next
  case (Cons x xs)
  then show ?case by (cases "position P ys") simp_all
qed

lemma GetCurrentSnapshot_split:
  assumes "sl_snapshots s = F @ R" "\<forall>sn\<in>set F. is_future sn" "\<forall>sn\<in>set R. \<not> is_future sn"
  shows "GetCurrentSnapshot s = (if R = [] then None else Some (length F))"
  using assms by (cases R) (auto simp: GetCurrentSnapshot_def GetSnapshotByType_def not_future_iff position_append position_None)

text \<open>A timestamp determines the position of its snapshot.\<close>

lemma GetSnapshotByTimestamp_split:
  assumes "sl_snapshots s = F @ R1 @ x # R2" "\<forall>sn\<in>set F. sn_timestamp sn = INVALID_TIMESTAMP"
    "IsValidTimestamp (sn_timestamp x)" "sorted_wrt newer (R1 @ x # R2)"
  shows "GetSnapshotByTimestamp s (sn_timestamp x) = Some (length F + length R1)"
proof -
  have f: "\<forall>sn\<in>set F. sn_timestamp sn \<noteq> sn_timestamp x" using assms(2,3) special_timestamps(1) by auto
  have r: "\<forall>sn\<in>set R1. sn_timestamp sn \<noteq> sn_timestamp x" using assms(4) by (auto simp: sorted_wrt_append newer_def)
  show ?thesis unfolding GetSnapshotByTimestamp_def assms(1)
    using f r by (simp add: position_append)
qed

lemma GetSnapshotByTimestamp_real:
  assumes inv: "sn_inv s" and g: "GetSnapshotByTimestamp s ts = Some i" and nf: "\<not> is_future (sl_snapshots s ! i)"
  obtains F R1 R2 where "sl_snapshots s = F @ R1 @ (sl_snapshots s ! i) # R2" "i = length F + length R1"
    "\<forall>sn\<in>set F. is_future sn \<and> sn_timestamp sn = INVALID_TIMESTAMP"
    "\<forall>sn\<in>set (R1 @ (sl_snapshots s ! i) # R2). \<not> is_future sn \<and> real_ok (sl_clock s) (sl_activeTs s) sn"
    "sorted_wrt newer (R1 @ (sl_snapshots s ! i) # R2)"
proof -
  obtain F R where fr: "sl_snapshots s = F @ R" "\<forall>sn\<in>set F. is_future sn \<and> sn_timestamp sn = INVALID_TIMESTAMP"
    "\<forall>sn\<in>set R. \<not> is_future sn \<and> real_ok (sl_clock s) (sl_activeTs s) sn" "sorted_wrt newer R"
    by (rule sn_invE[OF inv])
  have i: "i < length (F @ R)" using g position_Some fr(1) by (fastforce simp: GetSnapshotByTimestamp_def)
  have "\<not> i < length F" using nf fr by (auto simp: nth_append)
  then have j: "i - length F < length R" "sl_snapshots s ! i = R ! (i - length F)" "length F \<le> i"
    using i fr(1) by (auto simp: nth_append)
  have "R = take (i - length F) R @ (sl_snapshots s ! i) # drop (Suc (i - length F)) R"
    using j by (simp add: id_take_nth_drop)
  then show thesis using that[of F "take (i - length F) R" "drop (Suc (i - length F)) R"] fr j by simp
qed

section \<open>Discarding keeps the invariant\<close>

lemma discarded_inv:
  assumes inv: "sn_inv s" and g: "GetSnapshotByTimestamp s ts = Some v" and nf: "\<not> is_future (sl_snapshots s ! v)" and d: "discarded v s s'"
  shows "sn_inv s'"
proof -
  obtain F R1 R2 where fr: "sl_snapshots s = F @ R1 @ (sl_snapshots s ! v) # R2" "v = length F + length R1"
    "\<forall>sn\<in>set F. is_future sn \<and> sn_timestamp sn = INVALID_TIMESTAMP"
    "\<forall>sn\<in>set (R1 @ (sl_snapshots s ! v) # R2). \<not> is_future sn \<and> real_ok (sl_clock s) (sl_activeTs s) sn"
    "sorted_wrt newer (R1 @ (sl_snapshots s ! v) # R2)"
    by (rule GetSnapshotByTimestamp_real[OF inv g nf])
  let ?x = "reset_snapshot (sl_snapshots s ! v)"
  have "take v (sl_snapshots s) @ drop (Suc v) (sl_snapshots s) = F @ R1 @ R2"
    by (subst (1 2) fr(1)) (simp add: fr(2))
  then have b: "map sn_body (sl_snapshots s') = map sn_body ((?x # F) @ (R1 @ R2))"
    using d by (simp add: discarded_def Let_def) (metis map_append)
  have s': "sl_clock s' = sl_clock s" "sl_activeTs s' = sl_activeTs s" and tri: "triangular (chains_of (sl_snapshots s'))"
    using d by (auto simp: discarded_def Let_def intro: arg_cong[where f = sl_clock] arg_cong[where f = sl_activeTs])
  show ?thesis
    by (rule sn_invI[OF tri _ b])
       (use fr inv s' in \<open>auto simp: sn_inv_def reset_snapshot_def is_future_def sorted_wrt_append\<close>)
qed

section \<open>Changes the invariant does not see\<close>

definition sn_key :: "SnSnapshot \<Rightarrow> bool \<times> TIMESTAMP \<times> TIMESTAMP list \<times> nat" where
  "sn_key sn = (is_future sn, sn_timestamp sn, sn_active sn, length (sn_gcChain sn))"

lemma sn_keyD:
  assumes "sn_key a = sn_key b"
  shows "is_future a = is_future b" "sn_timestamp a = sn_timestamp b" "sn_active a = sn_active b" "length (sn_gcChain a) = length (sn_gcChain b)"
  using assms by (simp_all add: sn_key_def)

lemma key_all:
  assumes "map sn_key as = map sn_key bs" "\<forall>a\<in>set as. P a" "\<And>a b. sn_key a = sn_key b \<Longrightarrow> P a \<Longrightarrow> P b"
  shows "\<forall>b\<in>set bs. P b"
proof
  fix b assume "b \<in> set bs"
  then have "sn_key b \<in> set (map sn_key as)" unfolding assms(1) by simp
  then obtain a where "a \<in> set as" "sn_key a = sn_key b" by auto
  with assms(2,3) show "P b" by blast
qed

lemma key_sorted:
  assumes "map sn_key as = map sn_key bs" "sorted_wrt newer as"
  shows "sorted_wrt newer bs"
proof -
  define N where "N = (\<lambda>(f :: bool, t :: TIMESTAMP, a :: TIMESTAMP list, n :: nat) (f' :: bool, t', a', n' :: nat).
      t' < t \<and> (\<forall>x\<in>set a. x \<le> t' \<longrightarrow> x \<in> set a'))"
  have N: "newer = (\<lambda>a b. N (sn_key a) (sn_key b))" by (intro ext) (simp add: newer_def N_def sn_key_def)
  have "sorted_wrt N (map sn_key as)" using assms(2) by (simp add: sorted_wrt_map N)
  then show ?thesis unfolding assms(1) by (simp add: sorted_wrt_map N)
qed

lemma tri_from_lengths: "map length cs = map length cs' \<Longrightarrow> tri_from n cs \<Longrightarrow> tri_from n cs'"
  by (induction cs cs' arbitrary: n rule: list_induct2') auto

lemma sn_inv_same:
  assumes inv: "sn_inv s" and k: "map sn_key (sl_snapshots s') = map sn_key (sl_snapshots s)"
    and s': "sl_clock s' = sl_clock s" "sl_activeTs s' = sl_activeTs s"
  shows "sn_inv s'"
proof -
  obtain F R where fr: "sl_snapshots s = F @ R" "\<forall>sn\<in>set F. is_future sn \<and> sn_timestamp sn = INVALID_TIMESTAMP"
    "\<forall>sn\<in>set R. \<not> is_future sn \<and> real_ok (sl_clock s) (sl_activeTs s) sn" "sorted_wrt newer R"
    by (rule sn_invE[OF inv])
  from k fr(1) obtain F' R' where fr': "sl_snapshots s' = F' @ R'" "map sn_key F = map sn_key F'" "map sn_key R = map sn_key R'"
    by (auto simp: map_eq_append_conv)
  have l: "map length (chains_of (sl_snapshots s)) = map length (chains_of (sl_snapshots s'))"
    using arg_cong[OF k, of "map (\<lambda>(f, t, a, n). n)"] by (simp add: sn_key_def chains_of_def o_def)
  have tri: "triangular (chains_of (sl_snapshots s'))"
    unfolding triangular_def by (rule tri_from_lengths[OF l]) (use inv in \<open>simp add: sn_inv_def triangular_def\<close>)
  have F: "\<forall>sn\<in>set F'. is_future sn \<and> sn_timestamp sn = INVALID_TIMESTAMP"
    by (rule key_all[OF fr'(2) fr(2)]) (auto dest: sn_keyD)
  have R: "\<forall>sn\<in>set R'. \<not> is_future sn \<and> real_ok (sl_clock s) (sl_activeTs s) sn"
    by (rule key_all[OF fr'(3) fr(3)]) (simp add: real_ok_def sn_key_def)
  show ?thesis
    by (rule sn_invI[OF tri, of F' R']) (use inv s' fr'(1) F R key_sorted[OF fr'(3) fr(4)] in \<open>simp_all add: sn_inv_def\<close>)
qed

lemma set_snapshot_inv:
  assumes "sn_inv s" "sn_key (f (sl_snapshots s ! i)) = sn_key (sl_snapshots s ! i)"
  shows "sn_inv (set_snapshot i f s)"
proof (rule sn_inv_same[OF assms(1)])
  show "map sn_key (sl_snapshots (set_snapshot i f s)) = map sn_key (sl_snapshots s)"
    unfolding set_snapshot_def using assms(2) by (simp add: map_update) (metis list_update_id map_update)
qed (simp_all add: set_snapshot_def)

lemma partly_purged_inv:
  assumes "sn_inv s" "partly_purged v s s'"
  shows "sn_inv s'"
proof -
  from assms(2) obtain own rest l and d :: "SnVersionEntry list" where own: "sn_gcChain (sl_snapshots s ! v) = own # rest"
    and s': "s' = (set_snapshot v (\<lambda>sn. sn\<lparr>sn_gcChain := own\<lparr>gn_entries := l\<rparr> # rest\<rparr>) s)\<lparr>sl_freed := sl_freed s @ map ve_xptr d\<rparr>"
    unfolding partly_purged_def by blast
  have "sn_inv (set_snapshot v (\<lambda>sn. sn\<lparr>sn_gcChain := own\<lparr>gn_entries := l\<rparr> # rest\<rparr>) s)"
    by (rule set_snapshot_inv[OF assms(1)]) (simp add: own sn_key_def is_future_def)
  then show ?thesis unfolding s' by (rule sn_inv_same) simp_all
qed

section \<open>What a timestamp refers to\<close>

definition snapshot_at :: "sn_state \<Rightarrow> TIMESTAMP \<Rightarrow> SnSnapshot option" where
  "snapshot_at s ts = map_option (\<lambda>i. sn_body (sl_snapshots s ! i)) (GetSnapshotByTimestamp s ts)"

definition versions_of :: "sn_state \<Rightarrow> TIMESTAMP \<Rightarrow> SnVersionEntry multiset" where
  "versions_of s ts = (case GetSnapshotByTimestamp s ts of None \<Rightarrow> {#} | Some p \<Rightarrow> seen node_versions p 0 (chains_of (sl_snapshots s)))"

lemma position_move:
  assumes "v < length xs" "\<not> P (xs ! v)" "\<not> P x"
  shows "position P (x # take v xs @ drop (Suc v) xs) = map_option (\<lambda>p. if p < v then Suc p else p) (position P xs)"
proof (cases "position P (take v xs)")
  case (Some p)
  then have p: "p < v" "P (xs ! p)" "\<forall>j<p. \<not> P (xs ! j)" using position_Some[OF Some] assms(1) by auto
  have "position P xs = Some p" by (rule position_first) (use p assms(1) in auto)
  moreover have "position P (take v xs @ drop (Suc v) xs) = Some p"
    by (rule position_first) (use p assms(1) in \<open>auto simp: nth_append\<close>)
  ultimately show ?thesis using assms(3) p by simp
next
  case None
  then have n: "\<forall>y\<in>set (take v xs). \<not> P y" by (simp add: position_None)
  have "position P xs = position P (take v xs @ xs ! v # drop (Suc v) xs)" using assms(1) id_take_nth_drop[of v xs] by simp
  also have "\<dots> = map_option (\<lambda>j. Suc (v + j)) (position P (drop (Suc v) xs))"
    using assms n by (simp add: position_append option.map_comp o_def)
  finally show ?thesis using assms n by (simp add: position_append option.map_comp o_def cong: option.map_cong)
qed

lemma discarded_others:
  assumes g: "GetSnapshotByTimestamp s ts0 = Some v" and d: "discarded v s s'" and ts: "IsValidTimestamp ts" "ts \<noteq> ts0"
  shows "snapshot_at s' ts = snapshot_at s ts" "versions_of s' ts = versions_of s ts"
proof -
  let ?x = "reset_snapshot (sl_snapshots s ! v)" and ?l = "sl_snapshots s"
  have v: "v < length ?l" "sn_timestamp (?l ! v) = ts0" using position_Some g by (auto simp: GetSnapshotByTimestamp_def)
  have b: "map sn_body (sl_snapshots s') = map sn_body (?x # take v ?l @ drop (Suc v) ?l)" using d by (simp add: discarded_def Let_def)
  have len: "length (sl_snapshots s') = length ?l" using arg_cong[OF b, of length] v by simp
  have pm: "position (\<lambda>sn. sn_timestamp sn = ts) xs = position (\<lambda>sn. sn_timestamp sn = ts) (map sn_body xs)" for xs
    by (induction xs) auto
  have x: "sn_timestamp ?x \<noteq> ts" using ts(1) special_timestamps(1) by (auto simp: reset_snapshot_def)
  have G: "GetSnapshotByTimestamp s' ts = map_option (\<lambda>p. if p < v then Suc p else p) (GetSnapshotByTimestamp s ts)"
  proof -
    let ?P = "\<lambda>sn. sn_timestamp sn = ts"
    have "position ?P (sl_snapshots s') = position ?P (map sn_body (?x # take v ?l @ drop (Suc v) ?l))"
      unfolding b[symmetric] by (rule pm)
    also have "\<dots> = position ?P (?x # take v ?l @ drop (Suc v) ?l)" by (rule pm[symmetric])
    also have "\<dots> = map_option (\<lambda>p. if p < v then Suc p else p) (position ?P ?l)"
      by (rule position_move) (use v ts(2) x in auto)
    finally show ?thesis by (simp add: GetSnapshotByTimestamp_def)
  qed
  have bn: "sn_body (sl_snapshots s' ! (if p < v then Suc p else p)) = sn_body (?l ! p)" if "p \<noteq> v" "p < length ?l" for p
  proof -
    have "sn_body (sl_snapshots s' ! q) = map sn_body (?x # take v ?l @ drop (Suc v) ?l) ! q" if "q < length ?l" for q
      using that len b by (metis nth_map)
    then show ?thesis using that v by (cases "p < v") (auto simp: nth_append nth_Cons' min_absorb2)
  qed
  have pv: "p \<noteq> v" "p < length ?l" if "GetSnapshotByTimestamp s ts = Some p" for p
    using that position_Some v(2) ts(2) by (auto simp: GetSnapshotByTimestamp_def)
  show "snapshot_at s' ts = snapshot_at s ts"
    using G bn pv by (cases "GetSnapshotByTimestamp s ts") (auto simp: snapshot_at_def)
  show "versions_of s' ts = versions_of s ts"
    using G pv d by (cases "GetSnapshotByTimestamp s ts") (auto simp: versions_of_def discarded_def Let_def)
qed

section \<open>Every operation keeps the invariant\<close>

lemma DiscardSnapshot_inv:
  assumes inv: "sn_inv s" and d: "DiscardSnapshot env s ts = (e, s')"
  shows "sn_inv s' \<and> e \<noteq> Some WU_ASSERTION"
proof (cases "GetSnapshotByTimestamp s ts")
  case (Some v)
  show ?thesis
  proof (cases "sn_type (sl_snapshots s ! v) = SN_REGULAR_SNAPSHOT \<and> \<not> sn_occupancy (sl_snapshots s ! v) > 0")
    case True
    have tri: "triangular (chains_of (sl_snapshots s))" using inv by (simp add: sn_inv_def)
    have nf: "\<not> is_future (sl_snapshots s ! v)" using True by (simp add: is_future_def)
    have reg: "sn_type (sl_snapshots s ! v) = SN_REGULAR_SNAPSHOT" and occ: "\<not> sn_occupancy (sl_snapshots s ! v) > 0" using True by auto
    show ?thesis
    proof (rule DiscardSnapshot_cases[OF tri Some reg occ, of env])
      fix s1 assume "DiscardSnapshot env s ts = (None, s1)" "discarded v s s1"
      with discarded_inv[OF inv Some nf] d show ?thesis by simp
    next
      fix s1 assume "DiscardSnapshot env s ts = (Some WUERR_CALLBACK, s1)" "partly_purged v s s1"
      with partly_purged_inv[OF inv] d show ?thesis by auto
    qed
  qed (use Some d inv in \<open>auto simp: DiscardSnapshot_def Let_def split: if_splits\<close>)
qed (use d inv in \<open>auto simp: DiscardSnapshot_def\<close>)

text \<open>One round of the loop, with the callbacks of \<^verbatim>\<open>wu.cpp\<close> worked in.\<close>

definition kept :: "SnSnapshot \<Rightarrow> bool" where
  "kept sn \<longleftrightarrow> sn_occupancy sn \<noteq> 0 \<or> sn_type sn \<noteq> SN_REGULAR_SNAPSHOT"

lemma purify_loop_Suc:
  "purify_loop env (Suc n) i s =
     (if kept (sl_snapshots s ! i) then purify_loop env n (Suc i) s
      else case DiscardSnapshot env s (sn_timestamp (sl_snapshots s ! i)) of
             (None, s') \<Rightarrow> purify_loop env n (Suc i) s'
           | (Some e, s') \<Rightarrow> (Some e, s'))"
  by (cases "kept (sl_snapshots s ! i)") (simp_all add: kept_def Let_def OnBeforeDiscardSnapshot_def OnDiscardSnapshot_def)

lemma purify_loop_inv:
  "sn_inv s \<Longrightarrow> purify_loop env n i s = (e, s') \<Longrightarrow> sn_inv s' \<and> e \<noteq> Some WU_ASSERTION"
proof (induction n arbitrary: i s)
  case (Suc n)
  obtain e1 s1 where d: "DiscardSnapshot env s (sn_timestamp (sl_snapshots s ! i)) = (e1, s1)" by fastforce
  note i1 = DiscardSnapshot_inv[OF Suc.prems(1) d]
  show ?case
  proof (cases "kept (sl_snapshots s ! i) \<or> e1 = None")
    case True
    then obtain s2 where "sn_inv s2" "purify_loop env n (Suc i) s2 = (e, s')"
      using Suc.prems i1 d unfolding purify_loop_Suc by (cases "kept (sl_snapshots s ! i)") auto
    then show ?thesis by (rule Suc.IH)
  next
    case False
    with Suc.prems i1 d show ?thesis unfolding purify_loop_Suc by auto
  qed
qed simp

lemma AutoDamage_inv: "sn_inv s \<Longrightarrow> sn_inv (AutoDamageSnapshotsAndScanForGarbage s b)"
proof (rule sn_inv_same)
  have k: "map sn_key (map (\<lambda>sn. if sn_occupancy sn = 0 then sn\<lparr>sn_isDamaged := True\<rparr> else sn) xs) = map sn_key xs" for xs
    by (induction xs) (auto simp: sn_key_def is_future_def)
  have k2: "map sn_key (take i xs @ map (\<lambda>sn. if sn_occupancy sn = 0 then sn\<lparr>sn_isDamaged := True\<rparr> else sn) (drop i xs)) = map sn_key xs" for i xs
    unfolding map_append k by (simp flip: map_append)
  show "map sn_key (sl_snapshots (AutoDamageSnapshotsAndScanForGarbage s b)) = map sn_key (sl_snapshots s)"
    by (simp add: AutoDamageSnapshotsAndScanForGarbage_def Let_def k2 del: map_append split: option.split)
qed (simp_all add: AutoDamageSnapshotsAndScanForGarbage_def Let_def split: option.split)

lemma PurifySnapshots_inv:
  assumes "sn_inv s" "PurifySnapshots env b s = (e, s')"
  shows "sn_inv s' \<and> e \<noteq> Some WU_ASSERTION"
proof -
  define start where "start = (case GetCurrentSnapshot s of None \<Rightarrow> length (sl_snapshots s) | Some c \<Rightarrow> if b then Suc c else c)"
  obtain e1 s1 where l: "purify_loop env (length (sl_snapshots s) - start) start s = (e1, s1)" by fastforce
  show ?thesis using purify_loop_inv[OF assms(1) l] assms(2) l AutoDamage_inv[of s1 b]
    by (cases e1) (auto simp: PurifySnapshots_def Let_def start_def)
qed

section \<open>Creating a snapshot\<close>

text \<open>The last unused snapshot becomes the youngest one in use.\<close>

lemma CreateSnapshot_cases:
  assumes inv: "sn_inv s" and c: "CreateSnapshot env s ts kind = (None, s')"
  obtains F x R where "sl_snapshots s = F @ x # R" "\<forall>sn\<in>set (F @ [x]). is_future sn \<and> sn_timestamp sn = INVALID_TIMESTAMP"
    "\<forall>sn\<in>set R. \<not> is_future sn \<and> real_ok (sl_clock s) (sl_activeTs s) sn" "sorted_wrt newer R" "IsValidTimestamp ts"
    "s' = s\<lparr>sl_snapshots := F @ x\<lparr>sn_timestamp := ts, sn_active := sl_activeTs s, sn_type := kind,
            sn_occupancy := 0, sn_isDamaged := False\<rparr> # R\<rparr>"
proof -
  obtain F R where fr: "sl_snapshots s = F @ R" "\<forall>sn\<in>set F. is_future sn \<and> sn_timestamp sn = INVALID_TIMESTAMP"
    "\<forall>sn\<in>set R. \<not> is_future sn \<and> real_ok (sl_clock s) (sl_activeTs s) sn" "sorted_wrt newer R"
    by (rule sn_invE[OF inv])
  have g: "GetSnapshotByType s not_future = (if R = [] then None else Some (length F))"
    using GetCurrentSnapshot_split[OF fr(1)] fr(2,3) by (simp add: GetCurrentSnapshot_def)
  have ne: "sl_snapshots s \<noteq> []" "is_future (hd (sl_snapshots s))" "IsValidTimestamp ts"
    using c by (auto simp: CreateSnapshot_def is_future_def split: if_splits)
  then have "F \<noteq> []" using fr by (cases F) auto
  then obtain F' x where F: "F = F' @ [x]" by (metis rev_exhaust)
  have "s' = set_snapshot (length F') (\<lambda>sn. sn\<lparr>sn_timestamp := ts, sn_active := sl_activeTs s, sn_type := kind,
            sn_occupancy := 0, sn_isDamaged := False\<rparr>) s"
    using c g F fr(1) by (auto simp: CreateSnapshot_def Let_def split: if_splits)
  then show thesis using that[of F' x R] fr F ne(3) by (simp add: set_snapshot_def)
qed

lemma CreateSnapshot_inv:
  assumes inv: "sn_inv s" and c: "CreateSnapshot env s ts kind = (None, s')" and k: "kind \<noteq> SN_FUTURE_SNAPSHOT"
    and ts: "ts < sl_clock s" and old: "\<forall>sn\<in>set (sl_snapshots s). \<not> is_future sn \<longrightarrow> sn_timestamp sn < ts"
  shows "sn_inv s'"
proof -
  obtain F x R where fr: "sl_snapshots s = F @ x # R" "\<forall>sn\<in>set (F @ [x]). is_future sn \<and> sn_timestamp sn = INVALID_TIMESTAMP"
    "\<forall>sn\<in>set R. \<not> is_future sn \<and> real_ok (sl_clock s) (sl_activeTs s) sn" "sorted_wrt newer R" "IsValidTimestamp ts"
    and s': "s' = s\<lparr>sl_snapshots := F @ x\<lparr>sn_timestamp := ts, sn_active := sl_activeTs s, sn_type := kind,
            sn_occupancy := 0, sn_isDamaged := False\<rparr> # R\<rparr>"
    by (rule CreateSnapshot_cases[OF inv c])
  let ?x = "x\<lparr>sn_timestamp := ts, sn_active := sl_activeTs s, sn_type := kind, sn_occupancy := 0, sn_isDamaged := False\<rparr>"
  have a: "sorted_wrt (<) (sl_activeTs s)" using inv by (simp add: sn_inv_def active_ok_def)
  have r: "\<not> is_future ?x" "real_ok (sl_clock s) (sl_activeTs s) ?x"
    using k ts fr(5) strict_sorted_imp_sorted[OF a] by (simp_all add: is_future_def real_ok_def)
  have n: "newer ?x y" if "y \<in> set R" for y using that fr(1,3) old by (auto simp: newer_def real_ok_def)
  have tri: "triangular (chains_of (sl_snapshots s'))" using inv fr(1) s' by (simp add: sn_inv_def chains_of_def)
  show ?thesis
    by (rule sn_invI[OF tri, of F "?x # R"]) (use inv fr r n s' in \<open>auto simp: sn_inv_def\<close>)
qed

section \<open>Garbage requests\<close>

lemma push_version_inv:
  assumes inv: "sn_inv s" and p: "push_version pSn level entry bogus s = (e, s')"
  shows "sn_inv s'"
  using p inv set_snapshot_inv[OF inv]
  by (auto simp: push_version_def sn_key_def is_future_def Let_def split: entry_snapshot.splits option.splits prod.splits)

lemma free_block_inv: "sn_inv s \<Longrightarrow> free_block env x s = (e, s') \<Longrightarrow> sn_inv s'"
  by (rule sn_inv_same[of s]) (auto simp: free_block_def split: if_splits)

lemma runaway_inv: "sn_inv s \<Longrightarrow> sn_inv (s\<lparr>sl_runawayCount := n\<rparr>)"
  by (rule sn_inv_same) simp_all

lemma SubmitRequestForGc_inv:
  assumes inv: "sn_inv s" and r: "SubmitRequestForGc env pSn req s = (e, s')"
  shows "sn_inv s'"
  using r push_version_inv[OF inv] free_block_inv[OF inv] free_block_inv[OF runaway_inv[OF inv]] inv
  unfolding SubmitRequestForGc_def by (auto split: if_splits option.splits request_type.splits prod.splits)

lemma submit_all_inv: "sn_inv s \<Longrightarrow> submit_all env pSn rs s = (e, s') \<Longrightarrow> sn_inv s'"
proof (induction rs arbitrary: s)
  case (Cons r rs)
  obtain e1 s1 where r: "SubmitRequestForGc env pSn r s = (e1, s1)" by fastforce
  show ?case using Cons.IH[of s1] SubmitRequestForGc_inv[OF Cons.prems(1) r] Cons.prems(2) r by (cases e1) auto
qed simp

lemma SnSubmitRequestForGc_inv: "sn_inv s \<Longrightarrow> SnSubmitRequestForGc env ts buf s = (e, s') \<Longrightarrow> sn_inv s'"
  by (auto simp: SnSubmitRequestForGc_def Let_def split: if_splits dest: submit_all_inv)

section \<open>Clients\<close>

lemma clock_ticks: "IsValidTimestamp c \<Longrightarrow> c < c + 1"
  by (simp add: IsValidTimestamp_def TIMESTAMP_MAX_def word_less_nat_alt word_le_nat_alt unat_word_ariths)

lemma WuGetTimestamp_inv:
  assumes "sn_inv s" "IsValidTimestamp (sl_clock s)"
  shows "sn_inv (s\<lparr>sl_clock := sl_clock s + 1\<rparr>)"
proof -
  note c = clock_ticks[OF assms(2)]
  obtain F R where fr: "sl_snapshots s = F @ R" "\<forall>sn\<in>set F. is_future sn \<and> sn_timestamp sn = INVALID_TIMESTAMP"
    "\<forall>sn\<in>set R. \<not> is_future sn \<and> real_ok (sl_clock s) (sl_activeTs s) sn" "sorted_wrt newer R"
    by (rule sn_invE[OF assms(1)])
  show ?thesis
    by (rule sn_invI[of _ F R]) (use assms(1) fr c in \<open>auto simp: sn_inv_def active_ok_def real_ok_def dest: less_trans\<close>)
qed

text \<open>A timestamp that the clock has just given out is younger than everything.\<close>

lemma AddActiveTimestamp_inv:
  assumes inv: "sn_inv s" and ts: "\<forall>t\<in>set (sl_activeTs s). t < ts" "ts < sl_clock s"
    and old: "\<forall>sn\<in>set (sl_snapshots s). \<not> is_future sn \<longrightarrow> sn_timestamp sn < ts"
  shows "sn_inv (snd (AddActiveTimestamp s ts))"
proof (cases "fst (AddActiveTimestamp s ts) = None")
  case True
  then have s': "snd (AddActiveTimestamp s ts) = s\<lparr>sl_activeTs := sl_activeTs s @ [ts]\<rparr>"
    by (auto simp: AddActiveTimestamp_def split: if_splits)
  obtain F R where fr: "sl_snapshots s = F @ R" "\<forall>sn\<in>set F. is_future sn \<and> sn_timestamp sn = INVALID_TIMESTAMP"
    "\<forall>sn\<in>set R. \<not> is_future sn \<and> real_ok (sl_clock s) (sl_activeTs s) sn" "sorted_wrt newer R"
    by (rule sn_invE[OF inv])
  have "\<forall>sn\<in>set R. \<not> ts \<le> sn_timestamp sn" using fr(1,3) old by auto
  then show ?thesis unfolding s'
    by (intro sn_invI[of _ F R]) (use inv fr ts in \<open>auto simp: sn_inv_def active_ok_def real_ok_def sorted_wrt_append\<close>)
next
  case False
  then show ?thesis using inv by (auto simp: AddActiveTimestamp_def split: if_splits)
qed

lemma RemoveActiveTimestamp_inv:
  assumes inv: "sn_inv s" and r: "RemoveActiveTimestamp s ts = (b, e, s')"
  shows "sn_inv s'"
proof (cases "e = None")
  case True
  then obtain i where s': "s' = s\<lparr>sl_activeTs := take i (sl_activeTs s) @ drop (Suc i) (sl_activeTs s)\<rparr>"
    using r by (auto simp: RemoveActiveTimestamp_def Let_def split: if_splits)
  obtain F R where fr: "sl_snapshots s = F @ R" "\<forall>sn\<in>set F. is_future sn \<and> sn_timestamp sn = INVALID_TIMESTAMP"
    "\<forall>sn\<in>set R. \<not> is_future sn \<and> real_ok (sl_clock s) (sl_activeTs s) sn" "sorted_wrt newer R"
    by (rule sn_invE[OF inv])
  have sub: "set (take i (sl_activeTs s) @ drop (Suc i) (sl_activeTs s)) \<subseteq> set (sl_activeTs s)"
    using set_take_subset set_drop_subset by fastforce
  have "sorted_wrt (<) (sl_activeTs s)" using inv by (simp add: sn_inv_def active_ok_def)
  then have "sorted_wrt (<) (take i (sl_activeTs s) @ drop (Suc i) (sl_activeTs s))"
    using id_take_nth_drop[of i "sl_activeTs s"] sorted_wrt_drop_mid[of "(<)" "take i (sl_activeTs s)" "sl_activeTs s ! i"]
    by (cases "i < length (sl_activeTs s)") auto
  with sub show ?thesis unfolding s'
    by (intro sn_invI[of _ F R]) (use inv fr in \<open>auto simp: sn_inv_def active_ok_def real_ok_def\<close>)
next
  case False
  then show ?thesis using inv r by (auto simp: RemoveActiveTimestamp_def Let_def split: if_splits)
qed

lemma occupancy_inv: "sn_inv s \<Longrightarrow> sn_inv (set_snapshot i (\<lambda>sn. sn\<lparr>sn_occupancy := f sn\<rparr>) s)"
  by (rule set_snapshot_inv) (simp_all add: sn_key_def is_future_def)

lemma real_below_clock: "sn_inv s \<Longrightarrow> sn \<in> set (sl_snapshots s) \<Longrightarrow> \<not> is_future sn \<Longrightarrow> sn_timestamp sn < sl_clock s"
  by (erule sn_invE) (auto simp: real_ok_def)

lemma SnOnRegisterClient_inv:
  assumes inv: "sn_inv s" and r: "SnOnRegisterClient env b state s = (ok, e, state', s')"
  shows "sn_inv s'"
proof (cases "state = None \<or> b \<or> \<not> IsValidTimestamp (sl_clock s)")
  case True
  with r inv occupancy_inv[OF inv] show ?thesis
    by (auto simp: SnOnRegisterClient_def WuGetTimestamp_def split: option.splits if_splits)
next
  case False
  let ?s = "s\<lparr>sl_clock := sl_clock s + 1\<rparr>"
  have s': "s' = snd (AddActiveTimestamp ?s (sl_clock s))"
    using r False by (auto simp: SnOnRegisterClient_def WuGetTimestamp_def)
  have i: "sn_inv ?s" using WuGetTimestamp_inv[OF inv] False by simp
  have c: "sl_clock s < sl_clock ?s" using False clock_ticks by simp
  show ?thesis unfolding s'
    by (rule AddActiveTimestamp_inv[OF i _ c]) (use inv real_below_clock[OF inv] in \<open>auto simp: sn_inv_def active_ok_def\<close>)
qed

lemma SnOnTransactionEnd_inv:
  assumes inv: "sn_inv s" and r: "SnOnTransactionEnd env state s = (ok, e, state', s', ts)"
  shows "sn_inv s'"
proof -
  obtain b e1 s1 where ra: "RemoveActiveTimestamp s (case state of None \<Rightarrow> 0 | Some st \<Rightarrow> cs_timestamp st) = (b, e1, s1)" by (metis prod_cases3)
  have p: "sn_inv s2" if "PurifySnapshots env True (set_snapshot i (\<lambda>sn. sn\<lparr>sn_occupancy := sn_occupancy sn - 1\<rparr>) s) = (e2, s2)" for i e2 s2
    using PurifySnapshots_inv[OF occupancy_inv[OF inv] that] by simp
  show ?thesis using r ra inv RemoveActiveTimestamp_inv[OF inv ra]
    by (auto simp: SnOnTransactionEnd_def Let_def split: option.splits tr_kind.splits prod.splits dest!: p)
qed

lemma SnOnUnregisterClient_inv:
  assumes inv: "sn_inv s" and r: "SnOnUnregisterClient env state s = (ok, e, state', s')"
  shows "sn_inv s'"
  using r inv by (auto simp: SnOnUnregisterClient_def split: option.splits if_splits prod.splits dest: SnOnTransactionEnd_inv)

section \<open>Advancing and checkpoints\<close>

lemma CreateSnapshot_fail: "CreateSnapshot env s ts kind = (Some e, s') \<Longrightarrow> s' = s"
  by (auto simp: CreateSnapshot_def Let_def split: if_splits)

lemma CreateSnapshot_clock:
  assumes inv: "sn_inv s" and v: "IsValidTimestamp (sl_clock s)" and k: "kind \<noteq> SN_FUTURE_SNAPSHOT"
    and c: "CreateSnapshot env (s\<lparr>sl_clock := sl_clock s + 1\<rparr>) (sl_clock s) kind = (e, s')"
  shows "sn_inv s'"
proof (cases e)
  case None
  with c show ?thesis
    by (intro CreateSnapshot_inv[OF WuGetTimestamp_inv[OF inv v], of env "sl_clock s" kind])
       (use k clock_ticks[OF v] real_below_clock[OF inv] in auto)
next
  case (Some x)
  with c CreateSnapshot_fail WuGetTimestamp_inv[OF inv v] show ?thesis by blast
qed

lemma SnTryAdvanceSnapshots_inv:
  assumes inv: "sn_inv s" and r: "SnTryAdvanceSnapshots env s = (e, ts, s')"
  shows "sn_inv s'"
proof -
  obtain e1 s1 where p: "PurifySnapshots env False s = (e1, s1)" by fastforce
  note i1 = PurifySnapshots_inv[OF inv p]
  show ?thesis
  proof (cases "e1 = None \<and> EnsureCanAdvanceSnapshots s1 \<and> IsValidTimestamp (sl_clock s1)")
    case True
    obtain e2 s2 where c: "CreateSnapshot env (s1\<lparr>sl_clock := sl_clock s1 + 1\<rparr>) (sl_clock s1) SN_REGULAR_SNAPSHOT = (e2, s2)" by fastforce
    have "sn_inv s2" using CreateSnapshot_clock[OF _ _ _ c] i1 True by simp
    then have "sn_inv s2 \<and> sn_inv (s2\<lparr>sl_runawayCount := 0\<rparr>)" using runaway_inv by blast
    then show ?thesis using r p True c
      by (cases e2) (auto simp: SnTryAdvanceSnapshots_def WuGetTimestamp_def)
  next
    case False
    with r p i1 show ?thesis by (auto simp: SnTryAdvanceSnapshots_def WuGetTimestamp_def split: option.splits if_splits)
  qed
qed

lemma set_type_inv:
  assumes "sn_inv s" "\<not> is_future (sl_snapshots s ! i)" "k \<noteq> SN_FUTURE_SNAPSHOT"
  shows "sn_inv (set_snapshot i (\<lambda>sn. sn\<lparr>sn_type := k\<rparr>) s)"
  by (rule set_snapshot_inv[OF assms(1)]) (use assms(2,3) in \<open>simp add: sn_key_def is_future_def\<close>)

lemma GetSnapshotByType_type: "GetSnapshotByType s ks = Some i \<Longrightarrow> i < length (sl_snapshots s) \<and> sn_type (sl_snapshots s ! i) \<in> set ks"
  unfolding GetSnapshotByType_def by (drule position_Some) simp

lemma set_type_nth:
  "i < length (sl_snapshots s) \<Longrightarrow> is_future (sl_snapshots (set_snapshot j (\<lambda>sn. sn\<lparr>sn_type := k\<rparr>) s) ! i) =
     (if i = j then k = SN_FUTURE_SNAPSHOT else is_future (sl_snapshots s ! i))"
  by (simp add: set_snapshot_def is_future_def nth_list_update)

lemma SnOnBeginCheckpoint_inv:
  assumes inv: "sn_inv s" and r: "SnOnBeginCheckpoint s = (e, ts, s')"
  shows "sn_inv s'"
proof (cases e)
  case None
  then obtain c where c: "GetCurrentSnapshot s = Some c" "sn_type (sl_snapshots s ! c) = SN_REGULAR_SNAPSHOT"
    and s': "s' = set_snapshot c (\<lambda>sn. sn\<lparr>sn_type := SN_PERSISTENT_SNAPSHOT\<rparr>)
        (case GetSnapshotByType s [SN_PERSISTENT_SNAPSHOT] of None \<Rightarrow> s
         | Some p \<Rightarrow> set_snapshot p (\<lambda>sn. sn\<lparr>sn_type := SN_PREV_PERSISTENT_SNAPSHOT\<rparr>) s)"
    using r by (auto simp: SnOnBeginCheckpoint_def Let_def split: if_splits option.splits)
  have cl: "c < length (sl_snapshots s)" "\<not> is_future (sl_snapshots s ! c)"
    using c GetSnapshotByType_type[of s not_future c] by (auto simp: GetCurrentSnapshot_def is_future_def)
  show ?thesis
  proof (cases "GetSnapshotByType s [SN_PERSISTENT_SNAPSHOT]")
    case None
    with s' set_type_inv[OF inv cl(2)] show ?thesis by simp
  next
    case (Some p)
    let ?s = "set_snapshot p (\<lambda>sn. sn\<lparr>sn_type := SN_PREV_PERSISTENT_SNAPSHOT\<rparr>) s"
    have "\<not> is_future (sl_snapshots s ! p)" using GetSnapshotByType_type[OF Some] by (simp add: is_future_def)
    then have "sn_inv ?s" by (rule set_type_inv[OF inv]) simp
    moreover have "\<not> is_future (sl_snapshots ?s ! c)" using set_type_nth[OF cl(1)] cl(2) by simp
    ultimately show ?thesis using s' Some set_type_inv[of ?s c] by simp
  qed
next
  case (Some x)
  with r inv show ?thesis by (auto simp: SnOnBeginCheckpoint_def Let_def split: if_splits option.splits)
qed

lemma SnOnCompleteCheckpoint_inv:
  assumes inv: "sn_inv s" and r: "SnOnCompleteCheckpoint env s = (e, s')"
  shows "sn_inv s'"
proof (cases "GetSnapshotByType s [SN_PREV_PERSISTENT_SNAPSHOT]")
  case None
  with r inv PurifySnapshots_inv show ?thesis by (auto simp: SnOnCompleteCheckpoint_def split: if_splits)
next
  case (Some p)
  have "\<not> is_future (sl_snapshots s ! p)" using GetSnapshotByType_type[OF Some] by (simp add: is_future_def)
  then have "sn_inv (set_snapshot p (\<lambda>sn. sn\<lparr>sn_type := SN_REGULAR_SNAPSHOT\<rparr>) s)" by (rule set_type_inv[OF inv]) simp
  with r inv Some PurifySnapshots_inv show ?thesis by (auto simp: SnOnCompleteCheckpoint_def split: if_splits)
qed

lemma damage_loop_key: "damage_loop from sns = (e, sns') \<Longrightarrow> map sn_key sns' = map sn_key sns"
  by (induction sns arbitrary: e sns') (auto simp: sn_key_def is_future_def split: if_splits prod.splits)

lemma SnDamageSnapshots_inv:
  assumes inv: "sn_inv s" and r: "SnDamageSnapshots env from s = (e, s')"
  shows "sn_inv s'"
proof (rule sn_inv_same[OF inv])
  have "map sn_key (take c (sl_snapshots s) @ sns) = map sn_key (sl_snapshots s)" if "damage_loop from (drop c (sl_snapshots s)) = (x, sns)" for c x sns
    unfolding map_append damage_loop_key[OF that] by (simp flip: map_append)
  then show "map sn_key (sl_snapshots s') = map sn_key (sl_snapshots s)"
    using r by (auto simp: SnDamageSnapshots_def simp del: map_append split: if_splits option.splits prod.splits)
qed (use r in \<open>auto simp: SnDamageSnapshots_def split: if_splits option.splits prod.splits\<close>)

lemma SnShutdown_inv:
  assumes inv: "sn_inv s" and r: "SnShutdown env s = (e, s')"
  shows "sn_inv s'"
proof -
  have p: "sn_inv s2" if "sn_inv s1" "PurifySnapshots env False s1 = (e2, s2)" for s1 e2 s2 using PurifySnapshots_inv[OF that] by simp
  have "sn_inv (set_snapshot i (\<lambda>sn. sn\<lparr>sn_type := SN_REGULAR_SNAPSHOT\<rparr>) s)" if "GetSnapshotByType s [SN_PERSISTENT_SNAPSHOT] = Some i" for i
    by (rule set_type_inv[OF inv]) (use GetSnapshotByType_type[OF that] in \<open>simp_all add: is_future_def\<close>)
  with r inv p[OF inv] p show ?thesis by (auto simp: SnShutdown_def Let_def split: option.splits prod.splits if_splits)
qed

section \<open>Starting\<close>

lemma tri_from_future: "tri_from n (map (\<lambda>i. replicate (Suc i) g) [n..<m])"
proof (induction "m - n" arbitrary: n)
  case (Suc k)
  then have "[n..<m] = n # [Suc n..<m]" by (simp add: upt_conv_Cons)
  with Suc show ?case by simp
qed simp

lemma SnStartup_inv:
  assumes r: "SnStartup env mem n ts s = (None, s')" and ts: "ts \<noteq> INVALID_TIMESTAMP \<longrightarrow> ts < sl_clock s"
  shows "sn_inv s'"
proof -
  let ?s = "s\<lparr>sl_snapshots := map future_snapshot [0..<SN_SNAPSHOTS_COUNT], sl_activeTs := [], sl_nClientsMax := nat n, sl_runawayCount := 0\<rparr>"
  have i: "InitSnapshotsList mem n (int SN_SNAPSHOTS_COUNT) s = (None, ?s)"
    using r by (auto simp: SnStartup_def InitSnapshotsList_def split: option.splits prod.splits if_splits)
  have "triangular (chains_of (sl_snapshots ?s))"
    using tri_from_future[of 0 empty_node SN_SNAPSHOTS_COUNT] by (simp add: triangular_def chains_of_def future_snapshot_def o_def)
  then have inv: "sn_inv ?s"
    by (rule sn_invI[of _ "sl_snapshots ?s" "[]"]) (auto simp: active_ok_def future_snapshot_def is_future_def)
  show ?thesis
  proof (cases "ts = INVALID_TIMESTAMP")
    case True
    with r i inv show ?thesis by (simp add: SnStartup_def)
  next
    case False
    then have c: "CreateSnapshot env ?s ts SN_PERSISTENT_SNAPSHOT = (None, s')"
      using r i by (auto simp: SnStartup_def split: option.splits prod.splits)
    show ?thesis by (rule CreateSnapshot_inv[OF inv c]) (use False ts in \<open>auto simp: future_snapshot_def is_future_def\<close>)
  qed
qed

end
