(* ===== verification/SnapshotViews.thy ===== *)
theory SnapshotViews
  imports SnapshotInv
begin

text \<open>
  What the operations of the snapshots module mean for the versions each snapshot owns: adding a version
  makes exactly the snapshots in a range of timestamps its owners, discarding a snapshot leaves the
  versions of all others alone, purification spares snapshots in use, and the statistics count what
  the snapshots own.
\<close>

section \<open>Who owns a version\<close>

lemma seen_update:
  assumes "x < length cs" "y < length (cs ! x)" "f g = f (cs ! x ! y) + d"
  shows "seen f p n (cs[x := (cs ! x)[y := g]]) = seen f p n cs + (if p \<le> n + x \<and> n + x - p \<le> y then d else 0)"
  using assms
proof (induction cs arbitrary: n x)
  case (Cons c cs)
  have c: "sum_list (map f (drop k (c[y := g]))) = sum_list (map f (drop k c)) + (if k \<le> y then d else 0)" if "y < length c" "f g = f (c ! y) + d" for k
  proof (cases "k \<le> y")
    case True
    define L D where "L = take (y - k) (drop k c)" and "D = drop (Suc y) c"
    have a: "drop k c = L @ c ! y # D" unfolding L_def D_def
      using id_take_nth_drop[of "y - k" "drop k c"] True that(1) by simp
    have b: "drop k (c[y := g]) = L @ g # D"
      unfolding L_def D_def using True that(1) by (simp add: drop_update_swap upd_conv_take_nth_drop drop_take)
    show ?thesis unfolding a b using True that(2) by (simp add: ac_simps)
  next
    case False
    then show ?thesis by simp
  qed
  show ?case
  proof (cases x)
    case 0
    with Cons.prems c[of "n - p"] show ?thesis by (simp add: add.assoc add.commute add.left_commute)
  next
    case (Suc x')
    with Cons.prems Cons.IH[of x' "Suc n"] show ?thesis by (simp add: add.assoc)
  qed
qed simp

text \<open>The walk stops at the last snapshot whose timestamp is not below the anchor.\<close>

lemma dep_steps_spec:
  assumes "dep_steps a sns = k" "sns \<noteq> []"
  shows "k < length sns \<and> (\<forall>j. 0 < j \<longrightarrow> j \<le> k \<longrightarrow> a \<le> sn_timestamp (sns ! j)) \<and> (Suc k < length sns \<longrightarrow> sn_timestamp (sns ! Suc k) < a)"
  using assms
proof (induction a sns arbitrary: k rule: dep_steps.induct)
  case (1 a sn sn' sns)
  show ?case
  proof (cases "a \<le> sn_timestamp sn'")
    case True
    then obtain k' where k: "k = Suc k'" "dep_steps a (sn' # sns) = k'" using 1(2) by auto
    have IH: "k' < length (sn' # sns) \<and> (\<forall>j. 0 < j \<longrightarrow> j \<le> k' \<longrightarrow> a \<le> sn_timestamp ((sn' # sns) ! j))
        \<and> (Suc k' < length (sn' # sns) \<longrightarrow> sn_timestamp ((sn' # sns) ! Suc k') < a)" by (rule 1(1)[OF True k(2)]) simp
    have "a \<le> sn_timestamp ((sn # sn' # sns) ! j)" if "0 < j" "j \<le> k" for j
      using that IH True k(1) by (cases j; cases "j - 1") auto
    with IH k(1) show ?thesis by auto
  next
    case False
    with 1(2) show ?thesis by auto
  qed
qed auto

lemma newer_nth: "sorted_wrt newer R \<Longrightarrow> p < q \<Longrightarrow> q < length R \<Longrightarrow> sn_timestamp (R ! q) < sn_timestamp (R ! p)"
  by (auto simp: sorted_wrt_iff_nth_less newer_def)

text \<open>Among the snapshots in use, those that the walk from \<open>i\<close> passes are exactly those in the range of timestamps.\<close>

lemma dep_range:
  assumes R: "sorted_wrt newer R" and i: "i < length R" "a \<le> sn_timestamp (R ! i)" and p: "p < length R"
  shows "(i \<le> p \<and> p \<le> i + dep_steps a (drop i R)) \<longleftrightarrow> (a \<le> sn_timestamp (R ! p) \<and> sn_timestamp (R ! p) \<le> sn_timestamp (R ! i))"
proof -
  define k where "k = dep_steps a (drop i R)"
  have k: "k < length R - i" "\<And>j. 0 < j \<Longrightarrow> j \<le> k \<Longrightarrow> a \<le> sn_timestamp (R ! (i + j))"
    "Suc k < length R - i \<Longrightarrow> sn_timestamp (R ! Suc (i + k)) < a"
    using dep_steps_spec[OF k_def[symmetric]] i(1) by auto
  show ?thesis
  proof (cases "i \<le> p")
    case True
    have le: "sn_timestamp (R ! p) \<le> sn_timestamp (R ! i)" using newer_nth[OF R, of i p] True p by (cases "i = p") auto
    show ?thesis
    proof (cases "p \<le> i + k")
      case True
      with \<open>i \<le> p\<close> have "a \<le> sn_timestamp (R ! p)" using k(2)[of "p - i"] i(2) by (cases "p = i") auto
      with True \<open>i \<le> p\<close> le show ?thesis by (simp add: k_def)
    next
      case False
      then have "sn_timestamp (R ! Suc (i + k)) < a" using k(3) p by simp
      moreover have "sn_timestamp (R ! p) \<le> sn_timestamp (R ! Suc (i + k))" using newer_nth[OF R, of "Suc (i + k)" p] False p by (cases "p = Suc (i + k)") auto
      ultimately show ?thesis using False by (auto simp: k_def)
    qed
  next
    case False
    then show ?thesis using newer_nth[OF R, of p i] i by auto
  qed
qed

lemma GetSnapshotByTimestamp_body:
  assumes "map sn_timestamp (sl_snapshots s') = map sn_timestamp (sl_snapshots s)"
  shows "GetSnapshotByTimestamp s' ts = GetSnapshotByTimestamp s ts"
proof -
  have p: "position (\<lambda>sn. sn_timestamp sn = ts) xs = position (\<lambda>t. t = ts) (map sn_timestamp xs)" for xs by (induction xs) auto
  show ?thesis unfolding GetSnapshotByTimestamp_def p assms ..
qed

lemma real_position:
  assumes "sl_snapshots s = F @ R" "\<forall>sn\<in>set F. is_future sn \<and> sn_timestamp sn = INVALID_TIMESTAMP"
    "GetSnapshotByTimestamp s ts = Some p" "IsValidTimestamp ts"
  shows "length F \<le> p" "p < length F + length R" "sn_timestamp (R ! (p - length F)) = ts"
proof -
  have p: "p < length (F @ R)" "sn_timestamp ((F @ R) ! p) = ts" using position_Some[of _ "F @ R" p] assms(1,3) by (auto simp: GetSnapshotByTimestamp_def)
  show l: "length F \<le> p"
  proof (rule ccontr)
    assume "\<not> length F \<le> p"
    with p assms(2) have "ts = INVALID_TIMESTAMP" by (auto simp: nth_append)
    with assms(4) special_timestamps(1) show False by simp
  qed
  with p show "p < length F + length R" "sn_timestamp (R ! (p - length F)) = ts" by (auto simp: nth_append)
qed

lemma push_version_owners:
  assumes inv: "sn_inv s" and i: "i < length (sl_snapshots s)" "\<not> is_future (sl_snapshots s ! i)" "a \<le> sn_timestamp (sl_snapshots s ! i)"
    and lv: "level = dep_steps a (drop i (sl_snapshots s))"
  shows "\<exists>s'. push_version (At (i + level)) level e b s = (None, s')
    \<and> map sn_body (sl_snapshots s') = map sn_body (sl_snapshots s) \<and> sl_freed s' = sl_freed s
    \<and> (\<forall>ts. IsValidTimestamp ts \<longrightarrow> GetSnapshotByTimestamp s ts \<noteq> None \<longrightarrow>
       versions_of s' ts = versions_of s ts + (if a \<le> ts \<and> ts \<le> sn_timestamp (sl_snapshots s ! i) then {#e#} else {#}))"
proof -
  let ?l = "sl_snapshots s" and ?x = "i + level"
  obtain F R where fr: "?l = F @ R" "\<forall>sn\<in>set F. is_future sn \<and> sn_timestamp sn = INVALID_TIMESTAMP"
    "\<forall>sn\<in>set R. \<not> is_future sn \<and> real_ok (sl_clock s) (sl_activeTs s) sn" "sorted_wrt newer R"
    by (rule sn_invE[OF inv])
  have "\<not> i < length F" using i(2) fr(1,2) by (auto simp: nth_append)
  then obtain i' where i': "i = length F + i'" "i' < length R" using i(1) fr(1) by (metis add_diff_inverse_nat length_append nat_add_left_cancel_less)
  have R: "?l ! i = R ! i'" "drop i ?l = drop i' R" using fr(1) i' by (simp_all add: nth_append)
  have x: "?x < length ?l" using dep_steps_spec[OF lv[symmetric]] i(1) by force
  have tri: "triangular (chains_of ?l)" using inv by (simp add: sn_inv_def)
  then have len: "length (sn_gcChain (?l ! ?x)) = Suc ?x" using x tri_from_nth[of 0 "chains_of ?l" ?x] by (simp add: triangular_def chains_of_def)
  define g where "g = \<lparr>gn_entries = gn_entries (sn_gcChain (?l ! ?x) ! level) @ [e],
      gn_garbageCount = (if b then Suc (gn_garbageCount (sn_gcChain (?l ! ?x) ! level)) else gn_garbageCount (sn_gcChain (?l ! ?x) ! level))\<rparr>"
  define s' where "s' = set_snapshot ?x (\<lambda>sn. sn\<lparr>sn_gcChain := (sn_gcChain sn)[level := g]\<rparr>) s"
  have P: "push_version (At ?x) level e b s = (None, s')"
    using GetGcNodeByIndex_spec(1)[of level "sn_gcChain (?l ! ?x)"] len
    by (simp add: push_version_def s'_def g_def set_snapshot_def Let_def)
  have l': "sl_snapshots s' = ?l[?x := (?l ! ?x)\<lparr>sn_gcChain := (sn_gcChain (?l ! ?x))[level := g]\<rparr>]" by (simp add: s'_def set_snapshot_def)
  have body: "map sn_body (sl_snapshots s') = map sn_body ?l"
    unfolding l' map_update using x by (simp add: sn_body_def list_update_same_conv)
  then have "map sn_timestamp (map sn_body (sl_snapshots s')) = map sn_timestamp (map sn_body ?l)" by simp
  then have G: "GetSnapshotByTimestamp s' ts = GetSnapshotByTimestamp s ts" for ts
    by (intro GetSnapshotByTimestamp_body) (simp add: o_def)
  have C: "chains_of (sl_snapshots s') = (chains_of ?l)[?x := (chains_of ?l ! ?x)[level := g]]"
    using x by (simp add: l' chains_of_def map_update)
  have n: "node_versions g = node_versions (chains_of ?l ! ?x ! level) + {#e#}" using x by (simp add: g_def node_versions_def chains_of_def)
  have cx: "?x < length (chains_of ?l)" "level < length (chains_of ?l ! ?x)" using x len by (simp_all add: chains_of_def)
  note seen = seen_update[where f = node_versions and n = 0, OF cx n]
  have "versions_of s' ts = versions_of s ts + (if a \<le> ts \<and> ts \<le> sn_timestamp (?l ! i) then {#e#} else {#})"
    if v: "IsValidTimestamp ts" and g: "GetSnapshotByTimestamp s ts = Some p" for ts p
  proof -
    note rp = real_position[OF fr(1,2) g v]
    have "(p \<le> ?x \<and> ?x - p \<le> level) \<longleftrightarrow> (i \<le> p \<and> p \<le> ?x)" by auto
    also have "\<dots> \<longleftrightarrow> (i' \<le> p - length F \<and> p - length F \<le> i' + level)" using rp(1) i'(1) by auto
    also have "\<dots> \<longleftrightarrow> (a \<le> ts \<and> ts \<le> sn_timestamp (?l ! i))"
      using dep_range[OF fr(4) i'(2), of a "p - length F"] rp i(3) R lv by simp
    finally show ?thesis using seen[of p] g G by (simp add: versions_of_def C)
  qed
  with P body show ?thesis by (intro exI[of _ s']) (auto simp: s'_def set_snapshot_def)
qed

section \<open>Discarding leaves the others alone\<close>

lemma snapshot_at_pos:
  "snapshot_at s ts = Some b \<longleftrightarrow> (\<exists>p. GetSnapshotByTimestamp s ts = Some p \<and> b = sn_body (sl_snapshots s ! p))"
  by (auto simp: snapshot_at_def)

lemma partly_purged_others:
  assumes g: "GetSnapshotByTimestamp s ts0 = Some v" and d: "partly_purged v s s'" and ts: "ts \<noteq> ts0"
  shows "snapshot_at s' ts = snapshot_at s ts" "versions_of s' ts = versions_of s ts"
proof -
  let ?l = "sl_snapshots s"
  from d obtain own rest l and d :: "SnVersionEntry list" where own: "sn_gcChain (?l ! v) = own # rest"
    and s': "s' = (set_snapshot v (\<lambda>sn. sn\<lparr>sn_gcChain := own\<lparr>gn_entries := l\<rparr> # rest\<rparr>) s)\<lparr>sl_freed := sl_freed s @ map ve_xptr d\<rparr>"
    unfolding partly_purged_def by blast
  have v: "v < length ?l" "sn_timestamp (?l ! v) = ts0" using position_Some[of _ ?l v] g by (auto simp: GetSnapshotByTimestamp_def)
  have l': "sl_snapshots s' = ?l[v := (?l ! v)\<lparr>sn_gcChain := own\<lparr>gn_entries := l\<rparr> # rest\<rparr>]" by (simp add: s' set_snapshot_def)
  have b: "map sn_body (sl_snapshots s') = map sn_body ?l" unfolding l' map_update using v by (simp add: sn_body_def list_update_same_conv)
  have "map sn_timestamp (map sn_body (sl_snapshots s')) = map sn_timestamp (map sn_body ?l)" by (simp add: b del: map_map)
  then have G: "GetSnapshotByTimestamp s' ts = GetSnapshotByTimestamp s ts" by (intro GetSnapshotByTimestamp_body) (simp add: o_def)
  have bn: "sn_body (sl_snapshots s' ! p) = sn_body (?l ! p)" if "p < length ?l" for p
    using that arg_cong[OF b, of "\<lambda>xs. xs ! p"] arg_cong[OF b, of length] by simp
  have p: "p < length ?l" "p \<noteq> v" if "GetSnapshotByTimestamp s ts = Some p" for p
    using that position_Some[of _ ?l p] v(2) ts by (auto simp: GetSnapshotByTimestamp_def)
  show "snapshot_at s' ts = snapshot_at s ts"
    using G bn p(1) by (cases "GetSnapshotByTimestamp s ts") (auto simp: snapshot_at_def)
  let ?f = "map sn_gcChain (take v ?l)" and ?b = "map sn_gcChain (drop (Suc v) ?l)"
  have c1: "chains_of ?l = ?f @ (own # rest) # ?b"
    unfolding chains_of_def own[symmetric] using v(1) by (metis id_take_nth_drop list.simps(9) map_append)
  have c2: "chains_of (sl_snapshots s') = ?f @ (own\<lparr>gn_entries := l\<rparr> # rest) # ?b"
    unfolding chains_of_def l' using v(1) by (simp add: upd_conv_take_nth_drop)
  have "length ?f = v" using v(1) by simp
  then have "seen node_versions p 0 (chains_of (sl_snapshots s')) = seen node_versions p 0 (chains_of ?l)" if "p \<noteq> v" for p
    unfolding c1 c2 using versions.seen_own[of p ?f own rest ?b "own\<lparr>gn_entries := l\<rparr>"] that by simp
  then show "versions_of s' ts = versions_of s ts"
    using G p(2) by (cases "GetSnapshotByTimestamp s ts") (auto simp: versions_of_def)
qed

lemma DiscardSnapshot_refused:
  assumes "DiscardSnapshot env s ts0 = (e, s')"
    "\<forall>v. GetSnapshotByTimestamp s ts0 = Some v \<longrightarrow> sn_type (sl_snapshots s ! v) \<noteq> SN_REGULAR_SNAPSHOT \<or> sn_occupancy (sl_snapshots s ! v) > 0"
  shows "s' = s \<and> e \<noteq> None"
  using assms by (auto simp: DiscardSnapshot_def Let_def split: option.splits if_splits)

lemma DiscardSnapshot_others:
  assumes inv: "sn_inv s" and d: "DiscardSnapshot env s ts0 = (e, s')" and ts: "IsValidTimestamp ts" "ts \<noteq> ts0"
  shows "snapshot_at s' ts = snapshot_at s ts \<and> versions_of s' ts = versions_of s ts"
proof (cases "\<forall>v. GetSnapshotByTimestamp s ts0 = Some v \<longrightarrow> sn_type (sl_snapshots s ! v) \<noteq> SN_REGULAR_SNAPSHOT \<or> sn_occupancy (sl_snapshots s ! v) > 0")
  case True
  with DiscardSnapshot_refused[OF d] show ?thesis by simp
next
  case False
  then obtain v where g: "GetSnapshotByTimestamp s ts0 = Some v" and reg: "sn_type (sl_snapshots s ! v) = SN_REGULAR_SNAPSHOT"
    and occ: "\<not> sn_occupancy (sl_snapshots s ! v) > 0" by auto
  have tri: "triangular (chains_of (sl_snapshots s))" using inv by (simp add: sn_inv_def)
  show ?thesis
  proof (rule DiscardSnapshot_cases[OF tri g reg occ, of env])
    fix s1 assume s1: "DiscardSnapshot env s ts0 = (None, s1)" "discarded v s s1"
    then have "s' = s1" using d by simp
    with discarded_others[OF g s1(2) ts] show ?thesis by simp
  next
    fix s1 assume s1: "DiscardSnapshot env s ts0 = (Some WUERR_CALLBACK, s1)" "partly_purged v s s1"
    then have "s' = s1" using d by simp
    with partly_purged_others[OF g s1(2) ts(2)] show ?thesis by simp
  qed
qed

section \<open>Snapshots in use stay\<close>

definition in_use :: "sn_state \<Rightarrow> TIMESTAMP \<Rightarrow> bool" where
  "in_use s ts \<longleftrightarrow> IsValidTimestamp ts \<and> (\<exists>b. snapshot_at s ts = Some b \<and> sn_occupancy b > 0)"

definition same_view :: "TIMESTAMP \<Rightarrow> sn_state \<Rightarrow> sn_state \<Rightarrow> bool" where
  "same_view ts s s' \<longleftrightarrow> snapshot_at s' ts = snapshot_at s ts \<and> versions_of s' ts = versions_of s ts"

lemma same_view_trans: "same_view ts s s1 \<Longrightarrow> same_view ts s1 s2 \<Longrightarrow> same_view ts s s2"
  by (simp add: same_view_def)

lemma same_view_in_use: "same_view ts s s' \<Longrightarrow> in_use s' ts = in_use s ts"
  by (simp add: same_view_def in_use_def)

lemma DiscardSnapshot_spares:
  assumes inv: "sn_inv s" and d: "DiscardSnapshot env s ts0 = (e, s')" and u: "in_use s ts"
  shows "same_view ts s s'"
proof (cases "ts = ts0")
  case True
  then have "s' = s" using DiscardSnapshot_refused[OF d] u by (auto simp: in_use_def snapshot_at_pos)
  then show ?thesis by (simp add: same_view_def)
next
  case False
  with DiscardSnapshot_others[OF inv d] u show ?thesis by (auto simp: in_use_def same_view_def)
qed

lemma purify_loop_spares:
  "sn_inv s \<Longrightarrow> in_use s ts \<Longrightarrow> purify_loop env n i s = (e, s') \<Longrightarrow> same_view ts s s'"
proof (induction n arbitrary: i s)
  case 0
  then show ?case by (simp add: same_view_def)
next
  case (Suc n)
  obtain e1 s1 where d: "DiscardSnapshot env s (sn_timestamp (sl_snapshots s ! i)) = (e1, s1)" by fastforce
  note i1 = DiscardSnapshot_inv[OF Suc.prems(1) d] and v1 = DiscardSnapshot_spares[OF Suc.prems(1) d Suc.prems(2)]
  consider (skip) "kept (sl_snapshots s ! i)" | (go) "\<not> kept (sl_snapshots s ! i)" "e1 = None"
    | (stop) "\<not> kept (sl_snapshots s ! i)" "s' = s1"
    using Suc.prems(3) d unfolding purify_loop_Suc by (cases "kept (sl_snapshots s ! i)"; cases e1) auto
  then show ?case
  proof cases
    case skip
    with Suc.prems have "purify_loop env n (Suc i) s = (e, s')" unfolding purify_loop_Suc by simp
    with Suc.IH Suc.prems show ?thesis by blast
  next
    case go
    with Suc.prems d have "purify_loop env n (Suc i) s1 = (e, s')" unfolding purify_loop_Suc by simp
    with Suc.IH[of s1] i1 same_view_in_use[OF v1] Suc.prems(2) same_view_trans[OF v1] show ?thesis by blast
  qed (use v1 in simp)
qed

lemma AutoDamage_spares:
  assumes "in_use s ts"
  shows "same_view ts s (AutoDamageSnapshotsAndScanForGarbage s b)"
proof (cases "GetCurrentSnapshot s")
  case (Some c)
  define i where "i = (if b then Suc c else c)"
  let ?d = "\<lambda>sn. if sn_occupancy sn = 0 then sn\<lparr>sn_isDamaged := True\<rparr> else sn"
  let ?s = "AutoDamageSnapshotsAndScanForGarbage s b" and ?l = "sl_snapshots s"
  have l': "sl_snapshots ?s = take i ?l @ map ?d (drop i ?l)" using Some by (simp add: AutoDamageSnapshotsAndScanForGarbage_def i_def)
  have t: "map sn_timestamp (sl_snapshots ?s) = map sn_timestamp ?l" "map sn_gcChain (sl_snapshots ?s) = map sn_gcChain ?l"
  proof -
    have m: "map sn_timestamp (map ?d xs) = map sn_timestamp xs" "map sn_gcChain (map ?d xs) = map sn_gcChain xs" for xs
      by (induction xs) auto
    show "map sn_timestamp (sl_snapshots ?s) = map sn_timestamp ?l" unfolding l' map_append m by (simp flip: map_append)
    show "map sn_gcChain (sl_snapshots ?s) = map sn_gcChain ?l" unfolding l' map_append m by (simp flip: map_append)
  qed
  then have G: "GetSnapshotByTimestamp ?s ts = GetSnapshotByTimestamp s ts" by (intro GetSnapshotByTimestamp_body)
  obtain p where p: "GetSnapshotByTimestamp s ts = Some p" "sn_occupancy (?l ! p) > 0" using assms by (auto simp: in_use_def snapshot_at_pos)
  have "p < length ?l" using position_Some[of _ ?l p] p(1) by (simp add: GetSnapshotByTimestamp_def)
  then have "sl_snapshots ?s ! p = ?l ! p" using p(2) unfolding l' by (cases "p < i") (auto simp: nth_append)
  with G p t(2) show ?thesis by (simp add: same_view_def snapshot_at_def versions_of_def chains_of_def)
qed (simp add: AutoDamageSnapshotsAndScanForGarbage_def same_view_def)

lemma PurifySnapshots_spares:
  assumes inv: "sn_inv s" and u: "in_use s ts" and p: "PurifySnapshots env b s = (e, s')"
  shows "same_view ts s s'"
proof -
  define start where "start = (case GetCurrentSnapshot s of None \<Rightarrow> length (sl_snapshots s) | Some c \<Rightarrow> if b then Suc c else c)"
  obtain e1 s1 where l: "purify_loop env (length (sl_snapshots s) - start) start s = (e1, s1)" by fastforce
  note v = purify_loop_spares[OF inv u l]
  have "s' = (if e1 = None then AutoDamageSnapshotsAndScanForGarbage s1 b else s1)"
    using p l by (cases e1) (auto simp: PurifySnapshots_def Let_def start_def)
  with v same_view_trans[OF v AutoDamage_spares] same_view_in_use[OF v] u show ?thesis by simp
qed

section \<open>Statistics\<close>

lemma visit_chain_stats:
  "visit_chain GatherInternalStatsProc pos x y c st = (True, st') \<Longrightarrow>
     st_nVersions st' = st_nVersions st + sum_list (map (\<lambda>g. length (gn_entries g)) c)
   \<and> st_nGarbageVersions st' = st_nGarbageVersions st + sum_list (map gn_garbageCount c)
   \<and> st_nSnapshotVersions st' = st_nSnapshotVersions st +
       (case pos of None \<Rightarrow> 0 | Some p \<Rightarrow> if p \<le> x then sum_list (map (\<lambda>g. length (gn_entries g)) (drop (x - p - y) c)) else 0)
   \<and> st_nSnapshotGarbageVersions st' = st_nSnapshotGarbageVersions st +
       (case pos of None \<Rightarrow> 0 | Some p \<Rightarrow> if p \<le> x then sum_list (map gn_garbageCount (drop (x - p - y) c)) else 0)"
proof (induction c arbitrary: y st)
  case (Cons g gs)
  let ?b = "case pos of None \<Rightarrow> False | Some p \<Rightarrow> x \<ge> p \<and> int y \<ge> int x - int p"
  obtain st1 where p: "GatherInternalStatsProc g ?b (y > 0) st = (True, st1)" by (simp add: GatherInternalStatsProc_def Let_def)
  have r: "visit_chain GatherInternalStatsProc pos x (Suc y) gs st1 = (True, st')" using Cons.prems p by simp
  have s1: "st_nVersions st1 = st_nVersions st + length (gn_entries g)" "st_nGarbageVersions st1 = st_nGarbageVersions st + gn_garbageCount g"
    "st_nSnapshotVersions st1 = st_nSnapshotVersions st + (if ?b then length (gn_entries g) else 0)"
    "st_nSnapshotGarbageVersions st1 = st_nSnapshotGarbageVersions st + (if ?b then gn_garbageCount g else 0)"
    using p by (auto simp: GatherInternalStatsProc_def Let_def)
  have d: "x - p - y = 0 \<longleftrightarrow> int y \<ge> int x - int p" "\<not> int y \<ge> int x - int p \<Longrightarrow> x - p - y = Suc (x - p - Suc y)" if "p \<le> x" for p
    using that by auto
  show ?case using Cons.IH[OF r] s1 d by (cases pos) (auto simp: not_le)
qed (auto split: option.split)

lemma visit_chain_stats_total: "\<exists>st'. visit_chain GatherInternalStatsProc pos x y c st = (True, st')"
  by (induction c arbitrary: y st) (simp_all add: GatherInternalStatsProc_def Let_def)

lemma visit_chains_stats:
  "\<exists>st'. visit_chains GatherInternalStatsProc pos x cs st = (True, st')
   \<and> st_nVersions st' = st_nVersions st + total (\<lambda>g. length (gn_entries g)) cs
   \<and> st_nGarbageVersions st' = st_nGarbageVersions st + total gn_garbageCount cs
   \<and> st_nSnapshotVersions st' = st_nSnapshotVersions st + (case pos of None \<Rightarrow> 0 | Some p \<Rightarrow> seen (\<lambda>g. length (gn_entries g)) p x cs)
   \<and> st_nSnapshotGarbageVersions st' = st_nSnapshotGarbageVersions st + (case pos of None \<Rightarrow> 0 | Some p \<Rightarrow> seen gn_garbageCount p x cs)"
proof (induction cs arbitrary: x st)
  case (Cons c cs)
  obtain st1 where c: "visit_chain GatherInternalStatsProc pos x 0 c st = (True, st1)" using visit_chain_stats_total by blast
  from Cons.IH[of "Suc x" st1] visit_chain_stats[OF c] c show ?case by (cases pos) (auto simp: total_def)
qed (auto simp: total_def split: option.split)

lemma size_seen: "size (seen node_versions p x cs) = seen (\<lambda>g. length (gn_entries g)) p x cs"
proof (induction cs arbitrary: x)
  case (Cons c cs)
  have "size (sum_list (map node_versions gs)) = sum_list (map (\<lambda>g. length (gn_entries g)) gs)" for gs
    by (induction gs) (simp_all add: node_versions_def)
  with Cons show ?case by simp
qed simp

lemma GatherInternalStats_spec:
  assumes "ts \<noteq> INVALID_TIMESTAMP" "GetSnapshotByTimestamp s ts = Some p"
  obtains st where "GatherInternalStats s ts = (True, st)" "st_nVersions st = total (\<lambda>g. length (gn_entries g)) (chains_of (sl_snapshots s))"
    "st_nSnapshotVersions st = size (versions_of s ts)" "st_nSnapshotGarbageVersions st = seen gn_garbageCount p 0 (chains_of (sl_snapshots s))"
proof -
  obtain st where "visit_chains GatherInternalStatsProc (Some p) 0 (chains_of (sl_snapshots s)) zero_stats = (True, st)"
    "st_nVersions st = st_nVersions zero_stats + total (\<lambda>g. length (gn_entries g)) (chains_of (sl_snapshots s))"
    "st_nSnapshotVersions st = st_nSnapshotVersions zero_stats + seen (\<lambda>g. length (gn_entries g)) p 0 (chains_of (sl_snapshots s))"
    "st_nSnapshotGarbageVersions st = st_nSnapshotGarbageVersions zero_stats + seen gn_garbageCount p 0 (chains_of (sl_snapshots s))"
    using visit_chains_stats[of "Some p" 0 "chains_of (sl_snapshots s)" zero_stats] by auto
  with assms show thesis
    by (intro that) (auto simp: GatherInternalStats_def VisitNodes_def versions_of_def size_seen zero_stats_def chains_of_def)
qed

end
