(* ===== verification/DfvHeader.thy ===== *)
theory DfvHeader
  imports SnapshotApi
begin

text \<open>
  How the snapshots module expands the version header of a block: \<^verbatim>\<open>SnExpandDfvHeader\<close> and
  \<^verbatim>\<open>SnFilterOutDamaged\<close> of \<^verbatim>\<open>kernel/sm/wu/wusnapshots.cpp\<close>. Given the creation timestamps of the versions,
  youngest first, the expansion tells which version each snapshot sees.
\<close>

section \<open>Expansion\<close>

definition InitFakeHeadSnapshot :: "sn_state \<Rightarrow> SnSnapshot" where
  "InitFakeHeadSnapshot s =
     \<lparr>sn_timestamp = SN_LAST_COMMITED_VERSION_TIMESTAMP, sn_active = sl_activeTs s, sn_gcChain = [],
      sn_type = SN_REGULAR_SNAPSHOT, sn_occupancy = 0, sn_isDamaged = False\<rparr>"

text \<open>The snapshots the fake head is followed by.\<close>

definition visible_snapshots :: "sn_state \<Rightarrow> SnSnapshot list" where
  "visible_snapshots s = (case GetCurrentSnapshot s of None \<Rightarrow> [] | Some c \<Rightarrow> drop c (sl_snapshots s))"

text \<open>The inner loop: how many of the remaining versions are younger than the snapshot.\<close>

fun skip_younger :: "SnSnapshot \<Rightarrow> TIMESTAMP list \<Rightarrow> nat" where
  "skip_younger sn [] = 0"
| "skip_younger sn (t # ts) =
     (if IsValidTimestamp t \<and> IsVersionYoungerThanSnapshot sn t then Suc (skip_younger sn ts) else 0)"

text \<open>
  The outer loop: \<open>rest\<close> are the versions from \<^verbatim>\<open>tsInCur\<close> on and \<open>i\<close> is the position of \<^verbatim>\<open>tsInCur\<close>. The
  result lists pairs of a snapshot's timestamp and the position of its version.
\<close>

fun expand_loop :: "SnSnapshot list \<Rightarrow> TIMESTAMP list \<Rightarrow> nat \<Rightarrow> wu_error option \<times> (TIMESTAMP \<times> nat) list" where
  "expand_loop [] rest i = (None, [])"
| "expand_loop (sn # sns) rest i =
     (let k = skip_younger sn rest; rest' = drop k rest; i' = i + k
      in if rest' = [] \<or> hd rest' = INVALID_TIMESTAMP then (None, [])
         else if \<not> IsValidTimestamp (hd rest') then (Some WUERR_BAD_TIMESTAMP, [])
         else (case expand_loop sns rest' i' of (e, out) \<Rightarrow> (e, (sn_timestamp sn, i') # out)))"

definition expand_records :: "sn_state \<Rightarrow> TIMESTAMP list \<Rightarrow> wu_error option \<times> (TIMESTAMP \<times> nat) list" where
  "expand_records s tsIn =
     (case tsIn of
        [] \<Rightarrow> (None, [])
      | t # ts \<Rightarrow>
          if t = INVALID_TIMESTAMP then (None, [])
          else if \<not> IsValidTimestamp t then (Some WUERR_BAD_TIMESTAMP, [])
          else (case expand_loop (InitFakeHeadSnapshot s # visible_snapshots s) tsIn 0 of
                  (e, out) \<Rightarrow>
                    (e, (if IsVersionYoungerThanSnapshot (InitFakeHeadSnapshot s) t
                         then (SN_WORKING_VERSION_TIMESTAMP, 0) # out else out))))"

text \<open>The anchor: the oldest snapshot that shares the last committed version.\<close>

definition expand_anchor :: "sn_env \<Rightarrow> sn_state \<Rightarrow> (TIMESTAMP \<times> nat) list \<Rightarrow> TIMESTAMP" where
  "expand_anchor env s out =
     (case dropWhile (\<lambda>r. fst r \<noteq> SN_LAST_COMMITED_VERSION_TIMESTAMP) out of
        [] \<Rightarrow> INVALID_TIMESTAMP
      | r # rs \<Rightarrow>
          let anchorTs = fst (last (takeWhile (\<lambda>x. snd x = snd r) (r # rs)))
          in if anchorTs = SN_LAST_COMMITED_VERSION_TIMESTAMP then fst (SnGetSnapshotTimestamps env s) + 1 else anchorTs)"

record dfv_out =
  do_records :: "(TIMESTAMP \<times> nat) list"    \<comment> \<open>\<^verbatim>\<open>tsOut\<close> and \<^verbatim>\<open>idOut\<close>\<close>
  do_szOut :: nat
  do_anchorTs :: TIMESTAMP

text \<open>
  \<open>room\<close> is the capacity \<^verbatim>\<open>*szOut\<close> of the output arrays on entry. With \<open>isTotalAnchor\<close> and no record the
  source reads \<^verbatim>\<open>tsOut[-1]\<close>, which is an error here.
\<close>

definition SnExpandDfvHeader :: "sn_env \<Rightarrow> sn_state \<Rightarrow> TIMESTAMP list \<Rightarrow> nat \<Rightarrow> bool \<Rightarrow> wu_error option \<times> dfv_out" where
  "SnExpandDfvHeader env s tsIn room isTotalAnchor =
     (case expand_records s tsIn of
        (Some e, out) \<Rightarrow> (Some e, \<lparr>do_records = take room out, do_szOut = 0, do_anchorTs = INVALID_TIMESTAMP\<rparr>)
      | (None, out) \<Rightarrow>
          if room < length out then
            (Some WUERR_GENERAL_ERROR, \<lparr>do_records = take room out, do_szOut = length out, do_anchorTs = INVALID_TIMESTAMP\<rparr>)
          else let anchorTs = expand_anchor env s out
               in if isTotalAnchor \<and> out = [] then
                    (Some WU_ASSERTION, \<lparr>do_records = out, do_szOut = 0, do_anchorTs = anchorTs\<rparr>)
                  else (None, \<lparr>do_records = out, do_szOut = length out,
                       do_anchorTs = (if isTotalAnchor \<and> fst (last out) \<noteq> SN_LAST_COMMITED_VERSION_TIMESTAMP
                                         \<and> fst (last out) \<noteq> SN_WORKING_VERSION_TIMESTAMP
                                      then fst (last out) else anchorTs)\<rparr>))"

section \<open>Filtering\<close>

text \<open>
  The loop of \<^verbatim>\<open>SnFilterOutDamaged\<close> from position \<^verbatim>\<open>i\<close> on. After an entry has been removed the index is
  increased all the same, so the entry that takes its place is not looked at.
\<close>

fun filter_loop :: "sn_state \<Rightarrow> (TIMESTAMP \<times> nat) list \<Rightarrow> bool \<times> (TIMESTAMP \<times> nat) list" where
  "filter_loop s [] = (True, [])"
| "filter_loop s (r # rs) =
     (if fst r \<noteq> SN_WORKING_VERSION_TIMESTAMP \<and> fst r \<noteq> SN_LAST_COMMITED_VERSION_TIMESTAMP then
        (case GetSnapshotByTimestamp s (fst r) of
           None \<Rightarrow> (False, r # rs)
         | Some i \<Rightarrow>
             if sn_isDamaged (sl_snapshots s ! i) then
               (case rs of
                  [] \<Rightarrow> (True, [])
                | r' # rs' \<Rightarrow> (case filter_loop s rs' of (ok, out) \<Rightarrow> (ok, r' # out)))
             else (case filter_loop s rs of (ok, out) \<Rightarrow> (ok, r # out)))
      else (case filter_loop s rs of (ok, out) \<Rightarrow> (ok, r # out)))"

definition SnFilterOutDamaged :: "sn_state \<Rightarrow> (TIMESTAMP \<times> nat) list \<Rightarrow> bool \<times> (TIMESTAMP \<times> nat) list" where
  "SnFilterOutDamaged s records = filter_loop s records"

end
