(* ===== verification/DfvViews.thy ===== *)
theory DfvViews
  imports SnapshotViews DfvHeader
begin

text \<open>
  What the expansion of a version header means. A version is visible in a snapshot if its creator had
  started before the snapshot was taken and was not active any more; the expansion finds, for each
  snapshot, the first version in the header that is visible in it. It looks at every version only once,
  which is right because the views of the snapshots fit together.
\<close>

section \<open>Visibility\<close>

lemma takeWhile_sorted_less:
  assumes "sorted (xs :: TIMESTAMP list)"
  shows "(length (takeWhile (\<lambda>t. t < x) xs) < length xs \<and> \<not> x < xs ! length (takeWhile (\<lambda>t. t < x) xs)) \<longleftrightarrow> x \<in> set xs"
  using assms
proof (induction xs)
  case (Cons a xs)
  then show ?case by (cases "a < x") (auto simp: not_less)
qed simp

lemma binary_search_mem: "sorted tss \<Longrightarrow> binary_search tss ts \<longleftrightarrow> ts \<in> set tss"
  unfolding binary_search_def lower_bound_def Let_def by (rule takeWhile_sorted_less)

definition visible_in :: "SnSnapshot \<Rightarrow> TIMESTAMP \<Rightarrow> bool" where
  "visible_in sn t \<longleftrightarrow> t \<le> sn_timestamp sn \<and> t \<notin> set (sn_active sn)"

lemma younger_visible: "sorted (sn_active sn) \<Longrightarrow> IsVersionYoungerThanSnapshot sn t \<longleftrightarrow> \<not> visible_in sn t"
  by (auto simp: IsVersionYoungerThanSnapshot_def visible_in_def binary_search_mem)

lemma newer_visible: "newer a b \<Longrightarrow> visible_in b t \<Longrightarrow> visible_in a t"
  unfolding newer_def visible_in_def by (meson leD le_less_trans less_imp_le order_trans)

section \<open>The loop\<close>

text \<open>The version a snapshot sees: the first of the header that is visible in it.\<close>

definition sees :: "SnSnapshot \<Rightarrow> TIMESTAMP list \<Rightarrow> nat option" where
  "sees sn vs = position (visible_in sn) vs"

definition header_end :: "TIMESTAMP list \<Rightarrow> bool" where
  "header_end zs \<longleftrightarrow> zs = [] \<or> hd zs = INVALID_TIMESTAMP"

lemma skip_younger_spec:
  assumes "\<forall>t\<in>set vs. IsValidTimestamp t" "header_end zs" "sorted (sn_active sn)"
  shows "skip_younger sn (vs @ zs) = (case position (visible_in sn) vs of None \<Rightarrow> length vs | Some k \<Rightarrow> k)"
  using assms
proof (induction vs)
  case Nil
  then show ?case by (cases zs) (auto simp: header_end_def special_timestamps)
next
  case (Cons v vs)
  then show ?case by (auto simp: younger_visible split: option.splits)
qed

lemma position_drop:
  assumes "\<forall>j<i. \<not> P (xs ! j)" "i \<le> length xs"
  shows "position P xs = map_option (\<lambda>k. i + k) (position P (drop i xs))"
proof -
  have "\<forall>x\<in>set (take i xs). \<not> P x" using assms by (auto simp: in_set_conv_nth)
  from position_append[OF this, of "drop i xs"] assms(2) show ?thesis by (simp add: min_absorb2)
qed

lemma expand_loop_spec:
  assumes vs: "\<forall>t\<in>set vs. IsValidTimestamp t" "header_end zs"
    and sns: "sorted_wrt newer sns" "\<forall>sn\<in>set sns. sorted (sn_active sn)"
    and i: "i \<le> length vs" "\<forall>sn\<in>set sns. \<forall>j<i. \<not> visible_in sn (vs ! j)"
  shows "expand_loop sns (drop i vs @ zs) i =
    (None, map (\<lambda>sn. (sn_timestamp sn, the (sees sn vs))) (takeWhile (\<lambda>sn. sees sn vs \<noteq> None) sns))"
  using sns i
proof (induction sns arbitrary: i)
  case (Cons sn sns)
  have v: "\<forall>t\<in>set (drop i vs). IsValidTimestamp t" using vs(1) in_set_dropD by fast
  have sk: "skip_younger sn (drop i vs @ zs) = (case position (visible_in sn) (drop i vs) of None \<Rightarrow> length (drop i vs) | Some k \<Rightarrow> k)"
    using skip_younger_spec[OF v vs(2)] Cons.prems(2) by simp
  have p: "sees sn vs = map_option (\<lambda>k. i + k) (position (visible_in sn) (drop i vs))"
    unfolding sees_def by (rule position_drop) (use Cons.prems(3,4) in auto)
  show ?case
  proof (cases "position (visible_in sn) (drop i vs)")
    case None
    with sk p vs(2) show ?thesis by (auto simp: Let_def header_end_def)
  next
    case (Some k)
    then have k: "i + k < length vs" "visible_in sn (vs ! (i + k))" "\<forall>j<k. \<not> visible_in sn (vs ! (i + j))"
      using position_Some[OF Some] Cons.prems(3) by auto
    have d: "drop k (drop i vs @ zs) = drop (i + k) vs @ zs" "drop (i + k) vs \<noteq> []" using k(1) by (simp_all add: add.commute)
    have hd: "hd (drop (i + k) vs @ zs) = vs ! (i + k)" using k(1) by (simp add: hd_drop_conv_nth)
    have val: "IsValidTimestamp (vs ! (i + k))" using vs(1) k(1) by simp
    have "\<not> visible_in x (vs ! j)" if "x \<in> set sns" "j < i + k" for x j
    proof
      assume vx: "visible_in x (vs ! j)"
      have "newer sn x" using Cons.prems(1) that(1) by simp
      then have "visible_in sn (vs ! j)" by (rule newer_visible[OF _ vx])
      moreover have "j - i < k" if "\<not> j < i" using that \<open>j < i + k\<close> by simp
      ultimately show False using Cons.prems(4) k(3)[rule_format, of "j - i"] by (cases "j < i") auto
    qed
    then have "expand_loop sns (drop (i + k) vs @ zs) (i + k) =
        (None, map (\<lambda>sn. (sn_timestamp sn, the (sees sn vs))) (takeWhile (\<lambda>sn. sees sn vs \<noteq> None) sns))"
      using Cons.prems k(1) by (intro Cons.IH) auto
    with Some sk p d hd val special_timestamps(1) show ?thesis by (auto simp: Let_def simp del: drop_append)
  qed
qed simp

section \<open>The records\<close>

lemma fake_head_newer:
  assumes inv: "sn_inv s"
  shows "sorted_wrt newer (InitFakeHeadSnapshot s # visible_snapshots s)"
    "\<forall>sn\<in>set (InitFakeHeadSnapshot s # visible_snapshots s). sorted (sn_active sn)"
    "\<forall>sn\<in>set (visible_snapshots s). IsValidTimestamp (sn_timestamp sn)"
proof -
  obtain F R where fr: "sl_snapshots s = F @ R" "\<forall>sn\<in>set F. is_future sn \<and> sn_timestamp sn = INVALID_TIMESTAMP"
    "\<forall>sn\<in>set R. \<not> is_future sn \<and> real_ok (sl_clock s) (sl_activeTs s) sn" "sorted_wrt newer R"
    by (rule sn_invE[OF inv])
  have v: "visible_snapshots s = R" using GetCurrentSnapshot_split[OF fr(1)] fr(1-3) by (simp add: visible_snapshots_def)
  have "newer (InitFakeHeadSnapshot s) b" if "b \<in> set R" for b
    using that fr(3) valid_less_special(1) by (auto simp: newer_def InitFakeHeadSnapshot_def real_ok_def)
  with v fr(4) show "sorted_wrt newer (InitFakeHeadSnapshot s # visible_snapshots s)" by simp
  have "sorted (sl_activeTs s)" using inv by (auto simp: sn_inv_def active_ok_def intro: strict_sorted_imp_sorted)
  with v fr(3) show "\<forall>sn\<in>set (InitFakeHeadSnapshot s # visible_snapshots s). sorted (sn_active sn)"
    by (simp add: InitFakeHeadSnapshot_def real_ok_def)
  show "\<forall>sn\<in>set (visible_snapshots s). IsValidTimestamp (sn_timestamp sn)" using v fr(3) by (simp add: real_ok_def)
qed

text \<open>The records that come out, in order.\<close>

lemma expand_records_spec:
  assumes inv: "sn_inv s" and vs: "\<forall>t\<in>set vs. IsValidTimestamp t" "vs \<noteq> []" "header_end zs"
  shows "expand_records s (vs @ zs) = (None,
    (if visible_in (InitFakeHeadSnapshot s) (hd vs) then [] else [(SN_WORKING_VERSION_TIMESTAMP, 0)]) @
    map (\<lambda>sn. (sn_timestamp sn, the (sees sn vs)))
      (takeWhile (\<lambda>sn. sees sn vs \<noteq> None) (InitFakeHeadSnapshot s # visible_snapshots s)))"
proof -
  let ?sns = "InitFakeHeadSnapshot s # visible_snapshots s"
  obtain t ts where v: "vs = t # ts" using vs(2) by (cases vs) auto
  have "expand_loop ?sns (drop 0 vs @ zs) 0 =
    (None, map (\<lambda>sn. (sn_timestamp sn, the (sees sn vs))) (takeWhile (\<lambda>sn. sees sn vs \<noteq> None) ?sns))"
    by (rule expand_loop_spec[OF vs(1,3) fake_head_newer(1,2)[OF inv]]) auto
  then have e: "expand_loop ?sns (vs @ zs) 0 =
    (None, map (\<lambda>sn. (sn_timestamp sn, the (sees sn vs))) (takeWhile (\<lambda>sn. sees sn vs \<noteq> None) ?sns))" by simp
  have y: "IsVersionYoungerThanSnapshot (InitFakeHeadSnapshot s) t \<longleftrightarrow> \<not> visible_in (InitFakeHeadSnapshot s) t"
    using younger_visible fake_head_newer(2)[OF inv] by simp
  have "t \<noteq> INVALID_TIMESTAMP" "IsValidTimestamp t" using v vs(1) special_timestamps(1) by auto
  then show ?thesis using e y unfolding v by (simp add: expand_records_def)
qed

lemma takeWhile_down:
  assumes "sorted_wrt R xs" "x \<in> set xs" "P x" "\<And>a b. R a b \<Longrightarrow> P b \<Longrightarrow> P a"
  shows "x \<in> set (takeWhile P xs)"
  using assms by (induction xs) auto

text \<open>Read off: which version a snapshot in use gets.\<close>

lemma expand_records_member:
  assumes inv: "sn_inv s" and vs: "\<forall>t\<in>set vs. IsValidTimestamp t" "vs \<noteq> []" "header_end zs"
    and sn: "sn \<in> set (visible_snapshots s)"
  shows "(sn_timestamp sn, k) \<in> set (snd (expand_records s (vs @ zs))) \<longleftrightarrow> sees sn vs = Some k"
proof -
  let ?sns = "InitFakeHeadSnapshot s # visible_snapshots s"
  let ?r = "map (\<lambda>sn. (sn_timestamp sn, the (sees sn vs))) (takeWhile (\<lambda>sn. sees sn vs \<noteq> None) ?sns)"
  note srt = fake_head_newer(1)[OF inv] and val = fake_head_newer(3)[OF inv]
  have w: "sn_timestamp sn \<noteq> SN_WORKING_VERSION_TIMESTAMP" using val sn special_timestamps(3) by auto
  have "(sn_timestamp sn, k) \<in> set (snd (expand_records s (vs @ zs))) \<longleftrightarrow> (sn_timestamp sn, k) \<in> set ?r"
    unfolding expand_records_spec[OF inv vs] using w by simp
  also have "\<dots> \<longleftrightarrow> sees sn vs = Some k"
  proof
    assume "(sn_timestamp sn, k) \<in> set ?r"
    then obtain x where x: "x \<in> set (takeWhile (\<lambda>sn. sees sn vs \<noteq> None) ?sns)" "sn_timestamp x = sn_timestamp sn" "k = the (sees x vs)"
      by (auto simp del: takeWhile.simps)
    then have "x \<in> set ?sns" "sees x vs \<noteq> None" using set_takeWhileD by fastforce+
    moreover have "x = sn"
    proof -
      obtain i j where ij: "i < length ?sns" "j < length ?sns" "?sns ! i = x" "?sns ! j = sn"
        using \<open>x \<in> set ?sns\<close> sn by (metis in_set_conv_nth list.set_intros(2))
      have "i = j" using srt ij x(2) by (metis linorder_neqE_nat newer_nth order_less_irrefl)
      with ij show ?thesis by simp
    qed
    ultimately show "sees sn vs = Some k" using x(3) by auto
  next
    assume k: "sees sn vs = Some k"
    have "sees a vs \<noteq> None" if "newer a b" "sees b vs \<noteq> None" for a b
      using that newer_visible[OF that(1)] by (auto simp: sees_def position_None)
    then have "sn \<in> set (takeWhile (\<lambda>sn. sees sn vs \<noteq> None) ?sns)" using sn k by (intro takeWhile_down[OF srt]) auto
    then show "(sn_timestamp sn, k) \<in> set ?r" using k by (force simp del: takeWhile.simps)
  qed
  finally show ?thesis .
qed

end
