(* ===== verification/VersionEnum.thy ===== *)
theory VersionEnum
  imports SnapshotApi
begin

text \<open>
  The enumeration of versions for a checkpoint: the buffered sending of \<^verbatim>\<open>SnEnumerateVersionsForCheckpoint\<close>
  in \<^verbatim>\<open>kernel/sm/wu/wusnapshots.cpp\<close>. The procedure that receives the versions is a parameter; the type
  \<open>'w\<close> is whatever it works on.
\<close>

record SnEnumerateVersionsParams =
  ep_persSnapshotTs :: TIMESTAMP
  ep_persVersionsCount :: nat
  ep_garbageVersionsCount :: nat
  ep_persVersionsSent :: nat
  ep_garbageVersionsSent :: nat

type_synonym 'w enum_proc = "SnEnumerateVersionsParams \<Rightarrow> SnVersionEntry list \<Rightarrow> bool \<Rightarrow> 'w \<Rightarrow> bool \<times> 'w"

text \<open>The two buffers; the positions and ends of the source are the lengths of the lists and \<open>eb_bufferSz\<close>.\<close>

record 'w SnEnumerateVersionsBuf =
  eb_bufferSz :: nat
  eb_normal :: "SnVersionEntry list"
  eb_garbage :: "SnVersionEntry list"
  eb_params :: SnEnumerateVersionsParams
  eb_world :: 'w

definition SN_BUFSZ :: nat where
  "SN_BUFSZ = 1024"

definition InitEnumerateVersionsBuf :: "SnEnumerateVersionsParams \<Rightarrow> nat \<Rightarrow> 'w \<Rightarrow> 'w SnEnumerateVersionsBuf" where
  "InitEnumerateVersionsBuf params bufSz w =
     \<lparr>eb_bufferSz = bufSz div 2, eb_normal = [], eb_garbage = [], eb_params = params, eb_world = w\<rparr>"

definition flush_normal :: "'w enum_proc \<Rightarrow> bool \<Rightarrow> 'w SnEnumerateVersionsBuf \<Rightarrow> bool \<times> 'w SnEnumerateVersionsBuf" where
  "flush_normal enumProc bFlushAll b =
     (let normalCount = length (eb_normal b) in
      if (bFlushAll \<and> normalCount > 0) \<or> normalCount = eb_bufferSz b then
        (case enumProc (eb_params b) (eb_normal b) False (eb_world b) of
           (False, w) \<Rightarrow> (False, b\<lparr>eb_world := w\<rparr>)
         | (True, w) \<Rightarrow>
             (True, b\<lparr>eb_world := w, eb_normal := [],
                      eb_params := (eb_params b)\<lparr>ep_persVersionsSent := ep_persVersionsSent (eb_params b) + normalCount\<rparr>\<rparr>))
      else (True, b))"

definition flush_garbage :: "'w enum_proc \<Rightarrow> bool \<Rightarrow> 'w SnEnumerateVersionsBuf \<Rightarrow> bool \<times> 'w SnEnumerateVersionsBuf" where
  "flush_garbage enumProc bFlushAll b =
     (let garbageCount = length (eb_garbage b) in
      if (bFlushAll \<and> garbageCount > 0) \<or> garbageCount = eb_bufferSz b then
        (case enumProc (eb_params b) (eb_garbage b) True (eb_world b) of
           (False, w) \<Rightarrow> (False, b\<lparr>eb_world := w\<rparr>)
         | (True, w) \<Rightarrow>
             (True, b\<lparr>eb_world := w, eb_garbage := [],
                      eb_params := (eb_params b)\<lparr>ep_garbageVersionsSent := ep_garbageVersionsSent (eb_params b) + garbageCount\<rparr>\<rparr>))
      else (True, b))"

definition FlushEnumerateVersionsBuf :: "'w enum_proc \<Rightarrow> bool \<Rightarrow> 'w SnEnumerateVersionsBuf \<Rightarrow> bool \<times> 'w SnEnumerateVersionsBuf" where
  "FlushEnumerateVersionsBuf enumProc bFlushAll b =
     (case flush_normal enumProc bFlushAll b of
        (False, b') \<Rightarrow> (False, b')
      | (True, b') \<Rightarrow> flush_garbage enumProc bFlushAll b')"

definition BufferVersionEntry :: "'w enum_proc \<Rightarrow> 'w SnEnumerateVersionsBuf \<Rightarrow> SnVersionEntry \<Rightarrow> bool \<Rightarrow> bool \<times> 'w SnEnumerateVersionsBuf" where
  "BufferVersionEntry enumProc b entry isGarbage =
     (let full = (if isGarbage then length (eb_garbage b) = eb_bufferSz b else length (eb_normal b) = eb_bufferSz b);
          (ok, b') = (if full then FlushEnumerateVersionsBuf enumProc False b else (True, b))
      in if \<not> ok then (False, b')
         else (True, if isGarbage then b'\<lparr>eb_garbage := eb_garbage b' @ [entry]\<rparr> else b'\<lparr>eb_normal := eb_normal b' @ [entry]\<rparr>))"

fun buffer_entries :: "'w enum_proc \<Rightarrow> bool \<Rightarrow> SnVersionEntry list \<Rightarrow> 'w SnEnumerateVersionsBuf \<Rightarrow> bool \<times> 'w SnEnumerateVersionsBuf" where
  "buffer_entries enumProc belongs [] b = (True, b)"
| "buffer_entries enumProc belongs (e # es) b =
     (case BufferVersionEntry enumProc b e (\<not> belongs \<or> ve_lxptr e = 0) of
        (False, b') \<Rightarrow> (False, b')
      | (True, b') \<Rightarrow> buffer_entries enumProc belongs es b')"

definition EnumerateVersionsForCheckpointProc :: "'w enum_proc \<Rightarrow> SnGcNode \<Rightarrow> bool \<Rightarrow> bool \<Rightarrow> 'w SnEnumerateVersionsBuf
    \<Rightarrow> bool \<times> 'w SnEnumerateVersionsBuf" where
  "EnumerateVersionsForCheckpointProc enumProc node belongs shared b = buffer_entries enumProc belongs (gn_entries node) b"

text \<open>Subtraction of \<^verbatim>\<open>size_t\<close> values.\<close>

definition size_sub :: "nat \<Rightarrow> nat \<Rightarrow> nat" where
  "size_sub a b = nat ((int a - int b) mod 2 ^ 64)"

text \<open>The result: success, what is left of the parameters, and what the procedure worked on.\<close>

definition SnEnumerateVersionsForCheckpoint :: "sn_env \<Rightarrow> 'w enum_proc \<Rightarrow> SnEnumerateVersionsParams \<Rightarrow> sn_state \<Rightarrow> 'w
    \<Rightarrow> bool \<times> SnEnumerateVersionsParams \<times> 'w" where
  "SnEnumerateVersionsForCheckpoint env enumProc params s w =
     (let persTs = snd (SnGetSnapshotTimestamps env s) in
      case GatherInternalStats s persTs of
        (False, _) \<Rightarrow> (False, params, w)
      | (True, stats) \<Rightarrow>
          let persVersionsCount = size_sub (st_nSnapshotVersions stats) (st_nSnapshotGarbageVersions stats);
              params' = \<lparr>ep_persSnapshotTs = persTs, ep_persVersionsCount = persVersionsCount,
                         ep_garbageVersionsCount = size_sub (st_nVersions stats) persVersionsCount,
                         ep_persVersionsSent = 0, ep_garbageVersionsSent = 0\<rparr>
          in if st_nVersions stats = 0 then
               (case enumProc params' [] False w of (ok, w') \<Rightarrow> (ok, params', w'))
             else (case VisitNodes s persTs (EnumerateVersionsForCheckpointProc enumProc) (InitEnumerateVersionsBuf params' SN_BUFSZ w) of
                     (False, b) \<Rightarrow> (False, eb_params b, eb_world b)
                   | (True, b) \<Rightarrow>
                       (case FlushEnumerateVersionsBuf enumProc True b of (ok, b') \<Rightarrow> (ok, eb_params b', eb_world b'))))"

end
