(* ===== verification/EnumViews.thy ===== *)
theory EnumViews
  imports SnapshotViews VersionEnum
begin

text \<open>
  What the enumeration for a checkpoint sends. The receiving procedure is taken to accept everything and
  to record each call.
\<close>

section \<open>A recording receiver\<close>

type_synonym enum_log = "(SnVersionEntry list \<times> bool) list"

definition recorder :: "enum_log enum_proc" where
  "recorder params es isGarbage w = (True, w @ [(es, isGarbage)])"

text \<open>What has been sent of one kind, and what is still buffered.\<close>

definition logged :: "bool \<Rightarrow> enum_log \<Rightarrow> SnVersionEntry list" where
  "logged g w = concat (map fst (filter (\<lambda>c. snd c = g) w))"

definition sent :: "bool \<Rightarrow> enum_log SnEnumerateVersionsBuf \<Rightarrow> SnVersionEntry list" where
  "sent g b = logged g (eb_world b) @ (if g then eb_garbage b else eb_normal b)"

text \<open>The counters agree with the log, and no call passes on more than a buffer holds.\<close>

definition buf_ok :: "enum_log SnEnumerateVersionsBuf \<Rightarrow> bool" where
  "buf_ok b \<longleftrightarrow> 0 < eb_bufferSz b \<and> length (eb_normal b) \<le> eb_bufferSz b \<and> length (eb_garbage b) \<le> eb_bufferSz b
     \<and> ep_persVersionsSent (eb_params b) = length (logged False (eb_world b))
     \<and> ep_garbageVersionsSent (eb_params b) = length (logged True (eb_world b))
     \<and> (\<forall>c\<in>set (eb_world b). fst c \<noteq> [] \<and> length (fst c) \<le> eb_bufferSz b)"

definition same_setup :: "enum_log SnEnumerateVersionsBuf \<Rightarrow> enum_log SnEnumerateVersionsBuf \<Rightarrow> bool" where
  "same_setup b b' \<longleftrightarrow> eb_bufferSz b' = eb_bufferSz b \<and> ep_persSnapshotTs (eb_params b') = ep_persSnapshotTs (eb_params b)
     \<and> ep_persVersionsCount (eb_params b') = ep_persVersionsCount (eb_params b)
     \<and> ep_garbageVersionsCount (eb_params b') = ep_garbageVersionsCount (eb_params b)"

lemma logged_simps [simp]: "logged g [] = []" "logged g (w @ [(es, h)]) = logged g w @ (if g = h then es else [])"
  by (auto simp: logged_def)

lemma flush_normal_ok:
  assumes "buf_ok b"
  shows "\<exists>b'. flush_normal recorder all b = (True, b') \<and> buf_ok b' \<and> same_setup b b' \<and> (\<forall>g. sent g b' = sent g b)
    \<and> (all \<or> length (eb_normal b) = eb_bufferSz b \<longrightarrow> eb_normal b' = []) \<and> eb_garbage b' = eb_garbage b"
proof (cases "(all \<and> length (eb_normal b) > 0) \<or> length (eb_normal b) = eb_bufferSz b")
  case True
  let ?b = "b\<lparr>eb_world := eb_world b @ [(eb_normal b, False)], eb_normal := [],
      eb_params := (eb_params b)\<lparr>ep_persVersionsSent := ep_persVersionsSent (eb_params b) + length (eb_normal b)\<rparr>\<rparr>"
  have ne: "eb_normal b \<noteq> []" using True assms by (auto simp: buf_ok_def)
  have "flush_normal recorder all b = (True, ?b)" using True by (simp add: flush_normal_def recorder_def Let_def)
  moreover have "buf_ok ?b" using assms ne by (auto simp: buf_ok_def)
  ultimately show ?thesis by (intro exI[of _ ?b]) (simp add: same_setup_def sent_def)
next
  case False
  have "flush_normal recorder all b = (True, b)" using False by (auto simp: flush_normal_def Let_def)
  then show ?thesis using False assms by (intro exI[of _ b]) (auto simp: same_setup_def)
qed

lemma flush_garbage_ok:
  assumes "buf_ok b"
  shows "\<exists>b'. flush_garbage recorder all b = (True, b') \<and> buf_ok b' \<and> same_setup b b' \<and> (\<forall>g. sent g b' = sent g b)
    \<and> (all \<or> length (eb_garbage b) = eb_bufferSz b \<longrightarrow> eb_garbage b' = []) \<and> eb_normal b' = eb_normal b"
proof (cases "(all \<and> length (eb_garbage b) > 0) \<or> length (eb_garbage b) = eb_bufferSz b")
  case True
  let ?b = "b\<lparr>eb_world := eb_world b @ [(eb_garbage b, True)], eb_garbage := [],
      eb_params := (eb_params b)\<lparr>ep_garbageVersionsSent := ep_garbageVersionsSent (eb_params b) + length (eb_garbage b)\<rparr>\<rparr>"
  have ne: "eb_garbage b \<noteq> []" using True assms by (auto simp: buf_ok_def)
  have "flush_garbage recorder all b = (True, ?b)" using True by (simp add: flush_garbage_def recorder_def Let_def)
  moreover have "buf_ok ?b" using assms ne by (auto simp: buf_ok_def)
  ultimately show ?thesis by (intro exI[of _ ?b]) (simp add: same_setup_def sent_def)
next
  case False
  have "flush_garbage recorder all b = (True, b)" using False by (auto simp: flush_garbage_def Let_def)
  then show ?thesis using False assms by (intro exI[of _ b]) (auto simp: same_setup_def)
qed

lemma Flush_ok:
  assumes "buf_ok b"
  shows "\<exists>b'. FlushEnumerateVersionsBuf recorder all b = (True, b') \<and> buf_ok b' \<and> same_setup b b' \<and> (\<forall>g. sent g b' = sent g b)
    \<and> (all \<or> length (eb_normal b) = eb_bufferSz b \<longrightarrow> eb_normal b' = []) \<and> (all \<or> length (eb_garbage b) = eb_bufferSz b \<longrightarrow> eb_garbage b' = [])"
proof -
  obtain b1 where b1: "flush_normal recorder all b = (True, b1)" "buf_ok b1" "same_setup b b1" "\<forall>g. sent g b1 = sent g b"
    "all \<or> length (eb_normal b) = eb_bufferSz b \<longrightarrow> eb_normal b1 = []" "eb_garbage b1 = eb_garbage b" using flush_normal_ok[OF assms] by blast
  obtain b2 where b2: "flush_garbage recorder all b1 = (True, b2)" "buf_ok b2" "same_setup b1 b2" "\<forall>g. sent g b2 = sent g b1"
    "all \<or> length (eb_garbage b1) = eb_bufferSz b1 \<longrightarrow> eb_garbage b2 = []" "eb_normal b2 = eb_normal b1" using flush_garbage_ok[OF b1(2)] by blast
  show ?thesis
    by (intro exI[of _ b2]) (use b1 b2 in \<open>auto simp: FlushEnumerateVersionsBuf_def same_setup_def\<close>)
qed

lemma BufferVersionEntry_ok:
  assumes ok: "buf_ok b"
  shows "\<exists>b'. BufferVersionEntry recorder b e h = (True, b') \<and> buf_ok b' \<and> same_setup b b'
    \<and> (\<forall>g. sent g b' = sent g b @ (if g = h then [e] else []))"
proof -
  let ?full = "if h then length (eb_garbage b) = eb_bufferSz b else length (eb_normal b) = eb_bufferSz b"
  have "\<exists>b1. (if ?full then FlushEnumerateVersionsBuf recorder False b else (True, b)) = (True, b1)
    \<and> buf_ok b1 \<and> same_setup b b1 \<and> (\<forall>g. sent g b1 = sent g b) \<and> (if h then length (eb_garbage b1) else length (eb_normal b1)) < eb_bufferSz b1"
  proof (cases ?full)
    case True
    with Flush_ok[OF ok, of False] show ?thesis by (auto simp: buf_ok_def split: if_splits)
  next
    case False
    with ok show ?thesis by (intro exI[of _ b]) (auto simp: buf_ok_def same_setup_def split: if_splits)
  qed
  then obtain b1 where b1: "(if ?full then FlushEnumerateVersionsBuf recorder False b else (True, b)) = (True, b1)"
    "buf_ok b1" "same_setup b b1" "\<forall>g. sent g b1 = sent g b"
    "(if h then length (eb_garbage b1) else length (eb_normal b1)) < eb_bufferSz b1" by blast
  define b2 where "b2 = (if h then b1\<lparr>eb_garbage := eb_garbage b1 @ [e]\<rparr> else b1\<lparr>eb_normal := eb_normal b1 @ [e]\<rparr>)"
  have "BufferVersionEntry recorder b e h = (True, b2)" using b1(1) by (simp add: BufferVersionEntry_def b2_def Let_def)
  moreover have "buf_ok b2" "same_setup b b2" using b1(2,3,5) by (auto simp: b2_def buf_ok_def same_setup_def)
  moreover have "sent g b2 = sent g b1 @ (if g = h then [e] else [])" for g by (cases g; cases h) (simp_all add: b2_def sent_def)
  then have "\<forall>g. sent g b2 = sent g b @ (if g = h then [e] else [])" using b1(4) by simp
  ultimately show ?thesis by blast
qed

section \<open>What is visited\<close>

definition is_garbage :: "bool \<Rightarrow> SnVersionEntry \<Rightarrow> bool" where
  "is_garbage belongs e \<longleftrightarrow> \<not> belongs \<or> ve_lxptr e = 0"

lemma buffer_entries_ok:
  "buf_ok b \<Longrightarrow> \<exists>b'. buffer_entries recorder belongs es b = (True, b') \<and> buf_ok b' \<and> same_setup b b'
     \<and> (\<forall>g. sent g b' = sent g b @ filter (\<lambda>e. is_garbage belongs e = g) es)"
proof (induction es arbitrary: b)
  case Nil
  then show ?case by (simp add: same_setup_def)
next
  case (Cons e es)
  obtain b1 where b1: "BufferVersionEntry recorder b e (is_garbage belongs e) = (True, b1)" "buf_ok b1" "same_setup b b1"
    "\<forall>g. sent g b1 = sent g b @ (if g = is_garbage belongs e then [e] else [])" using BufferVersionEntry_ok[OF Cons.prems] by blast
  from Cons.IH[OF b1(2)] obtain b2 where b2: "buffer_entries recorder belongs es b1 = (True, b2)" "buf_ok b2" "same_setup b1 b2"
    "\<forall>g. sent g b2 = sent g b1 @ filter (\<lambda>e. is_garbage belongs e = g) es" by blast
  show ?case by (intro exI[of _ b2]) (use b1 b2 in \<open>auto simp: same_setup_def is_garbage_def\<close>)
qed

definition belongs_at :: "nat option \<Rightarrow> nat \<Rightarrow> nat \<Rightarrow> bool" where
  "belongs_at pos x y = (case pos of None \<Rightarrow> False | Some p \<Rightarrow> x \<ge> p \<and> int y \<ge> int x - int p)"

fun chain_sends :: "bool \<Rightarrow> nat option \<Rightarrow> nat \<Rightarrow> nat \<Rightarrow> SnGcNode list \<Rightarrow> SnVersionEntry list" where
  "chain_sends g pos x y [] = []"
| "chain_sends g pos x y (c # cs) = filter (\<lambda>e. is_garbage (belongs_at pos x y) e = g) (gn_entries c) @ chain_sends g pos x (Suc y) cs"

fun chains_send :: "bool \<Rightarrow> nat option \<Rightarrow> nat \<Rightarrow> SnGcNode list list \<Rightarrow> SnVersionEntry list" where
  "chains_send g pos x [] = []"
| "chains_send g pos x (c # cs) = chain_sends g pos x 0 c @ chains_send g pos (Suc x) cs"

lemma visit_chain_ok:
  "buf_ok b \<Longrightarrow> \<exists>b'. visit_chain (EnumerateVersionsForCheckpointProc recorder) pos x y c b = (True, b') \<and> buf_ok b' \<and> same_setup b b'
     \<and> (\<forall>g. sent g b' = sent g b @ chain_sends g pos x y c)"
proof (induction c arbitrary: y b)
  case Nil
  then show ?case by (simp add: same_setup_def)
next
  case (Cons n ns)
  from buffer_entries_ok[OF Cons.prems, of "belongs_at pos x y" "gn_entries n"] obtain b1 where
    b1: "buffer_entries recorder (belongs_at pos x y) (gn_entries n) b = (True, b1)" "buf_ok b1" "same_setup b b1"
    "\<forall>g. sent g b1 = sent g b @ filter (\<lambda>e. is_garbage (belongs_at pos x y) e = g) (gn_entries n)" by blast
  from Cons.IH[OF b1(2), of "Suc y"] obtain b2 where
    b2: "visit_chain (EnumerateVersionsForCheckpointProc recorder) pos x (Suc y) ns b1 = (True, b2)" "buf_ok b2" "same_setup b1 b2"
    "\<forall>g. sent g b2 = sent g b1 @ chain_sends g pos x (Suc y) ns" by blast
  have "EnumerateVersionsForCheckpointProc recorder n (belongs_at pos x y) (y > 0) b = (True, b1)"
    using b1(1) by (simp add: EnumerateVersionsForCheckpointProc_def)
  then have "visit_chain (EnumerateVersionsForCheckpointProc recorder) pos x y (n # ns) b = (True, b2)"
    using b2(1) by (simp add: belongs_at_def[symmetric])
  with b1(3,4) b2(2-4) show ?case by (intro exI[of _ b2]) (auto simp: same_setup_def)
qed

lemma visit_chains_ok:
  "buf_ok b \<Longrightarrow> \<exists>b'. visit_chains (EnumerateVersionsForCheckpointProc recorder) pos x cs b = (True, b') \<and> buf_ok b' \<and> same_setup b b'
     \<and> (\<forall>g. sent g b' = sent g b @ chains_send g pos x cs)"
proof (induction cs arbitrary: x b)
  case Nil
  then show ?case by (simp add: same_setup_def)
next
  case (Cons c cs)
  from visit_chain_ok[OF Cons.prems, of pos x 0 c] obtain b1 where
    b1: "visit_chain (EnumerateVersionsForCheckpointProc recorder) pos x 0 c b = (True, b1)" "buf_ok b1" "same_setup b b1"
    "\<forall>g. sent g b1 = sent g b @ chain_sends g pos x 0 c" by blast
  from Cons.IH[OF b1(2), of "Suc x"] obtain b2 where
    b2: "visit_chains (EnumerateVersionsForCheckpointProc recorder) pos (Suc x) cs b1 = (True, b2)" "buf_ok b2" "same_setup b1 b2"
    "\<forall>g. sent g b2 = sent g b1 @ chains_send g pos (Suc x) cs" by blast
  show ?case by (intro exI[of _ b2]) (use b1 b2 in \<open>auto simp: same_setup_def\<close>)
qed

lemma chain_sends_normal:
  "mset (chain_sends False (Some p) x y c) =
     (if p \<le> x then filter_mset (\<lambda>e. ve_lxptr e \<noteq> 0) (sum_list (map node_versions (drop (x - p - y) c))) else {#})"
proof (induction c arbitrary: y)
  case (Cons n ns)
  have f: "filter (\<lambda>e. is_garbage True e = False) es = filter (\<lambda>e. ve_lxptr e \<noteq> 0) es" "filter (\<lambda>e. is_garbage False e = False) es = []" for es
    by (simp_all add: is_garbage_def)
  show ?case
  proof (cases "p \<le> x \<and> \<not> x - p - y = 0")
    case True
    then have "x - p - y = Suc (x - p - Suc y)" "\<not> belongs_at (Some p) x y" by (auto simp: belongs_at_def)
    with Cons[of "Suc y"] True f(2) show ?thesis by simp
  next
    case False
    then have "belongs_at (Some p) x y \<longleftrightarrow> p \<le> x" by (auto simp: belongs_at_def)
    with Cons[of "Suc y"] False f show ?thesis by (cases "p \<le> x") (auto simp: node_versions_def)
  qed
qed simp

lemma chains_send_normal:
  "mset (chains_send False (Some p) x cs) = filter_mset (\<lambda>e. ve_lxptr e \<noteq> 0) (seen node_versions p x cs)"
  by (induction cs arbitrary: x) (simp_all add: chain_sends_normal)

lemma chains_send_all: "mset (chains_send False pos x cs) + mset (chains_send True pos x cs) = total node_versions cs"
proof (induction cs arbitrary: x)
  case (Cons c cs)
  have "mset (chain_sends False pos x y ns) + mset (chain_sends True pos x y ns) = sum_list (map node_versions ns)" for y ns
  proof (induction ns arbitrary: y)
    case (Cons n ns)
    let ?g = "is_garbage (belongs_at pos x y)"
    have "node_versions n = mset (filter (\<lambda>e. ?g e = False) (gn_entries n)) + mset (filter (\<lambda>e. ?g e = True) (gn_entries n))"
      by (simp add: node_versions_def multiset_partition[of _ ?g] add.commute)
    then show ?case by (simp only: list.map sum_list.Cons Cons[symmetric, of "Suc y"] chain_sends.simps mset_append) (simp add: ac_simps)
  qed simp
  have "total node_versions (c # cs) = sum_list (map node_versions c) + total node_versions cs" by (simp add: total_def)
  also have "\<dots> = (mset (chain_sends False pos x 0 c) + mset (chain_sends True pos x 0 c)) +
      (mset (chains_send False pos (Suc x) cs) + mset (chains_send True pos (Suc x) cs))"
    unfolding \<open>\<And>y ns. mset (chain_sends False pos x y ns) + mset (chain_sends True pos x y ns) = sum_list (map node_versions ns)\<close> Cons ..
  finally show ?case by (simp add: ac_simps)
qed (simp add: total_def)

section \<open>The enumeration\<close>

lemma total_versions_size: "total (\<lambda>g. length (gn_entries g)) cs = size (total node_versions cs)"
proof -
  have "size (sum_list (map node_versions gs)) = sum_list (map (\<lambda>g. length (gn_entries g)) gs)" for gs
    by (induction gs) (simp_all add: node_versions_def)
  then show ?thesis by (simp add: total_def)
qed

definition all_versions :: "sn_state \<Rightarrow> SnVersionEntry multiset" where
  "all_versions s = total node_versions (chains_of (sl_snapshots s))"

lemma persistent_position:
  assumes "persistent_ts s \<noteq> INVALID_TIMESTAMP"
  obtains p where "GetSnapshotByTimestamp s (persistent_ts s) = Some p"
proof -
  obtain i where i: "GetSnapshotByType s [SN_PERSISTENT_SNAPSHOT] = Some i" "persistent_ts s = sn_timestamp (sl_snapshots s ! i)"
    using assms by (auto simp: persistent_ts_def split: option.splits)
  then have "sl_snapshots s ! i \<in> set (sl_snapshots s)" using GetSnapshotByType_type[OF i(1)] by simp
  then have "GetSnapshotByTimestamp s (persistent_ts s) \<noteq> None"
    using i(2) by (auto simp: GetSnapshotByTimestamp_def position_None)
  then show thesis using that by auto
qed

lemma enumerate_sends:
  assumes pers: "persistent_ts s \<noteq> INVALID_TIMESTAMP"
  shows "\<exists>params' log. SnEnumerateVersionsForCheckpoint env recorder params s [] = (True, params', log)
    \<and> mset (logged False log) = filter_mset (\<lambda>e. ve_lxptr e \<noteq> 0) (versions_of s (persistent_ts s))
    \<and> mset (logged False log) + mset (logged True log) = all_versions s
    \<and> ep_persVersionsSent params' = length (logged False log) \<and> ep_garbageVersionsSent params' = length (logged True log)
    \<and> (\<forall>c\<in>set log. length (fst c) \<le> SN_BUFSZ div 2)"
proof -
  let ?cs = "chains_of (sl_snapshots s)" and ?ts = "persistent_ts s"
  obtain p where p: "GetSnapshotByTimestamp s ?ts = Some p" by (rule persistent_position[OF pers])
  obtain st where st: "GatherInternalStats s ?ts = (True, st)" "st_nVersions st = total (\<lambda>g. length (gn_entries g)) ?cs"
    by (rule GatherInternalStats_spec[OF pers p])
  define ps where "ps = \<lparr>ep_persSnapshotTs = ?ts, ep_persVersionsCount = size_sub (st_nSnapshotVersions st) (st_nSnapshotGarbageVersions st),
      ep_garbageVersionsCount = size_sub (st_nVersions st) (size_sub (st_nSnapshotVersions st) (st_nSnapshotGarbageVersions st)),
      ep_persVersionsSent = 0, ep_garbageVersionsSent = 0\<rparr>"
  have v: "versions_of s ?ts = seen node_versions p 0 ?cs" using p by (simp add: versions_of_def)
  show ?thesis
  proof (cases "st_nVersions st = 0")
    case True
    then have z: "all_versions s = {#}" using st(2) by (simp add: all_versions_def total_versions_size)
    have f: "filter_mset (\<lambda>e. ve_lxptr e \<noteq> 0) (versions_of s ?ts) = {#}"
      using chains_send_all[of "Some p" 0 ?cs] chains_send_normal[of p 0 ?cs] z v by (simp add: all_versions_def)
    have "SnEnumerateVersionsForCheckpoint env recorder params s [] = (True, ps, [([], False)])"
      using st(1) True by (simp add: SnEnumerateVersionsForCheckpoint_def SnGetSnapshotTimestamps_def Let_def recorder_def ps_def)
    with z f show ?thesis by (simp add: logged_def ps_def)
  next
    case False
    let ?b = "InitEnumerateVersionsBuf ps SN_BUFSZ ([] :: enum_log)"
    have "buf_ok ?b" by (simp add: buf_ok_def InitEnumerateVersionsBuf_def SN_BUFSZ_def ps_def)
    from visit_chains_ok[OF this, of "Some p" 0 ?cs] obtain b1 where
      b1: "visit_chains (EnumerateVersionsForCheckpointProc recorder) (Some p) 0 ?cs ?b = (True, b1)" "buf_ok b1" "same_setup ?b b1"
      "\<forall>g. sent g b1 = sent g ?b @ chains_send g (Some p) 0 ?cs" by blast
    from Flush_ok[OF b1(2), of True] obtain b2 where
      b2: "FlushEnumerateVersionsBuf recorder True b1 = (True, b2)" "buf_ok b2" "same_setup b1 b2" "\<forall>g. sent g b2 = sent g b1"
      "eb_normal b2 = []" "eb_garbage b2 = []" by blast
    have l: "logged g (eb_world b2) = chains_send g (Some p) 0 ?cs" for g
    proof -
      have "sent g b2 = sent g ?b @ chains_send g (Some p) 0 ?cs" using b1(4) b2(4) by simp
      then show ?thesis using b2(5,6) by (cases g) (simp_all add: sent_def InitEnumerateVersionsBuf_def)
    qed
    have "VisitNodes s ?ts (EnumerateVersionsForCheckpointProc recorder) ?b = (True, b1)"
      using b1(1) p pers by (simp add: VisitNodes_def chains_of_def)
    then have "SnEnumerateVersionsForCheckpoint env recorder params s [] = (True, eb_params b2, eb_world b2)"
      using st(1) False b2(1)
      by (simp add: SnEnumerateVersionsForCheckpoint_def SnGetSnapshotTimestamps_def Let_def ps_def)
    moreover have "\<forall>c\<in>set (eb_world b2). length (fst c) \<le> SN_BUFSZ div 2"
      using b2(2,3) b1(3) by (auto simp: buf_ok_def same_setup_def InitEnumerateVersionsBuf_def)
    ultimately show ?thesis
      using l chains_send_normal[of p 0 ?cs] chains_send_all[of "Some p" 0 ?cs] b2(2) v by (auto simp: buf_ok_def all_versions_def)
  qed
qed

end
