(* ===== verification/SnapshotProperties.thy ===== *)
theory SnapshotProperties
  imports DfvViews EnumViews
begin

text \<open>
  The properties of the snapshots module: the invariant of every state the public functions reach, who
  owns a version, what survives a discard, what a version header expands to, and what a checkpoint is told.
\<close>

section \<open>The states of the module\<close>

text \<open>
  Every call of a public function that changes the state, with an arbitrary state block of the calling
  client and whatever the call returns.
\<close>

inductive sn_step :: "sn_env \<Rightarrow> sn_state \<Rightarrow> sn_state \<Rightarrow> bool" for env where
  step_register: "SnOnRegisterClient env b st s = (ok, e, st', s') \<Longrightarrow> sn_step env s s'"
| step_end: "SnOnTransactionEnd env st s = (ok, e, st', s', ts) \<Longrightarrow> sn_step env s s'"
| step_unregister: "SnOnUnregisterClient env st s = (ok, e, st', s') \<Longrightarrow> sn_step env s s'"
| step_submit: "SnSubmitRequestForGc env ts buf s = (e, s') \<Longrightarrow> sn_step env s s'"
| step_purify: "SnPurifySnapshots env s = (e, s') \<Longrightarrow> sn_step env s s'"
| step_advance: "SnTryAdvanceSnapshots env s = (e, ts, s') \<Longrightarrow> sn_step env s s'"
| step_begin: "SnOnBeginCheckpoint s = (e, ts, s') \<Longrightarrow> sn_step env s s'"
| step_complete: "SnOnCompleteCheckpoint env s = (e, s') \<Longrightarrow> sn_step env s s'"
| step_damage: "SnDamageSnapshots env ts s = (e, s') \<Longrightarrow> sn_step env s s'"
| step_shutdown: "SnShutdown env s = (e, s') \<Longrightarrow> sn_step env s s'"

inductive sn_reachable :: "sn_env \<Rightarrow> sn_state \<Rightarrow> bool" for env where
  sn_start: "SnStartup env mem n ts s = (None, s') \<Longrightarrow> ts \<noteq> INVALID_TIMESTAMP \<longrightarrow> ts < sl_clock s \<Longrightarrow> sn_reachable env s'"
| sn_next: "sn_reachable env s \<Longrightarrow> sn_step env s s' \<Longrightarrow> sn_reachable env s'"

lemma sn_step_inv: "sn_step env s s' \<Longrightarrow> sn_inv s \<Longrightarrow> sn_inv s'"
  by (induction rule: sn_step.induct)
     (auto simp: SnPurifySnapshots_def intro: SnOnRegisterClient_inv SnOnTransactionEnd_inv SnOnUnregisterClient_inv SnSubmitRequestForGc_inv
        SnTryAdvanceSnapshots_inv SnOnBeginCheckpoint_inv SnOnCompleteCheckpoint_inv SnDamageSnapshots_inv SnShutdown_inv dest: PurifySnapshots_inv)

lemma sn_reachable_sn_inv: "sn_reachable env s \<Longrightarrow> sn_inv s"
  by (induction rule: sn_reachable.induct) (auto intro: SnStartup_inv sn_step_inv)

section \<open>A small run\<close>

definition env0 :: sn_env where
  "env0 = \<lparr>env_freeBlock = (\<lambda>freed x. True), env_malloc = (\<lambda>n. True), env_disableVersions = False\<rparr>"

definition raw0 :: sn_state where
  "raw0 = \<lparr>sl_snapshots = [], sl_activeTs = [], sl_nClientsMax = 0, sl_runawayCount = 0, sl_clock = TIMESTAMP_MIN + 1, sl_freed = []\<rparr>"

definition no_client :: SnClientState where
  "no_client = \<lparr>cs_timestamp = INVALID_TIMESTAMP, cs_statusAndType = SN_NO_TRANSACTION\<rparr>"

text \<open>A persistent snapshot from the start, then a second one, then a commit that replaces a block.\<close>

definition run0 :: sn_state where
  "run0 = snd (SnStartup env0 True 10 TIMESTAMP_MIN raw0)"

definition run1 :: sn_state where
  "run1 = snd (snd (SnTryAdvanceSnapshots env0 run0))"

definition old_version :: SnRequestForGc where
  "old_version = \<lparr>gr_lxptr = 7, gr_xptr = 9, gr_anchorTs = TIMESTAMP_MIN, gr_type = SN_REQUEST_ADD_NORMAL_VERSION\<rparr>"

definition run2 :: sn_state where
  "run2 = snd (SnSubmitRequestForGc env0 (TIMESTAMP_MIN + 1) [old_version] run1)"

text \<open>A reader on the second snapshot.\<close>

definition run3 :: sn_state where
  "run3 = snd (snd (snd (SnOnRegisterClient env0 True (Some no_client) run2)))"

lemma run0_reachable: "sn_reachable env0 run0"
proof (rule sn_start)
  show "SnStartup env0 True 10 TIMESTAMP_MIN raw0 = (None, run0)" by code_simp
  show "TIMESTAMP_MIN \<noteq> INVALID_TIMESTAMP \<longrightarrow> TIMESTAMP_MIN < sl_clock raw0" by code_simp
qed

lemma run1_reachable: "sn_reachable env0 run1"
proof (rule sn_next[OF run0_reachable step_advance])
  show "SnTryAdvanceSnapshots env0 run0 = (None, TIMESTAMP_MIN + 1, run1)" by code_simp
qed

lemma run2_reachable: "sn_reachable env0 run2"
proof (rule sn_next[OF run1_reachable step_submit])
  show "SnSubmitRequestForGc env0 (TIMESTAMP_MIN + 1) [old_version] run1 = (None, run2)" by code_simp
qed

lemma run3_reachable: "sn_reachable env0 run3"
proof (rule sn_next[OF run2_reachable step_register])
  show "SnOnRegisterClient env0 True (Some no_client) run2 =
    (True, None, Some \<lparr>cs_timestamp = TIMESTAMP_MIN + 1, cs_statusAndType = SN_READ_ONLY_TRANSACTON\<rparr>, run3)" by code_simp
qed

section \<open>Properties\<close>

lemma discarded_gone:
  assumes inv: "sn_inv s" and g: "GetSnapshotByTimestamp s ts0 = Some v" and nf: "\<not> is_future (sl_snapshots s ! v)" and d: "discarded v s s'"
    and ts: "IsValidTimestamp ts0"
  shows "snapshot_at s' ts0 = None"
proof -
  obtain F R1 R2 where fr: "sl_snapshots s = F @ R1 @ (sl_snapshots s ! v) # R2" "v = length F + length R1"
    "\<forall>sn\<in>set F. is_future sn \<and> sn_timestamp sn = INVALID_TIMESTAMP"
    "\<forall>sn\<in>set (R1 @ (sl_snapshots s ! v) # R2). \<not> is_future sn \<and> real_ok (sl_clock s) (sl_activeTs s) sn"
    "sorted_wrt newer (R1 @ (sl_snapshots s ! v) # R2)"
    by (rule GetSnapshotByTimestamp_real[OF inv g nf])
  have x: "sn_timestamp (sl_snapshots s ! v) = ts0" using position_Some[of _ "sl_snapshots s" v] g by (auto simp: GetSnapshotByTimestamp_def)
  have "take v (sl_snapshots s) @ drop (Suc v) (sl_snapshots s) = F @ R1 @ R2" by (subst (1 2) fr(1)) (simp add: fr(2))
  then have "map sn_body (sl_snapshots s') = map sn_body (reset_snapshot (sl_snapshots s ! v) # F @ R1 @ R2)"
    using d by (simp add: discarded_def Let_def) (metis map_append)
  then have "map sn_timestamp (map sn_body (sl_snapshots s')) = map sn_timestamp (map sn_body (reset_snapshot (sl_snapshots s ! v) # F @ R1 @ R2))" by simp
  then have t: "map sn_timestamp (sl_snapshots s') = map sn_timestamp (reset_snapshot (sl_snapshots s ! v) # F @ R1 @ R2)" by (simp add: o_def)
  have i: "ts0 \<noteq> INVALID_TIMESTAMP" using ts special_timestamps(1) by auto
  have "newer sn (sl_snapshots s ! v) \<or> newer (sl_snapshots s ! v) sn" if "sn \<in> set (R1 @ R2)" for sn
    using fr(5) that by (auto simp: sorted_wrt_append)
  then have r: "sn_timestamp sn \<noteq> ts0" if "sn \<in> set (R1 @ R2)" for sn
    unfolding x[symmetric] using that newer_def order_less_irrefl by metis
  have "ts0 \<notin> set (map sn_timestamp (sl_snapshots s'))" unfolding t using fr(3) i r by (auto simp: reset_snapshot_def)
  then show ?thesis by (auto simp: snapshot_at_def GetSnapshotByTimestamp_def position_None)
qed

text \<open>
  C12. The invariant of the snapshots module. In every state the public functions reach from a successful
  start, the garbage chains have their triangular shape, unused snapshots come first, snapshots in use
  are ordered by strictly decreasing valid timestamps below the clock, and their sets of active
  transactions fit together.
\<close>

theorem sn_reachable_inv:
  assumes "sn_reachable env s"
  shows "sn_inv s"
  by (rule sn_reachable_sn_inv[OF assms])

theorem sn_reachable_inv_witness: "sn_inv run3"
  by (rule sn_reachable_inv[OF run3_reachable])

text \<open>
  C13. Discarding a snapshot. If it succeeds, the snapshot is gone, exactly the blocks that belong to it
  alone have been freed, and every other snapshot is as it was and owns the versions it owned.
\<close>

theorem discard_exact:
  assumes inv: "sn_inv s" and d: "DiscardSnapshot env s ts0 = (None, s')" and v: "GetSnapshotByTimestamp s ts0 = Some v"
  shows "sl_freed s' = sl_freed s @ map ve_xptr (gn_entries (hd (sn_gcChain (sl_snapshots s ! v))))
    \<and> (\<forall>ts. IsValidTimestamp ts \<and> ts \<noteq> ts0 \<longrightarrow> snapshot_at s' ts = snapshot_at s ts \<and> versions_of s' ts = versions_of s ts)
    \<and> (IsValidTimestamp ts0 \<longrightarrow> snapshot_at s' ts0 = None) \<and> sn_inv s'"
proof -
  have "\<not> (sn_type (sl_snapshots s ! v) \<noteq> SN_REGULAR_SNAPSHOT \<or> sn_occupancy (sl_snapshots s ! v) > 0)"
    using DiscardSnapshot_refused[OF d] v by auto
  then have reg: "sn_type (sl_snapshots s ! v) = SN_REGULAR_SNAPSHOT" and occ: "\<not> sn_occupancy (sl_snapshots s ! v) > 0" by auto
  have tri: "triangular (chains_of (sl_snapshots s))" using inv by (simp add: sn_inv_def)
  have dd: "discarded v s s'" by (rule DiscardSnapshot_cases[OF tri v reg occ, of env]) (use d in auto)
  have "snapshot_at s' ts0 = None" if "IsValidTimestamp ts0"
    by (rule discarded_gone[OF inv v _ dd that]) (simp add: reg is_future_def)
  with dd DiscardSnapshot_others[OF inv d] DiscardSnapshot_inv[OF inv d] show ?thesis by (auto simp: discarded_def Let_def)
qed

definition run4 :: sn_state where
  "run4 = set_snapshot 2 (\<lambda>sn. sn\<lparr>sn_type := SN_REGULAR_SNAPSHOT\<rparr>) run3"

lemma run4_inv: "sn_inv run4"
proof -
  have "\<not> is_future (sl_snapshots run3 ! 2)" by code_simp
  then show ?thesis unfolding run4_def by (rule set_type_inv[OF sn_reachable_sn_inv[OF run3_reachable]]) simp
qed

theorem discard_exact_witness:
  "\<exists>s'. DiscardSnapshot env0 run4 TIMESTAMP_MIN = (None, s') \<and> sl_freed s' = []
     \<and> versions_of s' (TIMESTAMP_MIN + 1) = versions_of run4 (TIMESTAMP_MIN + 1) \<and> snapshot_at s' TIMESTAMP_MIN = None"
proof -
  have g: "GetSnapshotByTimestamp run4 TIMESTAMP_MIN = Some 2" by code_simp
  have f: "sl_freed run4 @ map ve_xptr (gn_entries (hd (sn_gcChain (sl_snapshots run4 ! 2)))) = []" by code_simp
  have "fst (DiscardSnapshot env0 run4 TIMESTAMP_MIN) = None" by code_simp
  then obtain s' where d: "DiscardSnapshot env0 run4 TIMESTAMP_MIN = (None, s')" by (cases "DiscardSnapshot env0 run4 TIMESTAMP_MIN") auto
  have v: "IsValidTimestamp (TIMESTAMP_MIN + 1)" "TIMESTAMP_MIN + 1 \<noteq> TIMESTAMP_MIN" "IsValidTimestamp TIMESTAMP_MIN" by code_simp+
  from discard_exact[OF run4_inv d g] f d v show ?thesis by auto
qed

text \<open>The snapshot a commit starts from is the youngest one not younger than its timestamp.\<close>

lemma entry_for_spec:
  assumes inv: "sn_inv s" and e: "entry_for s cur = Some i"
  shows "i < length (sl_snapshots s)" "\<not> is_future (sl_snapshots s ! i)"
    "\<And>ts. IsValidTimestamp ts \<Longrightarrow> GetSnapshotByTimestamp s ts \<noteq> None \<Longrightarrow> ts \<le> sn_timestamp (sl_snapshots s ! i) \<longleftrightarrow> ts \<le> cur"
proof -
  obtain F R where fr: "sl_snapshots s = F @ R" "\<forall>sn\<in>set F. is_future sn \<and> sn_timestamp sn = INVALID_TIMESTAMP"
    "\<forall>sn\<in>set R. \<not> is_future sn \<and> real_ok (sl_clock s) (sl_activeTs s) sn" "sorted_wrt newer R"
    by (rule sn_invE[OF inv])
  have c: "GetCurrentSnapshot s = (if R = [] then None else Some (length F))" using GetCurrentSnapshot_split[OF fr(1)] fr(2,3) by simp
  then obtain j where j: "position (\<lambda>sn. \<not> sn_timestamp sn > cur) R = Some j" "i = length F + j"
    using e fr(1) by (auto simp: entry_for_def split: if_splits)
  note pj = position_Some[OF j(1)]
  show i: "i < length (sl_snapshots s)" "\<not> is_future (sl_snapshots s ! i)" using pj j(2) fr(1,3) by (auto simp: nth_append)
  fix ts assume v: "IsValidTimestamp ts" and g: "GetSnapshotByTimestamp s ts \<noteq> None"
  then obtain p where p: "GetSnapshotByTimestamp s ts = Some p" by auto
  define q where "q = p - length F"
  have q: "q < length R" "sn_timestamp (R ! q) = ts" using real_position[OF fr(1,2) p v] by (auto simp: q_def)
  have ri: "sl_snapshots s ! i = R ! j" using j(2) fr(1) by (simp add: nth_append)
  show "ts \<le> sn_timestamp (sl_snapshots s ! i) \<longleftrightarrow> ts \<le> cur"
  proof (cases "q < j")
    case True
    then have "cur < ts" using pj q(2) by auto
    moreover have "sn_timestamp (R ! j) < ts" using newer_nth[OF fr(4) True] pj q(2) by simp
    ultimately show ?thesis unfolding ri by auto
  next
    case False
    then have "ts \<le> sn_timestamp (R ! j)" using newer_nth[OF fr(4), of j q] q by (cases "q = j") auto
    moreover have "sn_timestamp (R ! j) \<le> cur" using pj by (simp add: not_less)
    ultimately show ?thesis unfolding ri by auto
  qed
qed

text \<open>
  C14. Who owns a version. A commit that hands over an old version of a block with an anchor makes exactly
  those snapshots its owners whose timestamps lie between the anchor and the timestamp the commit works
  with; nothing is freed.
\<close>

theorem version_owners:
  assumes inv: "sn_inv s" and ver: "ValidateRequestForGc r" "gr_type r = SN_REQUEST_ADD_NORMAL_VERSION" and dis: "\<not> env_disableVersions env"
    and cur: "IsValidTimestamp cur" and i: "entry_for s cur = Some i" "gr_anchorTs r \<le> sn_timestamp (sl_snapshots s ! i)"
  shows "\<exists>s'. SnSubmitRequestForGc env cur [r] s = (None, s') \<and> sl_freed s' = sl_freed s
    \<and> (\<forall>ts. IsValidTimestamp ts \<and> GetSnapshotByTimestamp s ts \<noteq> None \<longrightarrow> versions_of s' ts = versions_of s ts +
         (if gr_anchorTs r \<le> ts \<and> ts \<le> cur then {#\<lparr>ve_lxptr = gr_lxptr r, ve_xptr = gr_xptr r\<rparr>#} else {#}))"
proof -
  let ?l = "sl_snapshots s" and ?e = "\<lparr>ve_lxptr = gr_lxptr r, ve_xptr = gr_xptr r\<rparr>"
  let ?lv = "dep_steps (gr_anchorTs r) (drop i ?l)"
  note en = entry_for_spec[OF inv i(1)]
  obtain s' where s': "push_version (At (i + ?lv)) ?lv ?e False s = (None, s')" "sl_freed s' = sl_freed s"
    and vw: "\<forall>ts. IsValidTimestamp ts \<longrightarrow> GetSnapshotByTimestamp s ts \<noteq> None \<longrightarrow>
       versions_of s' ts = versions_of s ts + (if gr_anchorTs r \<le> ts \<and> ts \<le> sn_timestamp (?l ! i) then {#?e#} else {#})"
    using push_version_owners[OF inv en(1,2) i(2) refl] by blast
  have "SnSubmitRequestForGc env cur [r] s = (None, s')"
    using cur i(1) leD[OF i(2)] dis ver s'(1) by (simp add: SnSubmitRequestForGc_def SubmitRequestForGc_def dependent_def Let_def)
  with s'(2) vw en(3) show ?thesis by auto
qed

theorem version_owners_witness:
  "\<exists>s'. SnSubmitRequestForGc env0 (TIMESTAMP_MIN + 1) [old_version] run1 = (None, s')
     \<and> versions_of s' TIMESTAMP_MIN = versions_of run1 TIMESTAMP_MIN + {#\<lparr>ve_lxptr = 7, ve_xptr = 9\<rparr>#}"
proof -
  have h: "ValidateRequestForGc old_version" "gr_type old_version = SN_REQUEST_ADD_NORMAL_VERSION" "\<not> env_disableVersions env0"
    "IsValidTimestamp (TIMESTAMP_MIN + 1)" "entry_for run1 (TIMESTAMP_MIN + 1) = Some 1"
    "gr_anchorTs old_version \<le> sn_timestamp (sl_snapshots run1 ! 1)" by code_simp+
  have t: "IsValidTimestamp TIMESTAMP_MIN" "GetSnapshotByTimestamp run1 TIMESTAMP_MIN \<noteq> None"
    "gr_anchorTs old_version \<le> TIMESTAMP_MIN" "TIMESTAMP_MIN \<le> TIMESTAMP_MIN + 1" "gr_lxptr old_version = 7" "gr_xptr old_version = 9"
    by code_simp+
  from version_owners[OF sn_reachable_sn_inv[OF run1_reachable] h] t show ?thesis by auto
qed

section \<open>Advancing\<close>

lemma DiscardSnapshot_frame: "DiscardSnapshot env s ts = (e, s') \<Longrightarrow> sl_clock s' = sl_clock s \<and> sl_activeTs s' = sl_activeTs s"
  by (auto simp: DiscardSnapshot_def Let_def set_snapshot_def split: option.splits if_splits list.splits prod.splits)

lemma purify_loop_frame: "purify_loop env n i s = (e, s') \<Longrightarrow> sl_clock s' = sl_clock s \<and> sl_activeTs s' = sl_activeTs s"
proof (induction n arbitrary: i s)
  case (Suc n)
  obtain e1 s1 where d: "DiscardSnapshot env s (sn_timestamp (sl_snapshots s ! i)) = (e1, s1)" by fastforce
  show ?case using Suc.prems Suc.IH DiscardSnapshot_frame[OF d] d unfolding purify_loop_Suc
    by (cases "kept (sl_snapshots s ! i)"; cases e1) fastforce+
qed simp

lemma PurifySnapshots_frame:
  assumes "PurifySnapshots env b s = (e, s')"
  shows "sl_clock s' = sl_clock s \<and> sl_activeTs s' = sl_activeTs s"
proof -
  define start where "start = (case GetCurrentSnapshot s of None \<Rightarrow> length (sl_snapshots s) | Some c \<Rightarrow> if b then Suc c else c)"
  obtain e1 s1 where l: "purify_loop env (length (sl_snapshots s) - start) start s = (e1, s1)" by fastforce
  have "s' = (if e1 = None then AutoDamageSnapshotsAndScanForGarbage s1 b else s1)"
    using assms l by (cases e1) (auto simp: PurifySnapshots_def Let_def start_def)
  with purify_loop_frame[OF l] show ?thesis by (auto simp: AutoDamageSnapshotsAndScanForGarbage_def Let_def split: option.splits)
qed

lemma position_skip: "\<not> P x \<Longrightarrow> \<not> P y \<Longrightarrow> position P (xs @ x # ys) = position P (xs @ y # ys)"
  by (induction xs) auto

lemma CreateSnapshot_others:
  assumes inv: "sn_inv s" and c: "CreateSnapshot env s ts0 kind = (None, s')" and ts: "IsValidTimestamp ts" "ts \<noteq> ts0"
  shows "same_view ts s s'"
proof -
  obtain F x R where fr: "sl_snapshots s = F @ x # R" "\<forall>sn\<in>set (F @ [x]). is_future sn \<and> sn_timestamp sn = INVALID_TIMESTAMP"
    "\<forall>sn\<in>set R. \<not> is_future sn \<and> real_ok (sl_clock s) (sl_activeTs s) sn" "sorted_wrt newer R" "IsValidTimestamp ts0"
    and s': "s' = s\<lparr>sl_snapshots := F @ x\<lparr>sn_timestamp := ts0, sn_active := sl_activeTs s, sn_type := kind,
            sn_occupancy := 0, sn_isDamaged := False\<rparr> # R\<rparr>"
    by (rule CreateSnapshot_cases[OF inv c])
  have n: "sn_timestamp x \<noteq> ts" using fr(2) ts(1) special_timestamps(1) by auto
  then have g: "GetSnapshotByTimestamp s' ts = GetSnapshotByTimestamp s ts"
    using ts(2) unfolding GetSnapshotByTimestamp_def fr(1) s' by (simp, intro position_skip) auto
  have "sl_snapshots s' ! p = sl_snapshots s ! p" if "GetSnapshotByTimestamp s ts = Some p" for p
  proof -
    have "sn_timestamp ((F @ x # R) ! p) = ts" using position_Some[of _ "F @ x # R" p] that fr(1) by (auto simp: GetSnapshotByTimestamp_def)
    then have "p \<noteq> length F" using n by auto
    then show ?thesis unfolding fr(1) s' by (simp add: nth_append nth_Cons split: nat.splits)
  qed
  with g show ?thesis by (auto simp: same_view_def snapshot_at_def versions_of_def chains_of_def fr(1) s' split: option.splits)
qed

lemma CreateSnapshot_current:
  assumes inv: "sn_inv s" and c: "CreateSnapshot env s ts0 kind = (None, s')" and k: "kind \<noteq> SN_FUTURE_SNAPSHOT"
  shows "\<exists>i. GetCurrentSnapshot s' = Some i \<and> sn_timestamp (sl_snapshots s' ! i) = ts0 \<and> sn_active (sl_snapshots s' ! i) = sl_activeTs s
    \<and> sn_type (sl_snapshots s' ! i) = kind \<and> \<not> sn_isDamaged (sl_snapshots s' ! i)"
proof -
  obtain F x R where fr: "sl_snapshots s = F @ x # R" "\<forall>sn\<in>set (F @ [x]). is_future sn \<and> sn_timestamp sn = INVALID_TIMESTAMP"
    "\<forall>sn\<in>set R. \<not> is_future sn \<and> real_ok (sl_clock s) (sl_activeTs s) sn" "sorted_wrt newer R" "IsValidTimestamp ts0"
    and s': "s' = s\<lparr>sl_snapshots := F @ x\<lparr>sn_timestamp := ts0, sn_active := sl_activeTs s, sn_type := kind,
            sn_occupancy := 0, sn_isDamaged := False\<rparr> # R\<rparr>"
    by (rule CreateSnapshot_cases[OF inv c])
  let ?x = "x\<lparr>sn_timestamp := ts0, sn_active := sl_activeTs s, sn_type := kind, sn_occupancy := 0, sn_isDamaged := False\<rparr>"
  have l: "sl_snapshots s' = F @ ?x # R" using s' by simp
  have "GetCurrentSnapshot s' = Some (length F)"
    using GetCurrentSnapshot_split[OF l] fr(2,3) k by (simp add: is_future_def)
  then show ?thesis using l by simp
qed

lemma same_view_snapshots: "sl_snapshots r = sl_snapshots r' \<Longrightarrow> same_view ts s r \<longleftrightarrow> same_view ts s r'"
  by (simp add: same_view_def snapshot_at_def versions_of_def GetSnapshotByTimestamp_def cong: option.case_cong)

lemma in_use_below_clock:
  assumes inv: "sn_inv s" and u: "in_use s ts"
  shows "ts < sl_clock s"
proof -
  obtain F R where fr: "sl_snapshots s = F @ R" "\<forall>sn\<in>set F. is_future sn \<and> sn_timestamp sn = INVALID_TIMESTAMP"
    "\<forall>sn\<in>set R. \<not> is_future sn \<and> real_ok (sl_clock s) (sl_activeTs s) sn" "sorted_wrt newer R"
    by (rule sn_invE[OF inv])
  obtain p where p: "GetSnapshotByTimestamp s ts = Some p" "IsValidTimestamp ts" using u by (auto simp: in_use_def snapshot_at_pos)
  from real_position[OF fr(1,2) p] have "R ! (p - length F) \<in> set R" "sn_timestamp (R ! (p - length F)) = ts" by auto
  with fr(3) show ?thesis by (auto simp: real_ok_def)
qed

lemma run3_occupied: "\<exists>b. snapshot_at run3 (TIMESTAMP_MIN + 1) = Some b \<and> sn_occupancy b > 0"
proof -
  have "GetSnapshotByTimestamp run3 (TIMESTAMP_MIN + 1) = Some 1" "sn_occupancy (sl_snapshots run3 ! 1) > 0" by code_simp+
  then show ?thesis by (simp add: snapshot_at_def)
qed

text \<open>
  C17. Advancing snapshots. If it succeeds, the new current snapshot is stamped with the clock, has as
  active transactions exactly the updaters running at that moment, and is regular and undamaged; the clock
  moves on by one.
\<close>

theorem advance_exact:
  assumes inv: "sn_inv s" and a: "SnTryAdvanceSnapshots env s = (None, ts, s')"
  shows "ts = sl_clock s \<and> sl_clock s' = sl_clock s + 1 \<and> sl_activeTs s' = sl_activeTs s
    \<and> (\<exists>i. GetCurrentSnapshot s' = Some i \<and> sn_timestamp (sl_snapshots s' ! i) = ts \<and> sn_active (sl_snapshots s' ! i) = sl_activeTs s
         \<and> sn_type (sl_snapshots s' ! i) = SN_REGULAR_SNAPSHOT \<and> \<not> sn_isDamaged (sl_snapshots s' ! i))"
proof -
  obtain e1 s1 where p: "PurifySnapshots env False s = (e1, s1)" by fastforce
  have v: "e1 = None" "EnsureCanAdvanceSnapshots s1" "IsValidTimestamp (sl_clock s1)"
    using a p by (auto simp: SnTryAdvanceSnapshots_def WuGetTimestamp_def split: option.splits if_splits)
  note i1 = WuGetTimestamp_inv[OF PurifySnapshots_inv[OF inv p, THEN conjunct1] v(3)]
  obtain s3 where c: "CreateSnapshot env (s1\<lparr>sl_clock := sl_clock s1 + 1\<rparr>) (sl_clock s1) SN_REGULAR_SNAPSHOT = (None, s3)"
    and s': "s' = s3\<lparr>sl_runawayCount := 0\<rparr>" and ts: "ts = sl_clock s1"
    using a p v by (auto simp: SnTryAdvanceSnapshots_def WuGetTimestamp_def split: option.splits if_splits prod.splits)
  have f: "sl_clock s3 = sl_clock s1 + 1" "sl_activeTs s3 = sl_activeTs s1"
    by (rule CreateSnapshot_cases[OF i1 c], simp)+
  have "GetCurrentSnapshot s' = GetCurrentSnapshot s3" using s' by (simp add: GetCurrentSnapshot_def GetSnapshotByType_def)
  with CreateSnapshot_current[OF i1 c] PurifySnapshots_frame[OF p] f s' ts show ?thesis by auto
qed

theorem advance_exact_witness:
  "\<exists>i. GetCurrentSnapshot run1 = Some i \<and> sn_timestamp (sl_snapshots run1 ! i) = TIMESTAMP_MIN + 1 \<and> sn_active (sl_snapshots run1 ! i) = []"
proof -
  have a: "SnTryAdvanceSnapshots env0 run0 = (None, TIMESTAMP_MIN + 1, run1)" by code_simp
  have "sl_activeTs run0 = []" by code_simp
  with advance_exact[OF sn_reachable_sn_inv[OF run0_reachable] a] show ?thesis by auto
qed

text \<open>
  C16. Readers keep their snapshot. Whether advancing the snapshots succeeds or fails, a snapshot that is in
  use stays what it was: its timestamp, its active transactions, its occupancy, and the block versions
  that belong to it.
\<close>

theorem advance_spares_readers:
  assumes inv: "sn_inv s" and u: "in_use s ts" and a: "SnTryAdvanceSnapshots env s = (e, ts', s')"
  shows "snapshot_at s' ts = snapshot_at s ts \<and> versions_of s' ts = versions_of s ts"
proof -
  obtain e1 s1 where p: "PurifySnapshots env False s = (e1, s1)" by fastforce
  note v1 = PurifySnapshots_spares[OF inv u p] and i1 = PurifySnapshots_inv[OF inv p, THEN conjunct1]
  have clk: "same_view ts s (r\<lparr>sl_clock := c\<rparr>) \<longleftrightarrow> same_view ts s r" "same_view ts s (r\<lparr>sl_runawayCount := n\<rparr>) \<longleftrightarrow> same_view ts s r" for r c n
    by (rule same_view_snapshots, simp)+
  have "same_view ts s s'"
  proof (cases "e1 = None \<and> EnsureCanAdvanceSnapshots s1 \<and> IsValidTimestamp (sl_clock s1)")
    case True
    let ?s2 = "s1\<lparr>sl_clock := sl_clock s1 + 1\<rparr>"
    obtain e3 s3 where c: "CreateSnapshot env ?s2 (sl_clock s1) SN_REGULAR_SNAPSHOT = (e3, s3)" by fastforce
    have s': "s' = s3 \<or> s' = s3\<lparr>sl_runawayCount := 0\<rparr>"
      using a p True c by (cases e3) (auto simp: SnTryAdvanceSnapshots_def WuGetTimestamp_def)
    have u1: "in_use s1 ts" using same_view_in_use[OF v1] u by simp
    have ne: "ts \<noteq> sl_clock s1" using in_use_below_clock[OF i1 u1] by auto
    have "same_view ts ?s2 s3"
    proof (cases e3)
      case None
      show ?thesis by (rule CreateSnapshot_others[OF WuGetTimestamp_inv[OF i1]]) (use True c None u1 ne in \<open>auto simp: in_use_def\<close>)
    next
      case (Some x)
      have "s3 = ?s2" by (rule CreateSnapshot_fail) (use c Some in simp)
      then show ?thesis by (simp add: same_view_def)
    qed
    then have "same_view ts s s3" using same_view_trans[of ts s ?s2 s3] v1 clk by simp
    with s' clk show ?thesis by auto
  next
    case False
    then have "s' = s1" using a p by (auto simp: SnTryAdvanceSnapshots_def WuGetTimestamp_def split: option.splits if_splits)
    with v1 show ?thesis by simp
  qed
  then show ?thesis by (simp add: same_view_def)
qed

theorem advance_spares_readers_witness:
  "snapshot_at (snd (snd (SnTryAdvanceSnapshots env0 run3))) (TIMESTAMP_MIN + 1) = snapshot_at run3 (TIMESTAMP_MIN + 1)
   \<and> snapshot_at run3 (TIMESTAMP_MIN + 1) \<noteq> None"
proof -
  have "IsValidTimestamp (TIMESTAMP_MIN + 1)" by code_simp
  with run3_occupied have u: "in_use run3 (TIMESTAMP_MIN + 1)" by (simp add: in_use_def)
  obtain e t s' where a: "SnTryAdvanceSnapshots env0 run3 = (e, t, s')" by (metis prod_cases3)
  from advance_spares_readers[OF sn_reachable_sn_inv[OF run3_reachable] u a] run3_occupied a show ?thesis by auto
qed

section \<open>Version headers\<close>

lemma expand_records_bound:
  assumes inv: "sn_inv s" and vs: "\<forall>t\<in>set vs. IsValidTimestamp t" "vs \<noteq> []" "header_end zs"
  shows "fst (expand_records s (vs @ zs)) = None" "snd (expand_records s (vs @ zs)) \<noteq> []"
    "length (snd (expand_records s (vs @ zs))) \<le> 2 + length (visible_snapshots s)"
proof -
  let ?sns = "InitFakeHeadSnapshot s # visible_snapshots s"
  have l: "length (takeWhile (\<lambda>sn. sees sn vs \<noteq> None) ?sns) \<le> Suc (length (visible_snapshots s))"
    by (rule order_trans[OF length_takeWhile_le]) simp
  show "fst (expand_records s (vs @ zs)) = None" "length (snd (expand_records s (vs @ zs))) \<le> 2 + length (visible_snapshots s)"
    unfolding expand_records_spec[OF inv vs] using l by (simp_all del: takeWhile.simps)
  show "snd (expand_records s (vs @ zs)) \<noteq> []"
  proof (cases "visible_in (InitFakeHeadSnapshot s) (hd vs)")
    case True
    then have "sees (InitFakeHeadSnapshot s) vs \<noteq> None" using vs(2) by (auto simp: sees_def position_None intro: hd_in_set)
    then show ?thesis unfolding expand_records_spec[OF inv vs] by simp
  qed (simp add: expand_records_spec[OF inv vs])
qed

text \<open>
  C15. Expanding the version header of a block. With two places more than there are snapshots the
  expansion succeeds, whatever the state reached, and it assigns to each snapshot in use exactly the
  youngest version of the header that is not younger than the snapshot and was not made by a transaction
  still active when the snapshot was taken; a snapshot older than all the versions gets none.
\<close>

theorem expand_header_exact:
  assumes "sn_inv s" "\<forall>t\<in>set vs. IsValidTimestamp t" "vs \<noteq> []" "header_end zs" "2 + length (visible_snapshots s) \<le> room"
  shows "\<exists>out. SnExpandDfvHeader env s (vs @ zs) room isTotalAnchor = (None, out) \<and> do_szOut out = length (do_records out)
    \<and> (\<forall>sn\<in>set (visible_snapshots s). \<forall>k. (sn_timestamp sn, k) \<in> set (do_records out) \<longleftrightarrow> sees sn vs = Some k)"
proof -
  note b = expand_records_bound[OF assms(1-4)] and m = expand_records_member[OF assms(1-4)]
  obtain out where o: "expand_records s (vs @ zs) = (None, out)" using b(1) by (cases "expand_records s (vs @ zs)") auto
  with b m assms(5) show ?thesis by (auto simp: SnExpandDfvHeader_def Let_def)
qed

lemma run3_visible: "visible_snapshots run3 = drop 1 (sl_snapshots run3)" "length (sl_snapshots run3) = 3"
proof -
  have "GetCurrentSnapshot run3 = Some 1" by code_simp
  then show "visible_snapshots run3 = drop 1 (sl_snapshots run3)" by (simp add: visible_snapshots_def)
  show "length (sl_snapshots run3) = 3" by code_simp
qed

theorem expand_header_exact_witness:
  "\<exists>out. SnExpandDfvHeader env0 run3 [TIMESTAMP_MIN + 1, TIMESTAMP_MIN, INVALID_TIMESTAMP] 4 True = (None, out)
     \<and> (TIMESTAMP_MIN + 1, 0) \<in> set (do_records out)"
proof -
  have h: "\<forall>t\<in>set [TIMESTAMP_MIN + 1, TIMESTAMP_MIN]. IsValidTimestamp t" by code_simp
  have e: "header_end [INVALID_TIMESTAMP]" by (simp add: header_end_def)
  have l: "2 + length (visible_snapshots run3) \<le> 4" by (simp add: run3_visible)
  have n: "sl_snapshots run3 ! 1 \<in> set (visible_snapshots run3)"
    using run3_visible nth_mem[of 0 "drop 1 (sl_snapshots run3)"] by simp
  have t: "sn_timestamp (sl_snapshots run3 ! 1) = TIMESTAMP_MIN + 1" "sees (sl_snapshots run3 ! 1) [TIMESTAMP_MIN + 1, TIMESTAMP_MIN] = Some 0"
    by code_simp+
  from expand_header_exact[OF sn_reachable_sn_inv[OF run3_reachable] h _ e l, of env0 True] n t show ?thesis by force
qed



section \<open>Checkpoints\<close>

text \<open>
  C18. What a checkpoint is told. Enumerating the versions with a procedure that records what it is given
  succeeds and reports every version kept by the module exactly once: as versions of the persistent
  snapshot those that belong to it and stand for a live block, all others as garbage. The counters of
  versions sent agree, and no call passes more entries than half of the buffer.
\<close>

theorem checkpoint_enumeration:
  assumes pers: "persistent_ts s \<noteq> INVALID_TIMESTAMP"
  shows "\<exists>params' log. SnEnumerateVersionsForCheckpoint env recorder params s [] = (True, params', log)
    \<and> mset (logged False log) = filter_mset (\<lambda>e. ve_lxptr e \<noteq> 0) (versions_of s (persistent_ts s))
    \<and> mset (logged False log) + mset (logged True log) = all_versions s
    \<and> ep_persVersionsSent params' = length (logged False log) \<and> ep_garbageVersionsSent params' = length (logged True log)
    \<and> (\<forall>c\<in>set log. length (fst c) \<le> SN_BUFSZ div 2)"
  by (rule enumerate_sends[OF pers])

definition no_params :: SnEnumerateVersionsParams where
  "no_params = \<lparr>ep_persSnapshotTs = 0, ep_persVersionsCount = 0, ep_garbageVersionsCount = 0, ep_persVersionsSent = 0, ep_garbageVersionsSent = 0\<rparr>"

theorem checkpoint_enumeration_witness:
  "\<exists>params' log. SnEnumerateVersionsForCheckpoint env0 recorder no_params run3 [] = (True, params', log)
    \<and> mset (logged False log) = filter_mset (\<lambda>e. ve_lxptr e \<noteq> 0) (versions_of run3 TIMESTAMP_MIN)"
proof -
  have p: "persistent_ts run3 = TIMESTAMP_MIN" "persistent_ts run3 \<noteq> INVALID_TIMESTAMP" by code_simp+
  from checkpoint_enumeration[OF p(2), of env0 no_params] p(1) show ?thesis by metis
qed

text \<open>
  C19. The statistics are true. For a snapshot of the module the numbers gathered are the number of all
  versions kept and the number of versions that belong to the snapshot.
\<close>

theorem statistics_exact:
  assumes "ts \<noteq> INVALID_TIMESTAMP" "GetSnapshotByTimestamp s ts \<noteq> None"
  shows "\<exists>st. GatherInternalStats s ts = (True, st) \<and> st_nVersions st = size (all_versions s)
    \<and> st_nSnapshotVersions st = size (versions_of s ts)"
proof -
  obtain p where p: "GetSnapshotByTimestamp s ts = Some p" using assms(2) by auto
  obtain st where "GatherInternalStats s ts = (True, st)" "st_nVersions st = total (\<lambda>g. length (gn_entries g)) (chains_of (sl_snapshots s))"
    "st_nSnapshotVersions st = size (versions_of s ts)"
    by (rule GatherInternalStats_spec[OF assms(1) p])
  then show ?thesis by (auto simp: all_versions_def total_versions_size)
qed

theorem statistics_exact_witness:
  "\<exists>st. GatherInternalStats run3 TIMESTAMP_MIN = (True, st) \<and> st_nSnapshotVersions st = size (versions_of run3 TIMESTAMP_MIN)"
proof -
  have "TIMESTAMP_MIN \<noteq> INVALID_TIMESTAMP" "GetSnapshotByTimestamp run3 TIMESTAMP_MIN \<noteq> None" by code_simp+
  from statistics_exact[OF this] show ?thesis by auto
qed

end
