(* ===== verification/WuAux.thy ===== *)
theory WuAux
  imports WuTypes
begin

text \<open>
  The helpers of \<^verbatim>\<open>kernel/sm/wu/wuaux.h\<close>: alignment of sizes and pointers and the search for the lowest set
  bit by a multiplication and a table. Pointers, sizes and distances are 64-bit words. The last section
  ties each of them to what it computes on natural numbers.
\<close>

unbundle bit_operations_syntax

section \<open>Sizes and pointers\<close>

definition Is2Power :: "int \<Rightarrow> bool" where
  "Is2Power val \<longleftrightarrow> val AND (val - 1) = 0"

definition OffsetPtr :: "64 word \<Rightarrow> 64 word \<Rightarrow> 64 word" where
  "OffsetPtr ptr distance = ptr + distance"

definition CalcPtrDistance :: "64 word \<Rightarrow> 64 word \<Rightarrow> 64 word" where
  "CalcPtrDistance ptr1 ptr2 = ptr2 - ptr1"

definition RoundSizeUp :: "64 word \<Rightarrow> int \<Rightarrow> 64 word" where
  "RoundSizeUp sz roundFactor = ((sz - 1) OR word_of_int (roundFactor - 1)) + 1"

definition AlignPtr :: "64 word \<Rightarrow> int \<Rightarrow> 64 word" where
  "AlignPtr ptr alignment = (ptr + word_of_int alignment - 1) AND NOT (word_of_int (alignment - 1))"

section \<open>The lowest set bit\<close>

definition lowest_bit_tab :: "int list" where
  "lowest_bit_tab =
     [0, 1, 28, 2, 29, 14, 24, 3, 30, 22, 20, 15, 25, 17, 4, 8,
      31, 27, 13, 23, 21, 19, 16, 7, 26, 12, 18, 6, 11, 5, 10, 9]"

definition FindLowestBitSet :: "32 word \<Rightarrow> int" where
  "FindLowestBitSet val = lowest_bit_tab ! unat (drop_bit 27 ((val AND - val) * 0x077CB531))"

definition ResetLowestBitSet :: "32 word \<Rightarrow> int \<times> 32 word" where
  "ResetLowestBitSet val = (FindLowestBitSet val, val XOR (val AND - val))"

text \<open>The reference: position \<open>k\<close> is set and no lower one is.\<close>

definition lowest_set :: "'a::len word \<Rightarrow> nat \<Rightarrow> bool" where
  "lowest_set v k \<longleftrightarrow> bit v k \<and> (\<forall>j<k. \<not> bit v j)"

lemma lowest_set_ex:
  fixes v :: "'a::len word"
  assumes "v \<noteq> 0"
  obtains k where "lowest_set v k" "k < LENGTH('a)"
proof -
  have "v = 0" if "\<forall>n. \<not> bit v n" using that by (intro bit_eqI) simp
  then have "\<exists>n. bit v n" using assms by auto
  then obtain n where n: "bit v n" ..
  define k where "k = (LEAST n. bit v n)"
  have "bit v k" unfolding k_def by (rule LeastI) (rule n)
  moreover have "\<not> bit v j" if "j < k" for j using that not_less_Least unfolding k_def by blast
  ultimately show thesis using that[of k] bit_imp_le_length[of v k] by (simp add: lowest_set_def)
qed

lemma lowest_minus_1:
  fixes v :: "'a::len word"
  assumes "lowest_set v k"
  shows "bit (v - 1) n \<longleftrightarrow> n < LENGTH('a) \<and> (n < k \<or> n > k \<and> bit v n)"
proof -
  let ?h = "push_bit (Suc k) (drop_bit (Suc k) v)"
  have kl: "k < LENGTH('a)" using assms by (auto simp: lowest_set_def dest: bit_imp_le_length)
  have t: "take_bit (Suc k) v = 2 ^ k"
    using assms kl by (intro bit_eqI) (auto simp: lowest_set_def bit_take_bit_iff bit_exp_iff less_Suc_eq)
  have "v = ?h + take_bit (Suc k) v" by (rule bits_ident[symmetric])
  then have "v - 1 = ?h + mask k" unfolding t by (simp add: mask_eq_exp_minus_1)
  also have "\<dots> = ?h OR mask k" by (rule disjunctive_add) (auto simp: bit_push_bit_iff bit_mask_iff)
  finally have e: "v - 1 = ?h OR mask k" .
  show ?thesis unfolding e by (auto simp: bit_or_iff bit_push_bit_iff bit_drop_bit_eq bit_mask_iff simp del: push_bit_Suc dest: bit_imp_le_length)
qed

lemma lowest_isolated:
  fixes v :: "'a::len word"
  assumes "lowest_set v k"
  shows "v AND - v = 2 ^ k"
proof -
  have kl: "k < LENGTH('a)" using assms by (auto simp: lowest_set_def dest: bit_imp_le_length)
  have "- v = NOT (v - 1)" by (simp add: minus_eq_not_minus_1 not_diff_distrib)
  then show ?thesis using assms kl
    by (intro bit_eqI) (auto simp: bit_and_iff bit_not_iff lowest_minus_1[OF assms] bit_exp_iff lowest_set_def
        linorder_neq_iff)
qed

lemma lowest_bit_tab_all: "\<forall>k\<in>set [0..<32]. lowest_bit_tab ! unat (drop_bit 27 ((2 ^ k :: 32 word) * 0x077CB531)) = int k"
  by code_simp

lemma FindLowestBitSet_lowest:
  assumes "lowest_set v k"
  shows "FindLowestBitSet v = int k"
proof -
  have "k < 32" using assms by (auto simp: lowest_set_def dest: bit_imp_le_length)
  then show ?thesis using lowest_bit_tab_all lowest_isolated[OF assms] by (simp add: FindLowestBitSet_def del: upt_rec_numeral)
qed

lemma ResetLowestBitSet_bits:
  assumes "lowest_set v k"
  shows "fst (ResetLowestBitSet v) = int k" "bit (snd (ResetLowestBitSet v)) n \<longleftrightarrow> bit v n \<and> n \<noteq> k"
  using assms FindLowestBitSet_lowest[OF assms] lowest_isolated[OF assms]
  by (auto simp: ResetLowestBitSet_def bit_xor_iff bit_exp_iff lowest_set_def dest: bit_imp_le_length)

lemma reset_lowest_fewer:
  assumes "v \<noteq> 0" "(i, v') = ResetLowestBitSet v"
  shows "card {n. bit v' n} < card {n. bit v n}"
proof -
  obtain k where k: "lowest_set v k" using assms(1) by (rule lowest_set_ex)
  have "{n. bit v' n} = {n. bit v n} - {k}" using ResetLowestBitSet_bits(2)[OF k] assms(2) by (auto simp: prod_eq_iff)
  moreover have "finite {n. bit v n}" by (rule finite_subset[of _ "{..<32}"]) (auto dest: bit_imp_le_length)
  ultimately show ?thesis using k card_Diff1_less[of "{n. bit v n}" k] by (simp add: lowest_set_def)
qed

section \<open>Rounding as arithmetic\<close>

lemma unat_high: "unat (push_bit k (drop_bit k (x :: 64 word))) = unat x div 2 ^ k * 2 ^ k"
proof -
  have h: "push_bit k (drop_bit k x) = x - take_bit k x" using bits_ident[of k x] by (simp add: algebra_simps)
  have t: "unat (take_bit k x) = unat x mod 2 ^ k" by (subst unsigned_take_bit_eq) (simp add: take_bit_eq_mod)
  then have "take_bit k x \<le> x" by (simp add: word_le_nat_alt)
  then show ?thesis unfolding h by (simp add: unat_sub t minus_mod_eq_div_mult)
qed

lemma mask_of_int: "word_of_int (2 ^ k - 1) = (mask k :: 64 word)"
  by (simp add: mask_eq_exp_minus_1)

lemma unat_exp: "k < 64 \<Longrightarrow> unat (2 ^ k :: 64 word) = 2 ^ k"
  using unat_of_nat[of "2 ^ k", where 'a = 64] power_strict_increasing[of k 64 "2 :: nat"] by simp

lemma RoundSizeUp_nat:
  assumes "k < 64" "unat sz + 2 ^ k \<le> 2 ^ 64"
  shows "unat (RoundSizeUp sz (2 ^ k)) = (unat sz + 2 ^ k - 1) div 2 ^ k * 2 ^ k"
proof (cases "sz = 0")
  case True
  have "(- 1 :: 64 word) OR w = - 1" for w by simp
  then show ?thesis using True by (simp add: RoundSizeUp_def)
next
  case False
  let ?n = "unat (sz - 1)" and ?h = "push_bit k (drop_bit k (sz - 1))"
  have n: "?n = unat sz - 1" using False by (simp add: unat_minus_one)
  have "unat sz > 0" using False by (simp add: unat_gt_0)
  have "(sz - 1) OR mask k = ?h OR mask k"
    by (rule bit_eqI) (auto simp: bit_or_iff bit_push_bit_iff bit_drop_bit_eq bit_mask_iff)
  also have "\<dots> = ?h + mask k" by (rule disjunctive_add[symmetric]) (auto simp: bit_push_bit_iff bit_mask_iff)
  finally have r: "RoundSizeUp sz (2 ^ k) = ?h + 2 ^ k" unfolding RoundSizeUp_def mask_of_int by (simp add: mask_eq_exp_minus_1)
  have d: "?n div 2 ^ k * 2 ^ k + 2 ^ k \<le> ?n + 2 ^ k" by simp
  have p: "unat (2 ^ k :: 64 word) = 2 ^ k" by (rule unat_exp[OF assms(1)])
  have "unat (?h + 2 ^ k) = ?n div 2 ^ k * 2 ^ k + 2 ^ k"
    using unat_high[of k "sz - 1"] p d n \<open>unat sz > 0\<close> assms(2) by (subst unat_add_lem[THEN iffD1]) auto
  moreover have "(unat sz + 2 ^ k - 1) div 2 ^ k = ?n div 2 ^ k + 1"
  proof -
    have "unat sz + 2 ^ k - 1 = ?n + 2 ^ k" using n \<open>unat sz > 0\<close> by simp
    then show ?thesis by (simp add: div_add_self2)
  qed
  ultimately show ?thesis using r by simp
qed

lemma AlignPtr_nat:
  assumes "k < 64" "unat p + 2 ^ k \<le> 2 ^ 64"
  shows "unat (AlignPtr p (2 ^ k)) = (unat p + 2 ^ k - 1) div 2 ^ k * 2 ^ k"
proof -
  have c: "AlignPtr p (2 ^ k) = push_bit k (drop_bit k (p + (2 ^ k - 1)))"
    unfolding AlignPtr_def mask_of_int
    by (rule bit_eqI) (auto simp: bit_and_iff bit_not_iff bit_push_bit_iff bit_drop_bit_eq bit_mask_iff algebra_simps)
  have m: "unat (2 ^ k - 1 :: 64 word) = 2 ^ k - 1"
    using unat_minus_one[of "2 ^ k :: 64 word"] unat_exp[OF assms(1)] by fastforce
  have "unat (p + (2 ^ k - 1)) = unat p + (2 ^ k - 1)"
    by (subst unat_add_lem[THEN iffD1]) (use m assms(2) in auto)
  then show ?thesis unfolding c unat_high by simp
qed

text \<open>Rounding up to a multiple: never below, less than one step above.\<close>

lemma round_up_bounds:
  fixes n :: nat
  assumes "0 < d"
  shows "n \<le> (n + d - 1) div d * d" "(n + d - 1) div d * d < n + d" "d dvd (n + d - 1) div d * d"
proof -
  have "(n + d - 1) div d * d + (n + d - 1) mod d = n + d - 1" by simp
  moreover have "(n + d - 1) mod d < d" using assms by simp
  ultimately show "n \<le> (n + d - 1) div d * d" "(n + d - 1) div d * d < n + d" using assms by linarith+
qed simp

end
