(* ===== verification/StateTable.thy ===== *)
theory StateTable
  imports WuAux
begin

text \<open>
  The table of per-client state blocks, \<^verbatim>\<open>kernel/sm/wu/wustatetable.cpp\<close> in a build with \<^verbatim>\<open>DEBUGI\<close> off, so
  without guard memory. A table is one allocation: a bitmap with a bit per row that is set while the row is
  vacant, then the rows. The memory is a list of 32-bit words at an address, so that reads beyond the bitmap
  show what they read. A shift of a 32-bit word uses the low five bits of the count, as the processors
  Sedna runs on do; the standard leaves larger counts undefined.
\<close>

unbundle bit_operations_syntax

section \<open>Tickets\<close>

type_synonym TICKET = "64 word"

definition ST_ALIGNMENT :: int where
  "ST_ALIGNMENT = 8"

definition ST_TICKET_PTR_BITS :: nat where
  "ST_TICKET_PTR_BITS = 20"

definition ST_MAX_ROW_SIZE :: "64 word" where
  "ST_MAX_ROW_SIZE = 2 ^ 19"

definition ST_MAX_COLUMNS :: "64 word" where
  "ST_MAX_COLUMNS = 2 ^ 7"

definition ST_TICKET_XOR_MASK :: "64 word" where
  "ST_TICKET_XOR_MASK = 0xFFAFE0CC"

definition MakeTicket :: "64 word \<Rightarrow> int \<Rightarrow> TICKET" where
  "MakeTicket ptr ordinal =
     ((ptr AND (ST_MAX_ROW_SIZE - 1)) OR push_bit ST_TICKET_PTR_BITS (word_of_int ordinal AND (ST_MAX_COLUMNS - 1))) XOR ST_TICKET_XOR_MASK"

definition PtrFromTicket :: "TICKET \<Rightarrow> 64 word" where
  "PtrFromTicket ticket = (ticket XOR ST_TICKET_XOR_MASK) AND (ST_MAX_ROW_SIZE - 1)"

definition OrdinalFromTicket :: "TICKET \<Rightarrow> int" where
  "OrdinalFromTicket ticket = uint (drop_bit ST_TICKET_PTR_BITS (ticket XOR ST_TICKET_XOR_MASK) AND (ST_MAX_COLUMNS - 1))"

definition CheckTicket :: "TICKET \<Rightarrow> bool" where
  "CheckTicket ticket = True"

section \<open>The table\<close>

text \<open>The arrays \<^verbatim>\<open>columnSize\<close> and \<^verbatim>\<open>columnBase\<close> are used with \<^verbatim>\<open>DEBUGI\<close> only.\<close>

record StateTable =
  st_rowsCount :: int
  st_columnsCount :: int
  st_mem :: "(64 word \<times> 32 word list) option"    \<comment> \<open>\<^verbatim>\<open>NULL\<close>, or the address and the words there\<close>
  st_base :: "64 word"
  st_stride :: "64 word"
  st_rowSize :: "64 word"

text \<open>The words of the allocation, and reading and writing one of them by its index.\<close>

definition st_words :: "StateTable \<Rightarrow> 32 word list" where
  "st_words t = (case st_mem t of None \<Rightarrow> [] | Some (a, ws) \<Rightarrow> ws)"

definition set_words :: "32 word list \<Rightarrow> StateTable \<Rightarrow> StateTable" where
  "set_words ws t = t\<lparr>st_mem := map_option (\<lambda>(a, _). (a, ws)) (st_mem t)\<rparr>"

definition mem_word :: "StateTable \<Rightarrow> nat \<Rightarrow> wu_error + 32 word" where
  "mem_word t k = (if k < length (st_words t) then Inr (st_words t ! k) else Inl WU_ASSERTION)"

text \<open>How far an address is from the beginning of the allocation, in bytes.\<close>

definition byte_index :: "StateTable \<Rightarrow> 64 word \<Rightarrow> nat" where
  "byte_index t p = (case st_mem t of None \<Rightarrow> 0 | Some (a, ws) \<Rightarrow> unat (p - a))"

definition shl32 :: "32 word \<Rightarrow> int \<Rightarrow> 32 word" where
  "shl32 w n = push_bit (nat (n mod 32)) w"

definition shr32 :: "32 word \<Rightarrow> int \<Rightarrow> 32 word" where
  "shr32 w n = drop_bit (nat (n mod 32)) w"

text \<open>The quotient of two ints, rounded towards zero.\<close>

definition quot :: "int \<Rightarrow> int \<Rightarrow> int" where
  "quot a b = (if a < 0 then - ((- a) div b) else a div b)"

text \<open>\<^verbatim>\<open>memset\<close> of \<open>n\<close> bytes to zero from byte \<open>a\<close> of the allocation on, low byte of a word first.\<close>

definition zero_byte :: "nat \<Rightarrow> nat \<Rightarrow> nat \<Rightarrow> nat \<Rightarrow> 32 word \<Rightarrow> 32 word" where
  "zero_byte a n k j w = (if a \<le> 4 * k + j \<and> 4 * k + j < a + n then w AND NOT (push_bit (8 * j) 0xFF) else w)"

definition memset_zero :: "nat \<Rightarrow> nat \<Rightarrow> 32 word list \<Rightarrow> 32 word list" where
  "memset_zero a n ws = map (\<lambda>(k, w). fold (zero_byte a n k) [0, 1, 2, 3] w) (zip [0..<length ws] ws)"

section \<open>Operations\<close>

definition ResetStateTable :: "StateTable \<Rightarrow> StateTable" where
  "ResetStateTable t = t\<lparr>st_rowsCount := 0, st_columnsCount := 0, st_rowSize := 0, st_mem := None, st_base := 0, st_stride := 0\<rparr>"

definition InitializeStateTable :: "StateTable \<Rightarrow> StateTable" where
  "InitializeStateTable t = ResetStateTable (t\<lparr>st_mem := None\<rparr>)"

definition DeinitializeStateTable :: "StateTable \<Rightarrow> StateTable" where
  "DeinitializeStateTable t = ResetStateTable t"

text \<open>\<open>isBogus\<close> says that the caller asks for none of the results.\<close>

definition GetColumnInfo :: "StateTable \<Rightarrow> TICKET \<Rightarrow> bool \<Rightarrow> wu_error + unit" where
  "GetColumnInfo t ticket isBogus =
     (let rowEnd = OffsetPtr 0 (st_stride t); colbase = PtrFromTicket ticket; colnum = OrdinalFromTicket ticket
      in if colbase \<ge> rowEnd \<or> \<not> CheckTicket ticket \<or> colnum < 0 \<or> colnum \<ge> st_columnsCount t then Inl WUERR_BAD_TICKET
         else if isBogus then Inr () else Inl WUERR_DEBUG_FUNCTION_UNAVAILABLE)"

definition ValidateTicket :: "StateTable \<Rightarrow> TICKET \<Rightarrow> wu_error + unit" where
  "ValidateTicket t ticket = GetColumnInfo t ticket True"

text \<open>\<open>malloc\<close> gives the address of a fresh allocation of that many bytes, or nothing.\<close>

definition CreateStateTableRows :: "(64 word \<Rightarrow> 64 word option) \<Rightarrow> StateTable \<Rightarrow> int \<Rightarrow> 64 word \<Rightarrow> wu_error + StateTable" where
  "CreateStateTableRows malloc t rowsCount maxRowSize =
     (if \<not> rowsCount > 0 then Inl WU_ASSERTION
      else let bitmapSize = 4 * RoundSizeUp (word_of_int rowsCount) 32 div 32;
               rowSize = RoundSizeUp (st_rowSize t) ST_ALIGNMENT;
               headerSize = RoundSizeUp bitmapSize ST_ALIGNMENT;
               totalSize = headerSize + rowSize * word_of_int rowsCount + word_of_int ST_ALIGNMENT
           in if rowSize > maxRowSize then Inl WUERR_STATE_TABLE_MAX_ROW_SIZE_EXCEEDED
              else (case malloc totalSize of
                      None \<Rightarrow> Inl WUERR_NO_MEMORY
                    | Some addr \<Rightarrow>
                        Inr (t\<lparr>st_mem := Some (addr, replicate (unat headerSize div 4) 0xFFFFFFFF
                                                 @ replicate (unat (totalSize - headerSize) div 4) 0),
                               st_rowsCount := rowsCount, st_stride := rowSize,
                               st_base := AlignPtr (OffsetPtr addr headerSize) ST_ALIGNMENT\<rparr>)))"

definition ReserveStateTableColumn :: "StateTable \<Rightarrow> 64 word \<Rightarrow> int \<Rightarrow> wu_error + (TICKET \<times> StateTable)" where
  "ReserveStateTableColumn t sz alignment =
     (if \<not> (alignment \<ge> 0 \<and> Is2Power alignment) then Inl WU_ASSERTION
      else let al = (if alignment = 0 \<or> alignment > ST_ALIGNMENT then ST_ALIGNMENT else alignment);
               colnum = st_columnsCount t;
               p = AlignPtr (OffsetPtr 0 (st_rowSize t)) al;
               nsize = CalcPtrDistance 0 p + sz
           in if colnum \<ge> uint ST_MAX_COLUMNS then Inl WUERR_STATE_TABLE_MAX_NUMBER_OF_COLUMNS_EXCEEDED
              else if nsize \<ge> ST_MAX_ROW_SIZE then Inl WUERR_STATE_TABLE_MAX_ROW_SIZE_EXCEEDED
              else Inr (MakeTicket p colnum, t\<lparr>st_columnsCount := colnum + 1, st_rowSize := nsize\<rparr>))"

text \<open>
  In \<^verbatim>\<open>UINT32_C(1)<<rowId&31\<close> the shift binds tighter than the conjunction: the mask is the shifted one,
  cut to its five low bits.
\<close>

definition IsValidStateTableRowId :: "StateTable \<Rightarrow> int \<Rightarrow> wu_error + unit" where
  "IsValidStateTableRowId t rowId =
     (if rowId < 0 \<or> rowId \<ge> st_rowsCount t then Inl WUERR_STATE_TABLE_BAD_ROW_ID
      else sbind (mem_word t (nat (rowId div 32)))
             (\<lambda>w. if w AND (shl32 1 rowId AND 31) \<noteq> 0 then Inl WUERR_STATE_TABLE_BAD_ROW_ID else Inr ()))"

definition GetStateTableCell :: "StateTable \<Rightarrow> TICKET \<Rightarrow> int \<Rightarrow> wu_error + 64 word" where
  "GetStateTableCell t ticket rowId =
     sbind (ValidateTicket t ticket) (\<lambda>_.
     sbind (IsValidStateTableRowId t rowId) (\<lambda>_.
       Inr (OffsetPtr (st_base t) (st_stride t * word_of_int rowId + CalcPtrDistance 0 (PtrFromTicket ticket)))))"

definition GetStateTableMasterCell :: "StateTable \<Rightarrow> int \<Rightarrow> wu_error + 64 word" where
  "GetStateTableMasterCell t rowId = GetStateTableCell t (MakeTicket 0 0) rowId"

text \<open>The loop of the search: the word index and the value it stops with.\<close>

function scan :: "StateTable \<Rightarrow> nat \<Rightarrow> nat \<Rightarrow> 32 word \<Rightarrow> wu_error + (nat \<times> 32 word)" where
  "scan t e i v =
     (if v = 0 \<and> i + 1 < e then sbind (mem_word t (i + 1)) (\<lambda>w. scan t e (i + 1) w) else Inr (i, v))"
  by pat_completeness auto
termination by (relation "measure (\<lambda>(t, e, i, v). e - i)") auto

declare scan.simps [simp del]

definition OccupyStateTableFirstVacantRow :: "StateTable \<Rightarrow> int \<Rightarrow> int \<Rightarrow> wu_error + (int \<times> StateTable)" where
  "OccupyStateTableFirstVacantRow t rngBegin rngEnd =
     (let b = (if rngBegin < 0 then 0 else rngBegin);
          en = (if rngEnd > st_rowsCount t then st_rowsCount t else rngEnd);
          m0 = shl32 (NOT 0) b;
          m1 = shr32 (NOT 0) (32 - en);
          i = nat (b div 32);
          e = quot (en + 31) 32
      in sbind (if int i + 1 = e then sbind (mem_word t i) (\<lambda>w. Inr (i, w AND m0 AND m1))
                else if int i + 1 < e then
                  sbind (mem_word t i) (\<lambda>w.
                  sbind (scan t (nat e) i (w AND m0)) (\<lambda>(i', v).
                    if v = 0 then sbind (mem_word t (i' + 1)) (\<lambda>w'. Inr (i' + 1, w' AND m1)) else Inr (i', v)))
                else Inr (i, 0))
         (\<lambda>(i', v). if v = 0 then Inl WUERR_STATE_TABLE_FULL
                     else Inr (FindLowestBitSet v + int i' * 32,
                               set_words ((st_words t)[i' := (st_words t ! i') AND NOT (v AND - v)]) t)))"

definition SetStateTableIsVacantRowFlag :: "StateTable \<Rightarrow> int \<Rightarrow> bool \<Rightarrow> wu_error + StateTable" where
  "SetStateTableIsVacantRowFlag t rowId isVacant =
     (if rowId < 0 \<or> rowId \<ge> st_rowsCount t then Inl WUERR_STATE_TABLE_BAD_ROW_ID
      else let m = shl32 1 rowId;
               k = nat (rowId div 32);
               row = OffsetPtr (st_base t) (st_stride t * word_of_int rowId);
               ws = (if isVacant then memset_zero (byte_index t row) (unat (st_rowSize t)) (st_words t) else st_words t)
           in if k < length ws then Inr (set_words (ws[k := (if isVacant then ws ! k OR m else ws ! k AND NOT m)]) t)
              else Inl WU_ASSERTION)"

definition IsStateTableRowVacant :: "StateTable \<Rightarrow> int \<Rightarrow> wu_error + bool" where
  "IsStateTableRowVacant t rowId =
     (if rowId < 0 \<or> rowId \<ge> st_rowsCount t then Inl WUERR_STATE_TABLE_BAD_ROW_ID
      else sbind (mem_word t (nat (rowId div 32))) (\<lambda>w. Inr (w AND shl32 1 rowId \<noteq> 0)))"

end
