(* ===== verification/WuClients.thy ===== *)
theory WuClients
  imports StateTable
begin

text \<open>
  The clients of the version manager, \<^verbatim>\<open>kernel/sm/wu/wuclients.cpp\<close>: registration in the state table, the
  bitmap of ready clients, the current client of the thread, the lock on the set of clients and the
  enumeration of ready clients.
\<close>

unbundle bit_operations_syntax

section \<open>State\<close>

record ClSetup =
  setup_maxClientsCount :: int
  setup_maxSizePerClient :: int

record ClThreadState =
  th_currentClientId :: int
  th_clientSetLockCount :: int

record cl_state =
  cl_isInitialized :: bool
  cl_threadState :: ClThreadState
  cl_stateTable :: StateTable
  cl_readyClientsBitmap :: "32 word list"    \<comment> \<open>empty for \<^verbatim>\<open>NULL\<close>\<close>
  cl_clientsCount :: int
  cl_readyClientsCount :: int

definition INT_MAX :: int where
  "INT_MAX = 2147483647"

text \<open>The state block \<^verbatim>\<open>ClMgmtData\<close> is one \<^verbatim>\<open>int\<close>, the number of threads with this current client.\<close>

definition sizeof_ClMgmtData :: "64 word" where
  "sizeof_ClMgmtData = 4"

definition read_int :: "StateTable \<Rightarrow> 64 word \<Rightarrow> wu_error + int" where
  "read_int t p = sbind (mem_word t (byte_index t p div 4)) (\<lambda>w. Inr (sint w))"

definition write_int :: "StateTable \<Rightarrow> 64 word \<Rightarrow> int \<Rightarrow> wu_error + StateTable" where
  "write_int t p v = sbind (mem_word t (byte_index t p div 4)) (\<lambda>_. Inr (set_words ((st_words t)[byte_index t p div 4 := word_of_int v]) t))"

definition row_as_client_error :: "wu_error + 'a \<Rightarrow> wu_error + 'a" where
  "row_as_client_error r = (case r of Inl e \<Rightarrow> Inl (if e = WUERR_STATE_TABLE_BAD_ROW_ID then WUERR_BAD_CLIENT_ID else e) | Inr a \<Rightarrow> Inr a)"

section \<open>Starting and stopping\<close>

definition ClInitialize :: "cl_state \<Rightarrow> wu_error option \<times> cl_state" where
  "ClInitialize s =
     (let s1 = s\<lparr>cl_readyClientsBitmap := [], cl_clientsCount := 0, cl_readyClientsCount := 0,
                 cl_stateTable := InitializeStateTable (cl_stateTable s)\<rparr>
      in case ReserveStateTableColumn (cl_stateTable s1) sizeof_ClMgmtData 0 of
           Inl e \<Rightarrow> (Some e, s1)
         | Inr (dummy, t) \<Rightarrow> (None, s1\<lparr>cl_stateTable := t, cl_isInitialized := True\<rparr>))"

definition ClReserveStateBlocks :: "64 word \<Rightarrow> cl_state \<Rightarrow> wu_error + (TICKET \<times> cl_state)" where
  "ClReserveStateBlocks sz s =
     sbind (ReserveStateTableColumn (cl_stateTable s) sz 0) (\<lambda>(ticket, t). Inr (ticket, s\<lparr>cl_stateTable := t\<rparr>))"

text \<open>When the allocation of the bitmap fails no error is set.\<close>

definition ClStartup :: "(64 word \<Rightarrow> 64 word option) \<Rightarrow> ClSetup \<Rightarrow> cl_state \<Rightarrow> bool \<times> wu_error option \<times> cl_state" where
  "ClStartup malloc setup s =
     (if setup_maxClientsCount setup < 0 then (False, Some WUERR_BAD_PARAMS, s)
      else let sz = 4 * RoundSizeUp (word_of_int (setup_maxClientsCount setup)) 32 div 32
           in case malloc sz of
                None \<Rightarrow> (False, None, s\<lparr>cl_readyClientsBitmap := []\<rparr>)
              | Some addr \<Rightarrow>
                  (case CreateStateTableRows malloc (cl_stateTable s) (setup_maxClientsCount setup)
                          (word_of_int (setup_maxSizePerClient setup)) of
                     Inl e \<Rightarrow> (False, Some e, s\<lparr>cl_readyClientsBitmap := []\<rparr>)
                   | Inr t \<Rightarrow> (True, None, s\<lparr>cl_readyClientsBitmap := replicate (unat sz div 4) 0, cl_stateTable := t\<rparr>)))"

definition ClShutdown :: bool where
  "ClShutdown = True"

definition ClDeinitialize :: "cl_state \<Rightarrow> cl_state" where
  "ClDeinitialize s =
     (let s1 = (if cl_isInitialized s
                then s\<lparr>cl_readyClientsBitmap := [], cl_clientsCount := 0, cl_readyClientsCount := 0,
                       cl_stateTable := DeinitializeStateTable (cl_stateTable s)\<rparr>
                else s)
      in s1\<lparr>cl_isInitialized := False\<rparr>)"

definition ClQueryMaxClientsCount :: "cl_state \<Rightarrow> int" where
  "ClQueryMaxClientsCount s = st_rowsCount (cl_stateTable s)"

section \<open>Registration\<close>

definition ClRegisterClient :: "int \<Rightarrow> bool \<Rightarrow> cl_state \<Rightarrow> wu_error + (int \<times> cl_state)" where
  "ClRegisterClient clientId isFixed s =
     sbind (if isFixed then
              sbind (row_as_client_error (IsStateTableRowVacant (cl_stateTable s) clientId)) (\<lambda>isVacant.
                if \<not> isVacant then Inl WUERR_CLIENT_ID_ALREADY_IN_USE
                else sbind (SetStateTableIsVacantRowFlag (cl_stateTable s) clientId False) (\<lambda>t. Inr (clientId, t)))
            else OccupyStateTableFirstVacantRow (cl_stateTable s) 0 INT_MAX)
       (\<lambda>(row, t). case GetStateTableMasterCell t row of
                      Inl e \<Rightarrow> Inl WU_ASSERTION
                    | Inr mgmtData \<Rightarrow>
                        sbind (write_int t mgmtData 0) (\<lambda>t'. Inr (row, s\<lparr>cl_stateTable := t', cl_clientsCount := cl_clientsCount s + 1\<rparr>)))"

datatype ready_flag = MARK_READY | MARK_LEAVING

definition bitmap_word :: "cl_state \<Rightarrow> int \<Rightarrow> wu_error + 32 word" where
  "bitmap_word s clientId =
     (let k = nat (clientId div 32)
      in if k < length (cl_readyClientsBitmap s) then Inr (cl_readyClientsBitmap s ! k) else Inl WU_ASSERTION)"

definition set_bitmap_word :: "int \<Rightarrow> 32 word \<Rightarrow> cl_state \<Rightarrow> cl_state" where
  "set_bitmap_word clientId w s = s\<lparr>cl_readyClientsBitmap := (cl_readyClientsBitmap s)[nat (clientId div 32) := w]\<rparr>"

definition ClMarkClientReadyOrLeaving :: "int \<Rightarrow> ready_flag \<Rightarrow> cl_state \<Rightarrow> wu_error + cl_state" where
  "ClMarkClientReadyOrLeaving clientId flag s =
     (if th_clientSetLockCount (cl_threadState s) > 0 then Inl WUERR_CLIENT_SET_DEADLOCK_DETECTED
      else sbind (row_as_client_error (IsValidStateTableRowId (cl_stateTable s) clientId)) (\<lambda>_.
           sbind (bitmap_word s clientId) (\<lambda>pval.
             let mask = shl32 1 (clientId mod 32)
             in case flag of
                  MARK_READY \<Rightarrow>
                    if mask AND pval = 0
                    then Inr ((set_bitmap_word clientId (pval OR mask) s)\<lparr>cl_readyClientsCount := cl_readyClientsCount s + 1\<rparr>)
                    else Inl WUERR_CLIENT_ALREADY_MARKED_READY
                | MARK_LEAVING \<Rightarrow>
                    if mask AND pval \<noteq> 0
                    then Inr ((set_bitmap_word clientId (pval AND NOT mask) s)\<lparr>cl_readyClientsCount := cl_readyClientsCount s - 1\<rparr>)
                    else Inl WUERR_CLIENT_ALREADY_MARKED_LEAVING)))"

definition ClMarkClientReady :: "int \<Rightarrow> cl_state \<Rightarrow> wu_error + cl_state" where
  "ClMarkClientReady clientId s = ClMarkClientReadyOrLeaving clientId MARK_READY s"

definition ClMarkClientLeaving :: "int \<Rightarrow> cl_state \<Rightarrow> wu_error + cl_state" where
  "ClMarkClientLeaving clientId s = ClMarkClientReadyOrLeaving clientId MARK_LEAVING s"

definition ClUnregisterClient :: "int \<Rightarrow> cl_state \<Rightarrow> wu_error + cl_state" where
  "ClUnregisterClient clientId s =
     sbind (row_as_client_error (GetStateTableMasterCell (cl_stateTable s) clientId)) (\<lambda>mgmtData.
     sbind (read_int (cl_stateTable s) mgmtData) (\<lambda>currentCntr.
       if currentCntr > 0 then Inl WUERR_UNABLE_TO_UNREGISTER_CURRENT_CLIENT
       else sbind (bitmap_word s clientId) (\<lambda>pval.
         if pval AND shl32 1 (clientId mod 32) \<noteq> 0 then Inl WUERR_UNABLE_TO_UNREGISTER_READY_CLIENT
         else sbind (SetStateTableIsVacantRowFlag (cl_stateTable s) clientId True)
                (\<lambda>t. Inr (s\<lparr>cl_stateTable := t, cl_clientsCount := cl_clientsCount s - 1\<rparr>)))))"

section \<open>The current client\<close>

definition ClGetCurrentClientId :: "cl_state \<Rightarrow> int" where
  "ClGetCurrentClientId s = th_currentClientId (cl_threadState s)"

definition set_current :: "int \<Rightarrow> cl_state \<Rightarrow> cl_state" where
  "set_current clientId s = s\<lparr>cl_threadState := (cl_threadState s)\<lparr>th_currentClientId := clientId\<rparr>\<rparr>"

text \<open>Adding to the counter of a client's management block.\<close>

definition add_current :: "int \<Rightarrow> 64 word \<Rightarrow> cl_state \<Rightarrow> wu_error + cl_state" where
  "add_current d mgmtData s =
     sbind (read_int (cl_stateTable s) mgmtData) (\<lambda>c.
     sbind (write_int (cl_stateTable s) mgmtData (c + d)) (\<lambda>t. Inr (s\<lparr>cl_stateTable := t\<rparr>)))"

text \<open>
  Leaving the current client. The source asserts that its block is there and that its counter is positive.
\<close>

definition leave_current :: "cl_state \<Rightarrow> wu_error + cl_state" where
  "leave_current s =
     (if th_currentClientId (cl_threadState s) = -1 then Inr s
      else (case GetStateTableMasterCell (cl_stateTable s) (th_currentClientId (cl_threadState s)) of
              Inl e \<Rightarrow> Inl WU_ASSERTION
            | Inr mgmtData \<Rightarrow>
                sbind (read_int (cl_stateTable s) mgmtData) (\<lambda>c.
                  if \<not> c > 0 then Inl WU_ASSERTION
                  else sbind (add_current (- 1) mgmtData s) (\<lambda>s1. Inr (set_current (- 1) s1)))))"

definition ClSetCurrentClientId :: "int \<Rightarrow> cl_state \<Rightarrow> wu_error option \<times> cl_state" where
  "ClSetCurrentClientId clientId s =
     (case leave_current s of
        Inl e \<Rightarrow> (Some e, s)
      | Inr s1 \<Rightarrow>
          if clientId = -1 then (None, s1)
          else (case sbind (row_as_client_error (GetStateTableMasterCell (cl_stateTable s1) clientId)) (\<lambda>mgmtData. add_current 1 mgmtData s1) of
                  Inl e \<Rightarrow> (Some e, s1)
                | Inr s2 \<Rightarrow> (None, set_current clientId s2)))"

definition ClGetCurrentStateBlock :: "TICKET \<Rightarrow> cl_state \<Rightarrow> wu_error + 64 word" where
  "ClGetCurrentStateBlock ticket s = GetStateTableCell (cl_stateTable s) ticket (th_currentClientId (cl_threadState s))"

definition ClGetStateBlock :: "TICKET \<Rightarrow> int \<Rightarrow> cl_state \<Rightarrow> wu_error + 64 word" where
  "ClGetStateBlock ticket clientId s = GetStateTableCell (cl_stateTable s) ticket clientId"

section \<open>The set of clients\<close>

definition ClLockClientsSet :: "cl_state \<Rightarrow> wu_error + cl_state" where
  "ClLockClientsSet s =
     (let c = th_clientSetLockCount (cl_threadState s)
      in if c = INT_MAX then Inl WUERR_CLIENT_SET_MAX_NUMBER_OF_LOCKS_EXCEEDED
         else Inr (s\<lparr>cl_threadState := (cl_threadState s)\<lparr>th_clientSetLockCount := c + 1\<rparr>\<rparr>))"

definition ClUnlockClientsSet :: "cl_state \<Rightarrow> wu_error + cl_state" where
  "ClUnlockClientsSet s =
     (let c = th_clientSetLockCount (cl_threadState s)
      in if c \<le> 0 then (if c = 0 then Inl WUERR_CLIENT_SET_ALREADY_UNLOCKED else Inl WU_ASSERTION)
         else Inr (s\<lparr>cl_threadState := (cl_threadState s)\<lparr>th_clientSetLockCount := c - 1\<rparr>\<rparr>))"

definition ClIsClientReady :: "int \<Rightarrow> cl_state \<Rightarrow> wu_error + bool" where
  "ClIsClientReady clientId s =
     sbind (row_as_client_error (IsValidStateTableRowId (cl_stateTable s) clientId)) (\<lambda>_.
     sbind (bitmap_word s clientId) (\<lambda>w. Inr (w AND shl32 1 (clientId mod 32) \<noteq> 0)))"

section \<open>Enumeration\<close>

record 'u ClEnumerateClientsParams =
  ec_clientsCount :: int
  ec_alreadyEnumeratedCount :: int
  ec_userData :: 'u

text \<open>
  The procedure works on the parameters and says whether to go on. It sees the clients but does not
  change them: marking clients is refused while the set is locked.
\<close>

type_synonym 'u enum_clients_proc = "'u ClEnumerateClientsParams \<Rightarrow> int \<Rightarrow> bool \<times> 'u ClEnumerateClientsParams"

text \<open>The inner loop over one word: \<open>base\<close> is the number of its lowest bit.\<close>

function enum_word :: "'u enum_clients_proc \<Rightarrow> int \<Rightarrow> int \<Rightarrow> 32 word \<Rightarrow> int \<Rightarrow> 'u ClEnumerateClientsParams \<Rightarrow> int \<times> 'u ClEnumerateClientsParams" where
  "enum_word enumProc ready base temp cnt params =
     (if temp = 0 then (cnt, params)
      else (case ResetLowestBitSet temp of
              (bitid, temp') \<Rightarrow>
                (case enumProc (params\<lparr>ec_clientsCount := ready, ec_alreadyEnumeratedCount := cnt\<rparr>) (base + bitid) of
                   (False, params') \<Rightarrow> (cnt, params')
                 | (True, params') \<Rightarrow> enum_word enumProc ready base temp' (cnt + 1) params')))"
  by pat_completeness auto
termination by (relation "measure (\<lambda>(_, _, _, temp, _). card {n. bit temp n})") (auto intro: reset_lowest_fewer)

declare enum_word.simps [simp del]

text \<open>
  The outer loop over the words of the bitmap. The \<^verbatim>\<open>break\<close> of the inner loop does not end it.
\<close>

fun enum_words :: "'u enum_clients_proc \<Rightarrow> int \<Rightarrow> int \<Rightarrow> 32 word list \<Rightarrow> int \<Rightarrow> 'u ClEnumerateClientsParams \<Rightarrow> int \<times> 'u ClEnumerateClientsParams" where
  "enum_words enumProc ready base [] cnt params = (cnt, params)"
| "enum_words enumProc ready base (w # ws) cnt params =
     (case enum_word enumProc ready base w cnt params of
        (cnt', params') \<Rightarrow> enum_words enumProc ready (base + 32) ws cnt' params')"

definition ClEnumerateClients :: "'u enum_clients_proc \<Rightarrow> 'u ClEnumerateClientsParams \<Rightarrow> cl_state
    \<Rightarrow> wu_error + ('u ClEnumerateClientsParams \<times> cl_state)" where
  "ClEnumerateClients enumProc params s =
     (let n = unat (RoundSizeUp (word_of_int (st_rowsCount (cl_stateTable s))) 32 div 32) in
      case ClLockClientsSet s of
        Inl e \<Rightarrow> Inl WU_ASSERTION
      | Inr s1 \<Rightarrow>
          if n > length (cl_readyClientsBitmap s1) then Inl WU_ASSERTION
          else (case enum_words enumProc (cl_readyClientsCount s1) 0 (take n (cl_readyClientsBitmap s1)) 0 params of
                  (cnt, params') \<Rightarrow>
                    (case ClUnlockClientsSet s1 of Inl e \<Rightarrow> Inl WU_ASSERTION | Inr s2 \<Rightarrow> Inr (params', s2))))"

end
