(* ===== verification/StateTableViews.thy ===== *)
theory StateTableViews
  imports StateTable
begin

text \<open>
  What the operations of the state table do: tickets and columns, the layout of the allocation, the vacancy
  bits, the search for the first vacant row, and the addresses of cells.
\<close>

unbundle bit_operations_syntax

section \<open>Ticket fields\<close>

lemma mask_consts: "ST_MAX_ROW_SIZE - 1 = mask 19" "ST_MAX_COLUMNS - 1 = mask 7"
  by (simp_all add: ST_MAX_ROW_SIZE_def ST_MAX_COLUMNS_def mask_eq_exp_minus_1)

lemma bit_above:
  assumes "unat (p :: 64 word) < 2 ^ k" "bit p n"
  shows "n < k"
proof -
  have "bit (unat p) n" using assms(2) by (simp add: bit_unsigned_iff bit_imp_le_length)
  then have "odd (unat p div 2 ^ n)" by (simp add: bit_iff_odd)
  then have "2 ^ n \<le> unat p" by (cases "unat p < 2 ^ n") auto
  then have "(2 :: nat) ^ n < 2 ^ k" using assms(1) by (rule le_less_trans)
  then show ?thesis by simp
qed

lemma PtrFromTicket_Make:
  assumes "unat p < 2 ^ 19"
  shows "PtrFromTicket (MakeTicket p ordinal) = p"
proof -
  have "n < 19" if "bit p n" for n using bit_above[OF assms that] .
  then show ?thesis unfolding PtrFromTicket_def MakeTicket_def mask_consts ST_TICKET_PTR_BITS_def
    by (intro bit_eqI) (auto simp: bit_and_iff bit_or_iff bit_xor_iff bit_mask_iff bit_push_bit_iff)
qed

lemma OrdinalFromTicket_Make:
  assumes "0 \<le> ordinal" "ordinal < 128"
  shows "OrdinalFromTicket (MakeTicket p ordinal) = ordinal"
proof -
  let ?o = "word_of_int ordinal :: 64 word"
  have u: "uint ?o = ordinal" using assms by (simp add: uint_word_of_int)
  then have "unat ?o < 2 ^ 7" using assms by (simp add: unat_eq_nat_uint)
  then have "n < 7 \<and> n < 44" if "bit ?o n" for n using bit_above[of ?o 7 n] that by simp
  then have "drop_bit ST_TICKET_PTR_BITS (MakeTicket p ordinal XOR ST_TICKET_XOR_MASK) AND (ST_MAX_COLUMNS - 1) = ?o"
    unfolding MakeTicket_def mask_consts ST_TICKET_PTR_BITS_def
    by (intro bit_eqI) (auto simp: bit_and_iff bit_or_iff bit_xor_iff bit_mask_iff bit_push_bit_iff bit_drop_bit_eq)
  then show ?thesis using u by (simp add: OrdinalFromTicket_def)
qed

lemma MakeTicket_not_null: "MakeTicket p ordinal \<noteq> 0"
proof
  assume "MakeTicket p ordinal = 0"
  then have "bit (MakeTicket p ordinal) 31 = bit (0 :: 64 word) 31" by simp
  moreover have "bit ST_TICKET_XOR_MASK 31" by code_simp
  ultimately show False unfolding MakeTicket_def mask_consts ST_TICKET_PTR_BITS_def
    by (simp add: bit_and_iff bit_or_iff bit_xor_iff bit_mask_iff bit_push_bit_iff)
qed

section \<open>Columns\<close>

definition table_cols_ok :: "StateTable \<Rightarrow> bool" where
  "table_cols_ok t \<longleftrightarrow> unat (st_rowSize t) < 2 ^ 19 \<and> 0 \<le> st_columnsCount t \<and> st_columnsCount t \<le> 128"

lemma ReserveStateTableColumn_layout:
  assumes ok: "table_cols_ok t" and sz: "unat sz < 2 ^ 63" and r: "ReserveStateTableColumn t sz 0 = Inr (ticket, t')"
  shows "unat (st_rowSize t) \<le> unat (PtrFromTicket ticket)" "8 dvd unat (PtrFromTicket ticket)"
    "unat (PtrFromTicket ticket) + unat sz = unat (st_rowSize t')" "OrdinalFromTicket ticket = st_columnsCount t"
    "st_columnsCount t' = st_columnsCount t + 1" "table_cols_ok t'" "st_mem t' = st_mem t" "st_stride t' = st_stride t"
proof -
  let ?p = "AlignPtr (st_rowSize t) 8"
  have al: "AlignPtr (st_rowSize t) 8 = AlignPtr (st_rowSize t) (2 ^ 3)" by simp
  have p: "unat ?p = (unat (st_rowSize t) + 8 - 1) div 8 * 8"
    unfolding al by (subst AlignPtr_nat) (use ok in \<open>auto simp: table_cols_ok_def\<close>)
  note b = round_up_bounds[of 8 "unat (st_rowSize t)", folded p]
  have pl: "unat ?p < 2 ^ 19 + 8" using b(2) ok by (simp add: table_cols_ok_def)
  then have s: "unat (?p + sz) = unat ?p + unat sz" using sz by (subst unat_add_lem[THEN iffD1]) auto
  have R: "st_columnsCount t < 128" "unat (?p + sz) < 2 ^ 19" "ticket = MakeTicket ?p (st_columnsCount t)"
    "t' = t\<lparr>st_columnsCount := st_columnsCount t + 1, st_rowSize := ?p + sz\<rparr>"
    using r by (auto simp: ReserveStateTableColumn_def Let_def ST_ALIGNMENT_def OffsetPtr_def CalcPtrDistance_def
        ST_MAX_COLUMNS_def ST_MAX_ROW_SIZE_def word_le_nat_alt not_le split: if_splits)
  have q: "PtrFromTicket ticket = ?p" unfolding R(3) by (rule PtrFromTicket_Make) (use R(2) s in simp)
  show "unat (st_rowSize t) \<le> unat (PtrFromTicket ticket)" "8 dvd unat (PtrFromTicket ticket)" using b q by simp_all
  show "unat (PtrFromTicket ticket) + unat sz = unat (st_rowSize t')" using q s R(4) by simp
  show "OrdinalFromTicket ticket = st_columnsCount t" unfolding R(3) by (rule OrdinalFromTicket_Make) (use ok R(1) in \<open>auto simp: table_cols_ok_def\<close>)
  show "st_columnsCount t' = st_columnsCount t + 1" "st_mem t' = st_mem t" "st_stride t' = st_stride t" using R(4) by simp_all
  show "table_cols_ok t'" using ok R by (simp add: table_cols_ok_def)
qed

fun reserve_all :: "StateTable \<Rightarrow> 64 word list \<Rightarrow> wu_error + (TICKET list \<times> StateTable)" where
  "reserve_all t [] = Inr ([], t)"
| "reserve_all t (sz # szs) =
     sbind (ReserveStateTableColumn t sz 0) (\<lambda>(ticket, t').
     sbind (reserve_all t' szs) (\<lambda>(tickets, t''). Inr (ticket # tickets, t'')))"

abbreviation off :: "TICKET \<Rightarrow> nat" where
  "off ticket \<equiv> unat (PtrFromTicket ticket)"

lemma reserve_all_layout:
  assumes "table_cols_ok t" "\<forall>sz\<in>set szs. unat sz < 2 ^ 63" "reserve_all t szs = Inr (tickets, t')"
  shows "length tickets = length szs \<and> table_cols_ok t' \<and> st_columnsCount t' = st_columnsCount t + int (length szs)
    \<and> unat (st_rowSize t) \<le> unat (st_rowSize t')
    \<and> (\<forall>i<length szs. unat (st_rowSize t) \<le> off (tickets ! i) \<and> 8 dvd off (tickets ! i)
         \<and> off (tickets ! i) + unat (szs ! i) \<le> unat (st_rowSize t') \<and> OrdinalFromTicket (tickets ! i) = st_columnsCount t + int i
         \<and> (\<forall>j<i. off (tickets ! j) + unat (szs ! j) \<le> off (tickets ! i)))"
  using assms
proof (induction szs arbitrary: t tickets)
  case (Cons sz szs)
  obtain tk t1 where r: "ReserveStateTableColumn t sz 0 = Inr (tk, t1)" using Cons.prems(3) by (auto elim!: sbind_InrE)
  with Cons.prems(3) obtain tks where rs: "reserve_all t1 szs = Inr (tks, t')" and tk: "tickets = tk # tks" by (auto elim!: sbind_InrE)
  note l = ReserveStateTableColumn_layout[OF Cons.prems(1) _ r]
  have l1: "unat (st_rowSize t) \<le> off tk" "8 dvd off tk" "off tk + unat sz = unat (st_rowSize t1)" "OrdinalFromTicket tk = st_columnsCount t"
    "st_columnsCount t1 = st_columnsCount t + 1" "table_cols_ok t1" using l Cons.prems(2) by auto
  have IH: "length tks = length szs" "table_cols_ok t'" "st_columnsCount t' = st_columnsCount t1 + int (length szs)"
    "unat (st_rowSize t1) \<le> unat (st_rowSize t')"
    "\<forall>i<length szs. unat (st_rowSize t1) \<le> off (tks ! i) \<and> 8 dvd off (tks ! i)
         \<and> off (tks ! i) + unat (szs ! i) \<le> unat (st_rowSize t') \<and> OrdinalFromTicket (tks ! i) = st_columnsCount t1 + int i
         \<and> (\<forall>j<i. off (tks ! j) + unat (szs ! j) \<le> off (tks ! i))"
    using Cons.IH[OF l1(6) _ rs] Cons.prems(2) by auto
  have "unat (st_rowSize t) \<le> off (tickets ! i) \<and> 8 dvd off (tickets ! i)
         \<and> off (tickets ! i) + unat ((sz # szs) ! i) \<le> unat (st_rowSize t') \<and> OrdinalFromTicket (tickets ! i) = st_columnsCount t + int i
         \<and> (\<forall>j<i. off (tickets ! j) + unat ((sz # szs) ! j) \<le> off (tickets ! i))" if "i < length (sz # szs)" for i
  proof (cases i)
    case 0
    with l1 IH(4) tk show ?thesis by simp
  next
    case (Suc k)
    then have k: "k < length szs" using that by simp
    have "off (tickets ! j) + unat ((sz # szs) ! j) \<le> off (tks ! k)" if "j < Suc k" for j
      using IH(5) k l1(3) tk that by (cases j) auto
    with Suc k IH(5) l1 tk show ?thesis by auto
  qed
  with l1 IH tk show ?case by auto
qed simp

definition bitmap_words :: "int \<Rightarrow> nat" where
  "bitmap_words n = (nat n + 31) div 32"

definition header_bytes :: "int \<Rightarrow> nat" where
  "header_bytes n = (4 * bitmap_words n + 7) div 8 * 8"

text \<open>What \<^verbatim>\<open>CreateStateTableRows\<close> sets up.\<close>

definition rows_ok :: "StateTable \<Rightarrow> bool" where
  "rows_ok t \<longleftrightarrow> (case st_mem t of None \<Rightarrow> False | Some (addr, ws) \<Rightarrow>
     0 < st_rowsCount t \<and> st_rowsCount t < 2 ^ 31 \<and> st_base t = addr + of_nat (header_bytes (st_rowsCount t))
     \<and> 4 * length ws = header_bytes (st_rowsCount t) + unat (st_stride t) * nat (st_rowsCount t) + 8
     \<and> 4 * length ws < 2 ^ 62 \<and> unat (st_rowSize t) \<le> unat (st_stride t) \<and> 8 dvd unat (st_stride t))"

lemma bitmap_size:
  assumes "0 < n" "n < 2 ^ 31"
  shows "unat (4 * RoundSizeUp (word_of_int n) 32 div 32) = 4 * bitmap_words n"
proof -
  have n: "unat (word_of_int n :: 64 word) = nat n" using assms by (simp add: unat_eq_nat_uint uint_word_of_int)
  have b: "nat n < 2 ^ 31" using assms by simp
  have e: "RoundSizeUp (word_of_int n) 32 = RoundSizeUp (word_of_int n) (2 ^ 5)" by simp
  have r: "unat (RoundSizeUp (word_of_int n) 32) = bitmap_words n * 32"
    unfolding e by (subst RoundSizeUp_nat) (use n b in \<open>auto simp: bitmap_words_def\<close>)
  have "bitmap_words n * 32 \<le> nat n + 31" by (simp add: bitmap_words_def)
  then have "unat (4 * RoundSizeUp (word_of_int n) 32) = 4 * (bitmap_words n * 32)"
    using r b by (subst unat_mult_lem[THEN iffD1]) auto
  then show ?thesis by (simp add: unat_div)
qed

lemma round8:
  assumes "unat sz < 2 ^ 62"
  shows "unat (RoundSizeUp sz ST_ALIGNMENT) = (unat sz + 7) div 8 * 8"
proof -
  have e: "RoundSizeUp sz ST_ALIGNMENT = RoundSizeUp sz (2 ^ 3)" by (simp add: ST_ALIGNMENT_def)
  show ?thesis unfolding e by (subst RoundSizeUp_nat) (use assms in auto)
qed

section \<open>Rows\<close>

lemma header_bytes_bound: "0 < n \<Longrightarrow> n < 2 ^ 31 \<Longrightarrow> header_bytes n < 2 ^ 30"
proof -
  assume "0 < n" "n < 2 ^ 31"
  then have "nat n < 2 ^ 31" by simp
  then have "bitmap_words n < 2 ^ 27" by (simp add: bitmap_words_def less_mult_imp_div_less)
  then show ?thesis by (simp add: header_bytes_def)
qed

text \<open>An allocator returns addresses aligned for any type, so at least to eight bytes.\<close>

definition aligned8 :: "64 word \<Rightarrow> bool" where
  "aligned8 a \<longleftrightarrow> 8 dvd unat a \<and> unat a < 2 ^ 63"

lemma AlignPtr_aligned:
  assumes "8 dvd unat p" "unat p < 2 ^ 63 + 2 ^ 62"
  shows "AlignPtr p ST_ALIGNMENT = p"
proof -
  have e: "AlignPtr p ST_ALIGNMENT = AlignPtr p (2 ^ 3)" by (simp add: ST_ALIGNMENT_def)
  obtain q where q: "unat p = 8 * q" using assms(1) by (elim dvdE)
  have "unat (AlignPtr p (2 ^ 3)) = unat p"
    by (subst AlignPtr_nat) (use assms(2) q in auto)
  then show ?thesis unfolding e by (simp add: word_unat_eq_iff)
qed

lemma CreateStateTableRows_ok:
  assumes c: "CreateStateTableRows malloc t n maxRowSize = Inr t'" and n: "n < 2 ^ 31" and t: "unat (st_rowSize t) < 2 ^ 19"
    and al: "\<forall>k a. malloc k = Some a \<longrightarrow> aligned8 a"
  shows "rows_ok t'" "st_rowsCount t' = n" "st_columnsCount t' = st_columnsCount t" "st_rowSize t' = st_rowSize t"
    "\<forall>k<bitmap_words n. st_words t' ! k = 0xFFFFFFFF" "bitmap_words n \<le> length (st_words t')"
proof -
  define rowSize where "rowSize = RoundSizeUp (st_rowSize t) ST_ALIGNMENT"
  define headerSize where "headerSize = RoundSizeUp (4 * RoundSizeUp (word_of_int n) 32 div 32) ST_ALIGNMENT"
  define totalSize where "totalSize = headerSize + rowSize * word_of_int n + word_of_int ST_ALIGNMENT"
  have n0: "0 < n" and m: "\<exists>addr. malloc totalSize = Some addr \<and>
      t' = t\<lparr>st_mem := Some (addr, replicate (unat headerSize div 4) 0xFFFFFFFF @ replicate (unat (totalSize - headerSize) div 4) 0),
         st_rowsCount := n, st_stride := rowSize, st_base := AlignPtr (OffsetPtr addr headerSize) ST_ALIGNMENT\<rparr>"
    using c by (auto simp: CreateStateTableRows_def Let_def rowSize_def headerSize_def totalSize_def split: if_splits option.splits)
  then obtain addr where addr: "malloc totalSize = Some addr"
    and t': "t' = t\<lparr>st_mem := Some (addr, replicate (unat headerSize div 4) 0xFFFFFFFF @ replicate (unat (totalSize - headerSize) div 4) 0),
         st_rowsCount := n, st_stride := rowSize, st_base := AlignPtr (OffsetPtr addr headerSize) ST_ALIGNMENT\<rparr>" by auto
  note hb = header_bytes_bound[OF n0 n]
  have "bitmap_words n \<le> header_bytes n" by (simp add: header_bytes_def)
  then have h: "unat headerSize = header_bytes n"
    unfolding headerSize_def by (subst round8) (use bitmap_size[OF n0 n] hb in \<open>auto simp: header_bytes_def\<close>)
  have r: "unat rowSize = (unat (st_rowSize t) + 7) div 8 * 8" unfolding rowSize_def by (rule round8) (use t in simp)
  have rb: "unat (st_rowSize t) \<le> unat rowSize" "unat rowSize < 2 ^ 20" "8 dvd unat rowSize"
    using round_up_bounds[of 8 "unat (st_rowSize t)"] t unfolding r by auto
  have wn: "unat (word_of_int n :: 64 word) = nat n" using n0 n by (simp add: unat_eq_nat_uint uint_word_of_int)
  have bd: "unat rowSize * nat n < 2 ^ 51"
    using rb(2) n mult_strict_mono[of "unat rowSize" "2 ^ 20" "nat n" "2 ^ 31"] by simp
  then have p: "unat (rowSize * word_of_int n) = unat rowSize * nat n" using wn by (subst unat_mult_lem[THEN iffD1]) auto
  then have tot: "unat (totalSize - headerSize) = unat rowSize * nat n + 8"
    unfolding totalSize_def ST_ALIGNMENT_def using bd by simp (subst unat_add_lem[THEN iffD1]; simp)
  have a8: "aligned8 addr" using al addr by blast
  have o: "unat (OffsetPtr addr headerSize) = unat addr + header_bytes n"
    unfolding OffsetPtr_def using h hb a8 by (subst unat_add_lem[THEN iffD1]) (auto simp: aligned8_def)
  have "8 dvd header_bytes n" by (simp add: header_bytes_def)
  then have base: "AlignPtr (OffsetPtr addr headerSize) ST_ALIGNMENT = OffsetPtr addr headerSize"
    using o a8 hb by (intro AlignPtr_aligned) (auto simp: aligned8_def)
  have "headerSize = of_nat (header_bytes n)" using h[symmetric] by simp
  then have b: "OffsetPtr addr headerSize = addr + of_nat (header_bytes n)" by (simp add: OffsetPtr_def)
  have d4: "4 * (header_bytes n div 4) = header_bytes n" "4 * ((unat rowSize * nat n + 8) div 4) = unat rowSize * nat n + 8"
  proof -
    show "4 * (header_bytes n div 4) = header_bytes n" by (simp add: header_bytes_def)
    obtain q where "unat rowSize = 8 * q" using rb(3) by (elim dvdE)
    then show "4 * ((unat rowSize * nat n + 8) div 4) = unat rowSize * nat n + 8" by (simp add: algebra_simps)
  qed
  show "rows_ok t'" using t' base b n0 n h tot d4 rb hb bd by (simp add: rows_ok_def distrib_left)
  show "st_rowsCount t' = n" "st_columnsCount t' = st_columnsCount t" "st_rowSize t' = st_rowSize t" using t' by simp_all
  have hw: "bitmap_words n \<le> header_bytes n div 4" by (simp add: header_bytes_def)
  show "\<forall>k<bitmap_words n. st_words t' ! k = 0xFFFFFFFF" "bitmap_words n \<le> length (st_words t')"
    using t' h hw by (auto simp: st_words_def nth_append)
qed

section \<open>Vacancy\<close>

definition vacant :: "StateTable \<Rightarrow> nat \<Rightarrow> bool" where
  "vacant t r \<longleftrightarrow> bit (st_words t ! (r div 32)) (r mod 32)"

abbreviation rows :: "StateTable \<Rightarrow> nat" where
  "rows t \<equiv> nat (st_rowsCount t)"

lemma rows_okE:
  assumes "rows_ok t"
  obtains addr where "st_mem t = Some (addr, st_words t)" "0 < st_rowsCount t" "st_rowsCount t < 2 ^ 31"
    "st_base t = addr + of_nat (header_bytes (st_rowsCount t))"
    "4 * length (st_words t) = header_bytes (st_rowsCount t) + unat (st_stride t) * rows t + 8" "4 * length (st_words t) < 2 ^ 62"
    "unat (st_rowSize t) \<le> unat (st_stride t)" "8 dvd unat (st_stride t)"
  using assms by (auto simp: rows_ok_def st_words_def split: option.splits)

lemma bitmap_inside:
  assumes "rows_ok t" "r < rows t"
  shows "r div 32 < bitmap_words (st_rowsCount t)" "bitmap_words (st_rowsCount t) \<le> header_bytes (st_rowsCount t) div 4"
    "header_bytes (st_rowsCount t) div 4 < length (st_words t)"
proof -
  show "r div 32 < bitmap_words (st_rowsCount t)" using assms(2) by (simp add: bitmap_words_def)
  show "bitmap_words (st_rowsCount t) \<le> header_bytes (st_rowsCount t) div 4" by (simp add: header_bytes_def)
  show "header_bytes (st_rowsCount t) div 4 < length (st_words t)" by (rule rows_okE[OF assms(1)]) linarith
qed

lemma row_word:
  assumes "rows_ok t" "r < rows t"
  shows "mem_word t (r div 32) = Inr (st_words t ! (r div 32))" "r div 32 < length (st_words t)"
  using bitmap_inside[OF assms] by (simp_all add: mem_word_def)

lemma nat_row: "nat (int r div 32) = r div 32" "nat (int r mod 32) = r mod 32"
  by (simp_all add: nat_div_distrib nat_mod_distrib)

lemma row_mask: "shl32 1 (int r) = 2 ^ (r mod 32)"
  by (simp add: shl32_def nat_row)

lemma row_mask': "shl32 1 (int r mod 32) = 2 ^ (r mod 32)"
  by (simp add: shl32_def nat_row)

lemma word_and_exp: "w AND 2 ^ k \<noteq> 0 \<longleftrightarrow> bit (w :: 32 word) k" "2 ^ k AND w \<noteq> 0 \<longleftrightarrow> bit w k"
  using and_exp_eq_0_iff_not_bit[of w k] by (auto simp: and.commute)

lemma IsStateTableRowVacant_exact:
  assumes "rows_ok t" "r < rows t"
  shows "IsStateTableRowVacant t (int r) = Inr (vacant t r)"
  using assms row_word[OF assms] by (simp add: IsStateTableRowVacant_def nat_row row_mask word_and_exp vacant_def)

lemma IsValidStateTableRowId_occupied:
  assumes "rows_ok t" "r < rows t" "\<not> vacant t r"
  shows "IsValidStateTableRowId t (int r) = Inr ()"
proof -
  have "st_words t ! (r div 32) AND (shl32 1 (int r) AND 31) = 0"
    using assms(3) by (intro bit_eqI) (auto simp: row_mask bit_and_iff bit_exp_iff vacant_def)
  with assms row_word[OF assms(1,2)] show ?thesis by (simp add: IsValidStateTableRowId_def nat_row)
qed

lemma set_words_fields [simp]:
  "st_rowsCount (set_words ws t) = st_rowsCount t" "st_columnsCount (set_words ws t) = st_columnsCount t"
  "st_base (set_words ws t) = st_base t" "st_stride (set_words ws t) = st_stride t" "st_rowSize (set_words ws t) = st_rowSize t"
  by (simp_all add: set_words_def)

lemma set_words_ok:
  assumes "rows_ok t" "length ws = length (st_words t)"
  shows "rows_ok (set_words ws t)" "st_words (set_words ws t) = ws" "byte_index (set_words ws t) p = byte_index t p"
proof -
  obtain addr where m: "st_mem t = Some (addr, st_words t)" by (rule rows_okE[OF assms(1)])
  then show w: "st_words (set_words ws t) = ws" by (simp add: set_words_def st_words_def[of "t\<lparr>st_mem := _\<rparr>"])
  show "byte_index (set_words ws t) p = byte_index t p" using m by (simp add: set_words_def byte_index_def)
  have m': "st_mem (set_words ws t) = Some (addr, ws)" using m by (simp add: set_words_def)
  show "rows_ok (set_words ws t)" using assms m m' by (simp add: rows_ok_def)
qed

lemma vacant_set_bit:
  assumes "rows_ok t" "r < rows t" "q < rows t" "length ws = length (st_words t)"
    "\<forall>k<bitmap_words (st_rowsCount t). ws ! k = st_words t ! k"
  shows "vacant (set_words (ws[r div 32 := ws ! (r div 32) OR 2 ^ (r mod 32)]) t) q \<longleftrightarrow> q = r \<or> vacant t q"
    "vacant (set_words (ws[r div 32 := ws ! (r div 32) AND NOT (2 ^ (r mod 32))]) t) q \<longleftrightarrow> q \<noteq> r \<and> vacant t q"
proof -
  have l: "r div 32 < length ws" using row_word(2)[OF assms(1,2)] assms(4) by simp
  have e: "ws ! (q div 32) = st_words t ! (q div 32)" using assms(5) bitmap_inside(1)[OF assms(1,3)] by simp
  have s: "q = r \<longleftrightarrow> q div 32 = r div 32 \<and> q mod 32 = r mod 32" by (metis div_mult_mod_eq)
  have "st_words (set_words (ws[r div 32 := v]) t) = ws[r div 32 := v]" for v
    by (rule set_words_ok(2)[OF assms(1)]) (simp add: assms(4))
  then show "vacant (set_words (ws[r div 32 := ws ! (r div 32) OR 2 ^ (r mod 32)]) t) q \<longleftrightarrow> q = r \<or> vacant t q"
    "vacant (set_words (ws[r div 32 := ws ! (r div 32) AND NOT (2 ^ (r mod 32))]) t) q \<longleftrightarrow> q \<noteq> r \<and> vacant t q"
    using l e s by (auto simp: vacant_def nth_list_update bit_or_iff bit_and_iff bit_not_iff bit_exp_iff)
qed

section \<open>Search for a vacant row\<close>

lemma scan_finds:
  assumes "i \<le> j" "j < e" "e \<le> length (st_words t)" "\<forall>k. i \<le> k \<longrightarrow> k < j \<longrightarrow> st_words t ! k = 0" "st_words t ! j \<noteq> 0"
  shows "scan t e i (st_words t ! i) = Inr (j, st_words t ! j)"
  using assms
proof (induction "j - i" arbitrary: i)
  case 0
  then show ?case by (simp add: scan.simps)
next
  case (Suc n)
  have "scan t e (Suc i) (st_words t ! Suc i) = Inr (j, st_words t ! j)" by (rule Suc.hyps(1)) (use Suc.hyps(2) Suc.prems in auto)
  moreover have "st_words t ! i = 0" "i + 1 < e" "Suc i < length (st_words t)" using Suc.hyps(2) Suc.prems by auto
  ultimately show ?case by (simp add: scan.simps[of t e i] mem_word_def)
qed

lemma ones_shift: "0 < n \<Longrightarrow> n \<le> 32 \<Longrightarrow> bit (shr32 (NOT 0) (32 - int n)) k \<longleftrightarrow> k < n"
proof -
  assume n: "0 < n" "n \<le> 32"
  then have "(32 - int n) mod 32 = 32 - int n" by (intro mod_pos_pos_trivial) auto
  then have "nat ((32 - int n) mod 32) = 32 - n" using n by linarith
  then show ?thesis using n unfolding shr32_def by (simp add: bit_drop_bit_eq bit_not_iff) (auto simp: bit_mask_iff)
qed

lemma OccupyStateTableFirstVacantRow_first:
  assumes ok: "rows_ok t" and r: "r < rows t" "vacant t r" "\<forall>q<r. \<not> vacant t q"
  shows "OccupyStateTableFirstVacantRow t 0 2147483647 =
    Inr (int r, set_words ((st_words t)[r div 32 := st_words t ! (r div 32) AND NOT (2 ^ (r mod 32))]) t)"
proof -
  let ?W = "st_words t" and ?j = "r div 32" and ?e = "bitmap_words (st_rowsCount t)"
  obtain n: "0 < st_rowsCount t" "st_rowsCount t < 2 ^ 31" by (rule rows_okE[OF ok])
  note in1 = bitmap_inside[OF ok r(1)]
  have q: "quot (st_rowsCount t + 31) 32 = int ?e" using n by (simp add: quot_def bitmap_words_def zdiv_int)
  have z: "?W ! k = 0" if "k < ?j" for k
  proof (rule bit_eqI)
    fix b assume "possible_bit TYPE(32 word) b"
    then have b: "b < 32" by simp
    then have "32 * k + b < r" using that by linarith
    then have "\<not> vacant t (32 * k + b)" using r(3) by blast
    with b show "bit (?W ! k) b = bit 0 b" by (simp add: vacant_def)
  qed
  have low: "\<not> bit (?W ! ?j) b" if "b < r mod 32" for b
  proof -
    have "32 * ?j + b < r" "b < 32" using that by (metis add_less_cancel_left mult_div_mod_eq, simp)
    then have "\<not> vacant t (32 * ?j + b)" using r(3) by blast
    with \<open>b < 32\<close> show ?thesis by (simp add: vacant_def)
  qed
  have fin: "FindLowestBitSet v + int ?j * 32 = int r" "v AND - v = 2 ^ (r mod 32)" "v \<noteq> 0"
    if "lowest_set v (r mod 32)" for v :: "32 word"
  proof -
    have "int (r mod 32 + ?j * 32) = int r" by (simp only: mod_div_mult_eq)
    then show "FindLowestBitSet v + int ?j * 32 = int r" using FindLowestBitSet_lowest[OF that] by (simp only: of_nat_add of_nat_mult of_nat_numeral)
  qed (use lowest_isolated[OF that] that in \<open>auto simp: lowest_set_def\<close>)
  have m0: "shl32 (- 1) 0 = - 1" by (simp add: shl32_def)
  have en: "(if 2147483647 > st_rowsCount t then st_rowsCount t else 2147483647) = st_rowsCount t" using n by auto
  show ?thesis
  proof (cases "?e = 1")
    case True
    then have j: "?j = 0" "r mod 32 = r" "rows t \<le> 32" using in1(1) r(1) by (auto simp: bitmap_words_def)
    define v where "v = ?W ! 0 AND shr32 (- 1) (32 - st_rowsCount t)"
    have "lowest_set v (r mod 32)"
      using r(2) low j r(1) n ones_shift[of "rows t"] by (auto simp: lowest_set_def bit_and_iff vacant_def v_def)
    note f = fin[OF this]
    show ?thesis using f True q n j row_word[OF ok r(1)] m0 en
      by (simp add: OccupyStateTableFirstVacantRow_def Let_def v_def[symmetric])
  next
    case False
    then have e: "1 < ?e" using in1(1) by linarith
    have l: "lowest_set (?W ! ?j) (r mod 32)" using r(2) low by (simp add: lowest_set_def vacant_def)
    note f = fin[OF l]
    have s: "scan t ?e 0 (?W ! 0) = Inr (?j, ?W ! ?j)" by (rule scan_finds) (use in1 z f(3) in auto)
    have "mem_word t 0 = Inr (?W ! 0)" unfolding mem_word_def using in1 by (intro if_P) linarith
    then show ?thesis using f e q n s m0 en by (simp add: OccupyStateTableFirstVacantRow_def Let_def)
  qed
qed

section \<open>Cells\<close>

text \<open>The first byte of a cell, counted from the beginning of the allocation.\<close>

definition cell_start :: "StateTable \<Rightarrow> nat \<Rightarrow> TICKET \<Rightarrow> nat" where
  "cell_start t r ticket = header_bytes (st_rowsCount t) + unat (st_stride t) * r + off ticket"

lemma row_in_memory:
  assumes "rows_ok t" "r < rows t"
  shows "header_bytes (st_rowsCount t) + unat (st_stride t) * r + unat (st_stride t) + 8 \<le> 4 * length (st_words t)"
    "4 * length (st_words t) < 2 ^ 62" "4 dvd header_bytes (st_rowsCount t) + unat (st_stride t) * r"
proof -
  obtain m: "4 * length (st_words t) = header_bytes (st_rowsCount t) + unat (st_stride t) * rows t + 8" "4 * length (st_words t) < 2 ^ 62"
    and d: "8 dvd unat (st_stride t)" by (rule rows_okE[OF assms(1)])
  have "unat (st_stride t) * r + unat (st_stride t) \<le> unat (st_stride t) * rows t"
    using assms(2) mult_le_mono2[of "Suc r" "rows t" "unat (st_stride t)"] by simp
  with m show "header_bytes (st_rowsCount t) + unat (st_stride t) * r + unat (st_stride t) + 8 \<le> 4 * length (st_words t)"
    "4 * length (st_words t) < 2 ^ 62" by simp_all
  have "(4 :: nat) dvd 8" by simp
  then have "4 dvd unat (st_stride t)" using d by (rule dvd_trans)
  then show "4 dvd header_bytes (st_rowsCount t) + unat (st_stride t) * r" by (simp add: header_bytes_def)
qed

lemma row_byte:
  assumes "rows_ok t" "r < rows t" "unat p < 2 ^ 19"
  shows "byte_index t (OffsetPtr (st_base t) (st_stride t * word_of_int (int r) + p)) =
    header_bytes (st_rowsCount t) + unat (st_stride t) * r + unat p"
proof -
  obtain addr where a: "st_mem t = Some (addr, st_words t)" "st_base t = addr + of_nat (header_bytes (st_rowsCount t))"
    by (rule rows_okE[OF assms(1)])
  let ?H = "header_bytes (st_rowsCount t)" and ?n = "unat (st_stride t) * r + unat p"
  note m = row_in_memory[OF assms(1,2)]
  have s: "st_stride t * word_of_int (int r) + p = of_nat ?n" by simp
  have "byte_index t (OffsetPtr (st_base t) (st_stride t * word_of_int (int r) + p)) = unat (of_nat (?H + ?n) :: 64 word)"
    unfolding s byte_index_def OffsetPtr_def a(2) using a(1) by (simp del: of_nat_mult)
  also have "\<dots> = ?H + ?n" unfolding unat_of_nat by (rule mod_less) (use m assms(3) in simp)
  finally show ?thesis by simp
qed

lemma off_small: "off ticket < 2 ^ 19"
proof -
  have "PtrFromTicket ticket = take_bit 19 (ticket XOR ST_TICKET_XOR_MASK)"
    unfolding PtrFromTicket_def mask_consts by (rule take_bit_eq_mask[symmetric])
  then have "off ticket = take_bit 19 (unat (ticket XOR ST_TICKET_XOR_MASK))" by (simp only: unsigned_take_bit_eq)
  then show ?thesis using take_bit_nat_less_exp[of 19 "unat (ticket XOR ST_TICKET_XOR_MASK)"] by (simp only:)
qed

lemma GetStateTableCell_byte:
  assumes "rows_ok t" "r < rows t" "GetStateTableCell t ticket (int r) = Inr p"
  shows "byte_index t p = cell_start t r ticket"
  using assms(3) row_byte[OF assms(1,2) off_small[of ticket]]
  by (auto simp: GetStateTableCell_def CalcPtrDistance_def cell_start_def elim!: sbind_InrE)

lemma master_ticket: "PtrFromTicket (MakeTicket 0 0) = 0" "OrdinalFromTicket (MakeTicket 0 0) = 0"
  by (simp_all add: PtrFromTicket_Make OrdinalFromTicket_Make)

section \<open>Marking rows\<close>

lemma memset_zero_length [simp]: "length (memset_zero a n ws) = length ws"
  by (simp add: memset_zero_def)

lemma memset_zero_outside: "k < length ws \<Longrightarrow> 4 * k + 3 < a \<or> a + n \<le> 4 * k \<Longrightarrow> memset_zero a n ws ! k = ws ! k"
  by (auto simp: memset_zero_def zero_byte_def)

lemma SetStateTableIsVacantRowFlag_exact:
  assumes ok: "rows_ok t" and r: "r < rows t"
  obtains t' where "SetStateTableIsVacantRowFlag t (int r) b = Inr t'" "rows_ok t'" "st_rowsCount t' = st_rowsCount t"
    "st_columnsCount t' = st_columnsCount t" "st_stride t' = st_stride t" "st_rowSize t' = st_rowSize t" "st_base t' = st_base t"
    "\<forall>q<rows t. vacant t' q \<longleftrightarrow> (if q = r then b else vacant t q)"
    "\<forall>k. bitmap_words (st_rowsCount t) \<le> k \<longrightarrow> k < length (st_words t) \<longrightarrow>
       (\<not> b \<or> 4 * k + 3 < header_bytes (st_rowsCount t) + unat (st_stride t) * r
          \<or> header_bytes (st_rowsCount t) + unat (st_stride t) * r + unat (st_rowSize t) \<le> 4 * k)
       \<longrightarrow> st_words t' ! k = st_words t ! k"
    "length (st_words t') = length (st_words t)" "\<forall>p. byte_index t' p = byte_index t p"
proof -
  let ?a = "header_bytes (st_rowsCount t) + unat (st_stride t) * r"
  define ws where "ws = (if b then memset_zero ?a (unat (st_rowSize t)) (st_words t) else st_words t)"
  define ws' where "ws' = ws[r div 32 := (if b then ws ! (r div 32) OR 2 ^ (r mod 32) else ws ! (r div 32) AND NOT (2 ^ (r mod 32)))]"
  note i = bitmap_inside[OF ok r]
  have row: "byte_index t (OffsetPtr (st_base t) (st_stride t * word_of_int (int r))) = ?a" using row_byte[OF ok r, of 0] by simp
  have l: "length ws = length (st_words t)" "length ws' = length (st_words t)" by (simp_all add: ws_def ws'_def)
  have bm: "\<forall>k<bitmap_words (st_rowsCount t). ws ! k = st_words t ! k"
  proof (intro allI impI)
    fix k assume "k < bitmap_words (st_rowsCount t)"
    then have "k < length (st_words t)" "4 * k + 3 < ?a" using i by (simp_all add: header_bytes_def)
    then show "ws ! k = st_words t ! k" by (simp add: ws_def memset_zero_outside)
  qed
  have e: "SetStateTableIsVacantRowFlag t (int r) b = Inr (set_words ws' t)"
    using r row row_word(2)[OF ok r] l by (simp add: SetStateTableIsVacantRowFlag_def Let_def nat_row row_mask ws_def ws'_def)
  have "\<forall>q<rows t. vacant (set_words ws' t) q \<longleftrightarrow> (if q = r then b else vacant t q)"
    using vacant_set_bit[OF ok r _ l(1) bm] by (auto simp: ws'_def)
  moreover have "st_words (set_words ws' t) ! k = st_words t ! k"
    if "bitmap_words (st_rowsCount t) \<le> k" "k < length (st_words t)" "\<not> b \<or> 4 * k + 3 < ?a \<or> ?a + unat (st_rowSize t) \<le> 4 * k" for k
    using that i(1) set_words_ok(2)[OF ok l(2)] by (auto simp: ws'_def ws_def memset_zero_outside)
  ultimately show thesis using that[OF e] set_words_ok[OF ok l(2)] l(2) by simp
qed

end
