(* ===== verification/ClientViews.thy ===== *)
theory ClientViews
  imports WuClients StateTableViews
begin

text \<open>
  What the operations on clients do, in terms of the set of registered and the set of ready clients and of
  the counter each client has, and the invariant that all of them keep.
\<close>

unbundle bit_operations_syntax

section \<open>Clients as sets\<close>

definition ready :: "cl_state \<Rightarrow> nat \<Rightarrow> bool" where
  "ready s r \<longleftrightarrow> bit (cl_readyClientsBitmap s ! (r div 32)) (r mod 32)"

definition registered :: "cl_state \<Rightarrow> nat set" where
  "registered s = {r. r < rows (cl_stateTable s) \<and> \<not> vacant (cl_stateTable s) r}"

definition ready_clients :: "cl_state \<Rightarrow> nat set" where
  "ready_clients s = {r. r < rows (cl_stateTable s) \<and> ready s r}"

text \<open>The word that holds the counter of a client.\<close>

definition counter_index :: "StateTable \<Rightarrow> nat \<Rightarrow> nat" where
  "counter_index t r = (header_bytes (st_rowsCount t) + unat (st_stride t) * r) div 4"

definition current_counter :: "cl_state \<Rightarrow> nat \<Rightarrow> int" where
  "current_counter s r = sint (st_words (cl_stateTable s) ! counter_index (cl_stateTable s) r)"

definition table_ok :: "StateTable \<Rightarrow> bool" where
  "table_ok t \<longleftrightarrow> rows_ok t \<and> 0 < st_columnsCount t \<and> 4 \<le> unat (st_rowSize t)"

definition bitmap_ok :: "cl_state \<Rightarrow> bool" where
  "bitmap_ok s \<longleftrightarrow> length (cl_readyClientsBitmap s) = bitmap_words (st_rowsCount (cl_stateTable s))
     \<and> (\<forall>r. rows (cl_stateTable s) \<le> r \<longrightarrow> r < 32 * length (cl_readyClientsBitmap s) \<longrightarrow> \<not> ready s r)
     \<and> cl_readyClientsCount s = int (card (ready_clients s))"

definition cl_ok :: "cl_state \<Rightarrow> bool" where
  "cl_ok s \<longleftrightarrow> table_ok (cl_stateTable s) \<and> bitmap_ok s"

lemma counter_in_memory:
  assumes "table_ok t" "r < rows t"
  shows "counter_index t r < length (st_words t)" "bitmap_words (st_rowsCount t) \<le> counter_index t r"
    "4 * counter_index t r = header_bytes (st_rowsCount t) + unat (st_stride t) * r" "unat (st_rowSize t) \<le> unat (st_stride t)"
proof -
  have ok: "rows_ok t" using assms(1) by (simp add: table_ok_def)
  note m = row_in_memory[OF ok assms(2)]
  show e: "4 * counter_index t r = header_bytes (st_rowsCount t) + unat (st_stride t) * r"
    unfolding counter_index_def using m(3) by (rule dvd_mult_div_cancel)
  then show "counter_index t r < length (st_words t)" using m(1) by linarith
  have "bitmap_words (st_rowsCount t) \<le> header_bytes (st_rowsCount t) div 4" by (rule bitmap_inside(2)[OF ok assms(2)])
  with e show "bitmap_words (st_rowsCount t) \<le> counter_index t r" by linarith
  show "unat (st_rowSize t) \<le> unat (st_stride t)" by (rule rows_okE[OF ok])
qed

lemma counter_inj:
  assumes "table_ok t" "r < rows t" "q < rows t" "counter_index t r = counter_index t q"
  shows "r = q"
proof -
  have "0 < unat (st_stride t)" using counter_in_memory(4)[OF assms(1,2)] assms(1) by (simp add: table_ok_def)
  moreover have "unat (st_stride t) * r = unat (st_stride t) * q"
    using counter_in_memory(3)[OF assms(1,2)] counter_in_memory(3)[OF assms(1,3)] assms(4) by (simp only: add_left_cancel)
  ultimately show ?thesis by simp
qed

lemma master_cell:
  assumes "table_ok t" "r < rows t" "\<not> vacant t r"
  obtains p where "GetStateTableMasterCell t (int r) = Inr p" "byte_index t p div 4 = counter_index t r"
proof -
  have ok: "rows_ok t" "0 < st_columnsCount t" "4 \<le> unat (st_rowSize t)" using assms(1) by (simp_all add: table_ok_def)
  have "\<not> st_stride t \<le> 0" using ok(3) counter_in_memory(4)[OF assms(1,2)] by (auto simp: word_le_nat_alt)
  then have v: "ValidateTicket t (MakeTicket 0 0) = Inr ()"
    using ok(2) by (simp add: ValidateTicket_def GetColumnInfo_def Let_def OffsetPtr_def master_ticket CheckTicket_def)
  then obtain p where p: "GetStateTableMasterCell t (int r) = Inr p"
    using IsValidStateTableRowId_occupied[OF ok(1) assms(2,3)] by (auto simp: GetStateTableMasterCell_def GetStateTableCell_def)
  then have "byte_index t p = cell_start t r (MakeTicket 0 0)" 
    unfolding GetStateTableMasterCell_def by (rule GetStateTableCell_byte[OF ok(1) assms(2)])
  with p show thesis using that by (simp add: cell_start_def master_ticket counter_index_def)
qed

text \<open>Writing a counter changes nothing else.\<close>

lemma set_counter:
  fixes w :: "32 word"
  assumes t: "table_ok t" and r: "r < rows t"
  defines "t' \<equiv> set_words ((st_words t)[counter_index t r := w]) t"
  shows "table_ok t'" "\<forall>q<rows t. vacant t' q \<longleftrightarrow> vacant t q"
    "\<forall>q<rows t. st_words t' ! counter_index t' q = (if q = r then w else st_words t ! counter_index t q)" "st_rowsCount t' = st_rowsCount t"
proof -
  have ok: "rows_ok t" using t by (simp add: table_ok_def)
  note c = counter_in_memory[OF t r]
  have w: "st_words t' = (st_words t)[counter_index t r := w]" "rows_ok t'"
    unfolding t'_def by (intro set_words_ok[OF ok]; simp)+
  show "table_ok t'" "st_rowsCount t' = st_rowsCount t" using w(2) t by (simp_all add: table_ok_def t'_def)
  show "\<forall>q<rows t. vacant t' q \<longleftrightarrow> vacant t q"
  proof (intro allI impI)
    fix q assume "q < rows t"
    from bitmap_inside(1)[OF ok this] c(2) have "q div 32 \<noteq> counter_index t r" by simp
    then show "vacant t' q \<longleftrightarrow> vacant t q" by (simp add: vacant_def w(1))
  qed
  have "counter_index t' q = counter_index t q" for q by (simp add: counter_index_def t'_def)
  then show "\<forall>q<rows t. st_words t' ! counter_index t' q = (if q = r then w else st_words t ! counter_index t q)"
    using c(1) counter_inj[OF t r] by (auto simp: w(1) nth_list_update)
qed

lemma write_counter:
  assumes "table_ok t" "r < rows t" "byte_index t p div 4 = counter_index t r"
  shows "write_int t p v = Inr (set_words ((st_words t)[counter_index t r := word_of_int v]) t)"
    "read_int t p = Inr (sint (st_words t ! counter_index t r))"
  using counter_in_memory(1)[OF assms(1,2)] assms(3) by (simp_all add: write_int_def read_int_def mem_word_def)

section \<open>Registration\<close>

text \<open>What a registration and its end change.\<close>

definition other_clients_same :: "nat \<Rightarrow> cl_state \<Rightarrow> cl_state \<Rightarrow> bool" where
  "other_clients_same r s s' \<longleftrightarrow>
     cl_threadState s' = cl_threadState s \<and> cl_readyClientsBitmap s' = cl_readyClientsBitmap s
     \<and> cl_readyClientsCount s' = cl_readyClientsCount s \<and> st_rowsCount (cl_stateTable s') = st_rowsCount (cl_stateTable s)
     \<and> (\<forall>q<rows (cl_stateTable s). q \<noteq> r \<longrightarrow> current_counter s' q = current_counter s q)"

lemma bitmap_ok_same:
  assumes "bitmap_ok s" "other_clients_same r s s'"
  shows "bitmap_ok s'" "ready_clients s' = ready_clients s"
proof -
  have r: "ready s' = ready s" using assms(2) by (simp add: ready_def fun_eq_iff other_clients_same_def)
  then show "ready_clients s' = ready_clients s" using assms(2) by (simp add: ready_clients_def other_clients_same_def)
  with r show "bitmap_ok s'" using assms by (simp add: bitmap_ok_def other_clients_same_def)
qed

text \<open>The end of \<^verbatim>\<open>ClRegisterClient\<close>, once a row has been taken.\<close>

lemma register_tail:
  assumes t: "table_ok t" and r: "r < rows t" "\<not> vacant t r"
    and fr: "st_rowsCount t = st_rowsCount (cl_stateTable s)" "\<forall>q<rows t. q \<noteq> r \<longrightarrow> (vacant t q \<longleftrightarrow> vacant (cl_stateTable s) q)"
      "\<forall>q<rows t. st_words t ! counter_index t q = st_words (cl_stateTable s) ! counter_index (cl_stateTable s) q"
    and ok: "cl_ok s"
  shows "\<exists>s'. (case GetStateTableMasterCell t (int r) of
       Inl e \<Rightarrow> Inl WU_ASSERTION
     | Inr mgmtData \<Rightarrow> sbind (write_int t mgmtData 0) (\<lambda>t'. Inr (int r, s\<lparr>cl_stateTable := t', cl_clientsCount := cl_clientsCount s + 1\<rparr>)))
     = Inr (int r, s') \<and> cl_ok s' \<and> registered s' = insert r (registered s) \<and> cl_clientsCount s' = cl_clientsCount s + 1
     \<and> current_counter s' r = 0 \<and> other_clients_same r s s'"
proof -
  obtain p where p: "GetStateTableMasterCell t (int r) = Inr p" "byte_index t p div 4 = counter_index t r" by (rule master_cell[OF t r])
  let ?t = "set_words ((st_words t)[counter_index t r := 0]) t"
  let ?s = "s\<lparr>cl_stateTable := ?t, cl_clientsCount := cl_clientsCount s + 1\<rparr>"
  note c = set_counter[OF t r(1), of 0]
  have o: "other_clients_same r s ?s" using c(3,4) fr by (simp add: other_clients_same_def current_counter_def)
  then have "cl_ok ?s" using bitmap_ok_same(1)[OF _ o] ok c(1) by (simp add: cl_ok_def)
  moreover have "registered ?s = insert r (registered s)"
    unfolding registered_def using c(2,4) fr(1,2) r by auto
  ultimately show ?thesis using p(1) write_counter(1)[OF t r(1) p(2), of 0] o c(3) r(1)
    by (intro exI[of _ ?s]) (simp add: current_counter_def)
qed

lemma register_fixed:
  assumes ok: "cl_ok s" and r: "r < rows (cl_stateTable s)" "r \<notin> registered s"
  shows "\<exists>s'. ClRegisterClient (int r) True s = Inr (int r, s') \<and> cl_ok s' \<and> registered s' = insert r (registered s)
    \<and> cl_clientsCount s' = cl_clientsCount s + 1 \<and> current_counter s' r = 0 \<and> other_clients_same r s s'"
proof -
  let ?t = "cl_stateTable s"
  have t: "table_ok ?t" and rok: "rows_ok ?t" and v: "vacant ?t r" using ok r by (simp_all add: cl_ok_def table_ok_def registered_def)
  obtain t' where t': "SetStateTableIsVacantRowFlag ?t (int r) False = Inr t'" "rows_ok t'" "st_rowsCount t' = st_rowsCount ?t"
    "st_columnsCount t' = st_columnsCount ?t" "st_stride t' = st_stride ?t" "st_rowSize t' = st_rowSize ?t"
    "\<forall>q<rows ?t. vacant t' q \<longleftrightarrow> (if q = r then False else vacant ?t q)"
    "\<forall>k. bitmap_words (st_rowsCount ?t) \<le> k \<longrightarrow> k < length (st_words ?t) \<longrightarrow> st_words t' ! k = st_words ?t ! k"
    by (rule SetStateTableIsVacantRowFlag_exact[OF rok r(1), of False]) blast
  have tk: "table_ok t'" using t t' by (simp add: table_ok_def)
  have ci: "counter_index t' = counter_index ?t" using t' by (simp add: counter_index_def fun_eq_iff)
  have w: "\<forall>q<rows t'. st_words t' ! counter_index t' q = st_words ?t ! counter_index ?t q"
    using t'(3,8) counter_in_memory(1,2)[OF t] by (simp add: ci)
  have "ClRegisterClient (int r) True s = (case GetStateTableMasterCell t' (int r) of
       Inl e \<Rightarrow> Inl WU_ASSERTION
     | Inr mgmtData \<Rightarrow> sbind (write_int t' mgmtData 0) (\<lambda>t'. Inr (int r, s\<lparr>cl_stateTable := t', cl_clientsCount := cl_clientsCount s + 1\<rparr>)))"
    using v t'(1) IsStateTableRowVacant_exact[OF rok r(1)] by (simp add: ClRegisterClient_def row_as_client_error_def)
  with register_tail[OF tk, of r s] w t'(3,7) r(1) ok show ?thesis by auto
qed

lemma register_free:
  assumes ok: "cl_ok s" and r: "r < rows (cl_stateTable s)" "r \<notin> registered s" "\<forall>q<r. q \<in> registered s"
  shows "\<exists>s'. ClRegisterClient i False s = Inr (int r, s') \<and> cl_ok s' \<and> registered s' = insert r (registered s)
    \<and> cl_clientsCount s' = cl_clientsCount s + 1 \<and> current_counter s' r = 0 \<and> other_clients_same r s s'"
proof -
  let ?t = "cl_stateTable s"
  have t: "table_ok ?t" and rok: "rows_ok ?t" and v: "vacant ?t r" "\<forall>q<r. \<not> vacant ?t q"
    using ok r by (auto simp: cl_ok_def table_ok_def registered_def)
  let ?ws = "(st_words ?t)[r div 32 := st_words ?t ! (r div 32) AND NOT (2 ^ (r mod 32))]"
  let ?t' = "set_words ?ws ?t"
  have o: "OccupyStateTableFirstVacantRow ?t 0 INT_MAX = Inr (int r, ?t')"
    unfolding INT_MAX_def by (rule OccupyStateTableFirstVacantRow_first[OF rok r(1) v])
  have sw: "rows_ok ?t'" "st_words ?t' = ?ws" by (intro set_words_ok[OF rok]; simp)+
  have tk: "table_ok ?t'" using t sw(1) by (simp add: table_ok_def)
  have vac: "\<forall>q<rows ?t. vacant ?t' q \<longleftrightarrow> q \<noteq> r \<and> vacant ?t q"
    using vacant_set_bit(2)[OF rok r(1) _ refl] by blast
  have ci: "counter_index ?t' = counter_index ?t" by (simp add: counter_index_def fun_eq_iff)
  have w: "\<forall>q<rows ?t'. st_words ?t' ! counter_index ?t' q = st_words ?t ! counter_index ?t q"
  proof (intro allI impI)
    fix q assume "q < rows ?t'"
    then have "bitmap_words (st_rowsCount ?t) \<le> counter_index ?t q" using counter_in_memory(2)[OF t, of q] by simp
    then have "counter_index ?t q \<noteq> r div 32" using bitmap_inside(1)[OF rok r(1)] by simp
    then show "st_words ?t' ! counter_index ?t' q = st_words ?t ! counter_index ?t q" by (simp add: sw(2) ci)
  qed
  have "ClRegisterClient i False s = (case GetStateTableMasterCell ?t' (int r) of
       Inl e \<Rightarrow> Inl WU_ASSERTION
     | Inr mgmtData \<Rightarrow> sbind (write_int ?t' mgmtData 0) (\<lambda>t'. Inr (int r, s\<lparr>cl_stateTable := t', cl_clientsCount := cl_clientsCount s + 1\<rparr>)))"
    by (simp add: ClRegisterClient_def o)
  with register_tail[OF tk, of r s] w vac r(1) ok show ?thesis by auto
qed

lemma bitmap_word_row:
  assumes "cl_ok s" "r < rows (cl_stateTable s)"
  shows "bitmap_word s (int r) = Inr (cl_readyClientsBitmap s ! (r div 32))" "r div 32 < length (cl_readyClientsBitmap s)"
proof -
  have "rows_ok (cl_stateTable s)" using assms(1) by (simp add: cl_ok_def table_ok_def)
  from bitmap_inside(1)[OF this assms(2)] assms(1) show l: "r div 32 < length (cl_readyClientsBitmap s)" by (simp add: cl_ok_def bitmap_ok_def)
  then show "bitmap_word s (int r) = Inr (cl_readyClientsBitmap s ! (r div 32))" by (simp add: bitmap_word_def nat_row)
qed

lemma unregister_exact:
  assumes ok: "cl_ok s" and r: "r \<in> registered s" "current_counter s r \<le> 0" "r \<notin> ready_clients s"
  shows "\<exists>s'. ClUnregisterClient (int r) s = Inr s' \<and> cl_ok s' \<and> registered s' = registered s - {r}
    \<and> cl_clientsCount s' = cl_clientsCount s - 1 \<and> other_clients_same r s s'"
proof -
  let ?t = "cl_stateTable s"
  have t: "table_ok ?t" and rok: "rows_ok ?t" and rr: "r < rows ?t" "\<not> vacant ?t r"
    using ok r by (simp_all add: cl_ok_def table_ok_def registered_def)
  obtain p where p: "GetStateTableMasterCell ?t (int r) = Inr p" "byte_index ?t p div 4 = counter_index ?t r" by (rule master_cell[OF t rr])
  obtain t' where t': "SetStateTableIsVacantRowFlag ?t (int r) True = Inr t'" "rows_ok t'" "st_rowsCount t' = st_rowsCount ?t"
    "st_columnsCount t' = st_columnsCount ?t" "st_stride t' = st_stride ?t" "st_rowSize t' = st_rowSize ?t"
    "\<forall>q<rows ?t. vacant t' q \<longleftrightarrow> (if q = r then True else vacant ?t q)"
    "\<forall>k. bitmap_words (st_rowsCount ?t) \<le> k \<longrightarrow> k < length (st_words ?t) \<longrightarrow>
       (4 * k + 3 < header_bytes (st_rowsCount ?t) + unat (st_stride ?t) * r
          \<or> header_bytes (st_rowsCount ?t) + unat (st_stride ?t) * r + unat (st_rowSize ?t) \<le> 4 * k)
       \<longrightarrow> st_words t' ! k = st_words ?t ! k"
    by (rule SetStateTableIsVacantRowFlag_exact[OF rok rr(1), of True]) simp
  let ?s = "s\<lparr>cl_stateTable := t', cl_clientsCount := cl_clientsCount s - 1\<rparr>"
  have ci: "counter_index t' = counter_index ?t" using t' by (simp add: counter_index_def fun_eq_iff)
  have "current_counter ?s q = current_counter s q" if q: "q < rows ?t" "q \<noteq> r" for q
  proof -
    note c = counter_in_memory[OF t q(1)] and cr = counter_in_memory[OF t rr(1)]
    have "4 * counter_index ?t q + 3 < 4 * counter_index ?t r \<or> 4 * counter_index ?t r + unat (st_rowSize ?t) \<le> 4 * counter_index ?t q"
    proof (cases "q < r")
      case True
      then have "unat (st_stride ?t) * q + unat (st_stride ?t) \<le> unat (st_stride ?t) * r"
        using mult_le_mono2[of "Suc q" r "unat (st_stride ?t)"] by simp
      moreover have "4 \<le> unat (st_stride ?t)" using cr(4) t by (simp add: table_ok_def)
      ultimately show ?thesis unfolding c(3) cr(3) by linarith
    next
      case False
      then have "unat (st_stride ?t) * r + unat (st_stride ?t) \<le> unat (st_stride ?t) * q"
        using q mult_le_mono2[of "Suc r" q "unat (st_stride ?t)"] by simp
      then show ?thesis unfolding c(3) cr(3) using cr(4) by linarith
    qed
    then have "st_words t' ! counter_index ?t q = st_words ?t ! counter_index ?t q"
      using t'(8)[folded cr(3)] c(1,2) by blast
    then show ?thesis by (simp add: current_counter_def ci)
  qed
  then have o: "other_clients_same r s ?s" using t'(3) by (simp add: other_clients_same_def)
  have "cl_ok ?s" using bitmap_ok_same(1)[OF _ o] ok t t' by (simp add: cl_ok_def table_ok_def)
  moreover have "registered ?s = registered s - {r}" using t'(3,7) by (auto simp: registered_def split: if_splits)
  moreover have "ClUnregisterClient (int r) s = Inr ?s"
    using p(1) write_counter(2)[OF t rr(1) p(2)] r bitmap_word_row[OF ok rr(1)] rr(1) t'(1)
    by (simp add: ClUnregisterClient_def row_as_client_error_def current_counter_def row_mask' word_and_exp ready_clients_def ready_def)
  ultimately show ?thesis using o by auto
qed

text \<open>The two refusals.\<close>

lemma unregister_refused:
  assumes ok: "cl_ok s" and r: "r \<in> registered s"
  shows "current_counter s r > 0 \<Longrightarrow> ClUnregisterClient (int r) s = Inl WUERR_UNABLE_TO_UNREGISTER_CURRENT_CLIENT"
    "current_counter s r \<le> 0 \<Longrightarrow> r \<in> ready_clients s \<Longrightarrow> ClUnregisterClient (int r) s = Inl WUERR_UNABLE_TO_UNREGISTER_READY_CLIENT"
proof -
  let ?t = "cl_stateTable s"
  have t: "table_ok ?t" and rr: "r < rows ?t" "\<not> vacant ?t r" using ok r by (simp_all add: cl_ok_def registered_def)
  obtain p where p: "GetStateTableMasterCell ?t (int r) = Inr p" "byte_index ?t p div 4 = counter_index ?t r" by (rule master_cell[OF t rr])
  note f = p(1) write_counter(2)[OF t rr(1) p(2)] bitmap_word_row[OF ok rr(1)]
  show "current_counter s r > 0 \<Longrightarrow> ClUnregisterClient (int r) s = Inl WUERR_UNABLE_TO_UNREGISTER_CURRENT_CLIENT"
    using f by (simp add: ClUnregisterClient_def row_as_client_error_def current_counter_def)
  show "current_counter s r \<le> 0 \<Longrightarrow> r \<in> ready_clients s \<Longrightarrow> ClUnregisterClient (int r) s = Inl WUERR_UNABLE_TO_UNREGISTER_READY_CLIENT"
    using f by (simp add: ClUnregisterClient_def row_as_client_error_def current_counter_def row_mask' word_and_exp ready_clients_def ready_def)
qed

section \<open>Ready clients\<close>

lemma mark_exact:
  assumes ok: "cl_ok s" and rr: "r < rows (cl_stateTable s)" and iv: "IsValidStateTableRowId (cl_stateTable s) (int r) = Inr ()"
    and l: "th_clientSetLockCount (cl_threadState s) \<le> 0" and c: "(flag = MARK_READY) \<longleftrightarrow> r \<notin> ready_clients s"
  shows "\<exists>s'. ClMarkClientReadyOrLeaving (int r) flag s = Inr s' \<and> cl_ok s'
    \<and> ready_clients s' = (if flag = MARK_READY then insert r (ready_clients s) else ready_clients s - {r})
    \<and> cl_stateTable s' = cl_stateTable s \<and> cl_threadState s' = cl_threadState s \<and> cl_clientsCount s' = cl_clientsCount s"
proof -
  let ?t = "cl_stateTable s" and ?b = "cl_readyClientsBitmap s"
  have rok: "rows_ok ?t" and bo: "bitmap_ok s" using ok by (simp_all add: cl_ok_def table_ok_def)
  note w = bitmap_word_row[OF ok rr]
  define v where "v = (if flag = MARK_READY then ?b ! (r div 32) OR 2 ^ (r mod 32) else ?b ! (r div 32) AND NOT (2 ^ (r mod 32)))"
  define n where "n = (if flag = MARK_READY then cl_readyClientsCount s + 1 else cl_readyClientsCount s - 1)"
  let ?s = "(set_bitmap_word (int r) v s)\<lparr>cl_readyClientsCount := n\<rparr>"
  have e: "ClMarkClientReadyOrLeaving (int r) flag s = Inr ?s"
    using l w(1) c rr iv
    by (cases flag) (auto simp: ClMarkClientReadyOrLeaving_def row_as_client_error_def Let_def row_mask' ready_clients_def ready_def v_def n_def
        word_and_exp set_bitmap_word_def simp flip: word_and_exp(2))
  have b': "cl_readyClientsBitmap ?s = ?b[r div 32 := v]" by (simp add: set_bitmap_word_def nat_row)
  have s: "q = r \<longleftrightarrow> q div 32 = r div 32 \<and> q mod 32 = r mod 32" for q by (metis div_mult_mod_eq)
  have rd: "ready ?s q \<longleftrightarrow> (if q = r then flag = MARK_READY else ready s q)" if "q < 32 * length ?b" for q
    using w(2) s[of q] that unfolding ready_def b'
    by (cases "q div 32 = r div 32") (auto simp: v_def bit_or_iff bit_and_iff bit_not_iff bit_exp_iff)
  have st: "cl_stateTable ?s = ?t" by (simp add: set_bitmap_word_def)
  have ins: "q < 32 * length ?b" if "q < rows ?t" for q using bitmap_word_row(2)[OF ok that] by linarith
  have rc: "ready_clients ?s = (if flag = MARK_READY then insert r (ready_clients s) else ready_clients s - {r})"
    using rr rd ins unfolding ready_clients_def st by (auto split: if_splits)
  have fin: "finite (ready_clients s)" by (rule finite_subset[of _ "{..<rows ?t}"]) (auto simp: ready_clients_def)
  have "n = int (card (if flag = MARK_READY then insert r (ready_clients s) else ready_clients s - {r}))"
  proof (cases "flag = MARK_READY")
    case True
    then show ?thesis using bo c fin by (simp add: n_def bitmap_ok_def)
  next
    case False
    then have "Suc (card (ready_clients s - {r})) = card (ready_clients s)" using c fin by (intro card_Suc_Diff1) auto
    then show ?thesis using False bo by (simp add: n_def bitmap_ok_def)
  qed
  then have "n = int (card (ready_clients ?s))" unfolding rc .
  then have "bitmap_ok ?s" using bo rd rr unfolding bitmap_ok_def b' st by (auto split: if_splits)
  then show ?thesis using e rc st ok by (auto simp: cl_ok_def set_bitmap_word_def)
qed

section \<open>The current client of a thread\<close>

lemma sint_small: "- (2 ^ 31) \<le> c \<Longrightarrow> c < 2 ^ 31 \<Longrightarrow> sint (word_of_int c :: 32 word) = c"
  by (simp add: signed_of_int signed_take_bit_int_eq_self)

text \<open>The counter of a client counts the thread that works for it.\<close>

lemma add_current_exact:
  assumes ok: "cl_ok s" and r: "r \<in> registered s" and b: "- (2 ^ 31) \<le> current_counter s r + d" "current_counter s r + d < 2 ^ 31"
    and p: "GetStateTableMasterCell (cl_stateTable s) (int r) = Inr p"
  shows "\<exists>s'. add_current d p s = Inr s' \<and> cl_ok s' \<and> registered s' = registered s \<and> current_counter s' r = current_counter s r + d
    \<and> other_clients_same r s s' \<and> cl_clientsCount s' = cl_clientsCount s"
proof -
  let ?t = "cl_stateTable s"
  have t: "table_ok ?t" and rr: "r < rows ?t" "\<not> vacant ?t r" using ok r by (simp_all add: cl_ok_def registered_def)
  have i: "byte_index ?t p div 4 = counter_index ?t r"
    using master_cell[OF t rr] p by (metis sum.inject(2))
  let ?w = "word_of_int (current_counter s r + d)"
  let ?t' = "set_words ((st_words ?t)[counter_index ?t r := ?w]) ?t"
  note c = set_counter[OF t rr(1), of ?w]
  let ?s = "s\<lparr>cl_stateTable := ?t'\<rparr>"
  have o: "other_clients_same r s ?s" using c(3,4) by (simp add: other_clients_same_def current_counter_def)
  have "cl_ok ?s" using bitmap_ok_same(1)[OF _ o] ok c(1) by (simp add: cl_ok_def)
  moreover have "registered ?s = registered s" using c(2,4) by (auto simp: registered_def)
  moreover have "current_counter ?s r = current_counter s r + d" using c(3) rr(1) sint_small[OF b] by (simp add: current_counter_def)
  moreover have "add_current d p s = Inr ?s" using write_counter[OF t rr(1) i] by (simp add: add_current_def current_counter_def)
  ultimately show ?thesis using o by auto
qed

lemma other_clients_trans: "other_clients_same r s s1 \<Longrightarrow> other_clients_same r s1 s2 \<Longrightarrow> other_clients_same r s s2"
  by (simp add: other_clients_same_def)

text \<open>Entering a client from outside and leaving it again.\<close>

lemma enter_exact:
  assumes ok: "cl_ok s" and r: "r \<in> registered s" and b: "0 \<le> current_counter s r" "current_counter s r < 2 ^ 31 - 1"
    and n: "ClGetCurrentClientId s = -1"
  shows "\<exists>s'. ClSetCurrentClientId (int r) s = (None, s') \<and> cl_ok s' \<and> registered s' = registered s
    \<and> ClGetCurrentClientId s' = int r \<and> current_counter s' r = current_counter s r + 1 \<and> ready_clients s' = ready_clients s
    \<and> cl_clientsCount s' = cl_clientsCount s"
proof -
  have t: "table_ok (cl_stateTable s)" and rr: "r < rows (cl_stateTable s)" "\<not> vacant (cl_stateTable s) r"
    using ok r by (simp_all add: cl_ok_def registered_def)
  obtain p where p: "GetStateTableMasterCell (cl_stateTable s) (int r) = Inr p" by (rule master_cell[OF t rr])
  obtain s1 where s1: "add_current 1 p s = Inr s1" "cl_ok s1" "registered s1 = registered s" "current_counter s1 r = current_counter s r + 1"
    "other_clients_same r s s1" "cl_clientsCount s1 = cl_clientsCount s"
    using add_current_exact[OF ok r _ _ p, of 1] b by auto
  have "ClSetCurrentClientId (int r) s = (None, set_current (int r) s1)"
    using n p s1(1) by (simp add: ClSetCurrentClientId_def leave_current_def ClGetCurrentClientId_def row_as_client_error_def)
  moreover have "cl_ok (set_current i x) = cl_ok x" "registered (set_current i x) = registered x" "ready_clients (set_current i x) = ready_clients x"
    "current_counter (set_current i x) q = current_counter x q" for i x q
    by (simp_all add: set_current_def cl_ok_def bitmap_ok_def registered_def ready_clients_def ready_def current_counter_def)
  moreover have "ready_clients s1 = ready_clients s" using bitmap_ok_same(2)[OF _ s1(5)] ok by (simp add: cl_ok_def)
  ultimately show ?thesis using s1 by (intro exI[of _ "set_current (int r) s1"]) (simp add: ClGetCurrentClientId_def set_current_def)
qed

section \<open>Enumeration\<close>

definition client_recorder :: "int list enum_clients_proc" where
  "client_recorder params clientId = (True, params\<lparr>ec_userData := ec_userData params @ [clientId]\<rparr>)"

definition set_bits :: "32 word \<Rightarrow> nat list" where
  "set_bits w = filter (bit w) [0..<32]"

lemma set_bits_Cons:
  assumes "lowest_set w k"
  shows "set_bits w = k # set_bits (snd (ResetLowestBitSet w))"
proof -
  have k: "k < 32" using assms by (auto simp: lowest_set_def dest: bit_imp_le_length)
  then have u: "[0..<32] = [0..<k] @ k # [Suc k..<32]" using upt_add_eq_append[of 0 k "32 - k"] upt_conv_Cons[OF k] by simp
  have l: "filter (bit w) [0..<k] = []" "filter (bit (snd (ResetLowestBitSet w))) [0..<k] = []"
    using assms ResetLowestBitSet_bits(2)[OF assms] by (auto simp: lowest_set_def filter_empty_conv)
  have "filter (bit w) [Suc k..<32] = filter (bit (snd (ResetLowestBitSet w))) [Suc k..<32]"
    using ResetLowestBitSet_bits(2)[OF assms] by (intro filter_cong) auto
  then show ?thesis using assms l ResetLowestBitSet_bits(2)[OF assms] unfolding set_bits_def u by (simp add: lowest_set_def)
qed

lemma enum_word_records:
  "\<exists>params'. enum_word client_recorder n base w cnt params = (cnt + int (length (set_bits w)), params')
     \<and> ec_userData params' = ec_userData params @ map (\<lambda>b. base + int b) (set_bits w)"
proof (induction "card {n. bit w n}" arbitrary: w cnt params rule: less_induct)
  case less
  show ?case
  proof (cases "w = 0")
    case True
    then show ?thesis by (simp add: enum_word.simps set_bits_def)
  next
    case False
    then obtain k where k: "lowest_set w k" by (rule lowest_set_ex)
    obtain w' where w': "ResetLowestBitSet w = (int k, w')" using ResetLowestBitSet_bits(1)[OF k] by (metis prod.collapse)
    define q where "q = params\<lparr>ec_clientsCount := n, ec_alreadyEnumeratedCount := cnt, ec_userData := ec_userData params @ [base + int k]\<rparr>"
    obtain params' where r: "enum_word client_recorder n base w' (cnt + 1) q = (cnt + 1 + int (length (set_bits w')), params')"
      "ec_userData params' = ec_userData q @ map (\<lambda>b. base + int b) (set_bits w')"
      using less[OF reset_lowest_fewer[OF False w'[symmetric]], of "cnt + 1" q] by auto
    have "enum_word client_recorder n base w cnt params = enum_word client_recorder n base w' (cnt + 1) q"
      using False w' by (subst enum_word.simps) (simp add: client_recorder_def q_def)
    then show ?thesis using r set_bits_Cons[OF k] w' by (simp add: q_def)
  qed
qed

fun all_bits :: "nat \<Rightarrow> 32 word list \<Rightarrow> nat list" where
  "all_bits base [] = []"
| "all_bits base (w # ws) = map ((+) base) (set_bits w) @ all_bits (base + 32) ws"

lemma enum_words_records:
  "\<exists>params'. enum_words client_recorder n (int base) ws cnt params = (cnt + int (length (all_bits base ws)), params')
     \<and> ec_userData params' = ec_userData params @ map int (all_bits base ws)"
proof (induction ws arbitrary: base cnt params)
  case (Cons w ws)
  obtain p1 where p1: "enum_word client_recorder n (int base) w cnt params = (cnt + int (length (set_bits w)), p1)"
    "ec_userData p1 = ec_userData params @ map (\<lambda>b. int base + int b) (set_bits w)" using enum_word_records by blast
  obtain p2 where "enum_words client_recorder n (int (base + 32)) ws (cnt + int (length (set_bits w))) p1 =
      (cnt + int (length (set_bits w)) + int (length (all_bits (base + 32) ws)), p2)"
    "ec_userData p2 = ec_userData p1 @ map int (all_bits (base + 32) ws)" using Cons.IH by blast
  with p1 show ?case by (simp add: o_def add.commute)
qed simp

lemma all_bits_mem: "q \<in> set (all_bits base ws) \<longleftrightarrow> base \<le> q \<and> q < base + 32 * length ws \<and> bit (ws ! ((q - base) div 32)) ((q - base) mod 32)"
proof (induction ws arbitrary: base)
  case (Cons w ws)
  show ?case
  proof (cases "base \<le> q \<and> q < base + 32")
    case True
    then have "q \<in> set (map ((+) base) (set_bits w)) \<longleftrightarrow> bit w (q - base)" by (auto simp: set_bits_def image_iff intro!: exI[of _ "q - base"])
    moreover have "(q - base) div 32 = 0" "(q - base) mod 32 = q - base" using True by (simp_all add: less_diff_conv2)
    ultimately show ?thesis using True Cons.IH[of "base + 32"] by simp
  next
    case False
    have n: "q \<notin> set (map ((+) base) (set_bits w))" using False by (auto simp: set_bits_def)
    show ?thesis
    proof (cases "base + 32 \<le> q")
      case True
      then obtain m where m: "q = base + 32 + m" by (metis le_iff_add)
      have d: "(q - base) div 32 = Suc (m div 32)" "(q - base) mod 32 = m mod 32" using m by (simp_all add: algebra_simps)
      with n Cons.IH[of "base + 32"] True m show ?thesis by simp
    qed (use n False Cons.IH[of "base + 32"] in auto)
  qed
qed simp

lemma all_bits_sorted: "sorted_wrt (<) (all_bits base ws)"
proof (induction ws arbitrary: base)
  case (Cons w ws)
  have "sorted_wrt (<) (map ((+) base) (set_bits w))"
    by (simp add: sorted_wrt_map set_bits_def) (intro sorted_wrt_filter, simp)
  moreover have "\<forall>x\<in>set (map ((+) base) (set_bits w)). x < base + 32" by (auto simp: set_bits_def)
  moreover have "\<forall>y\<in>set (all_bits (base + 32) ws). base + 32 \<le> y" using all_bits_mem by auto
  ultimately show ?case using Cons.IH[of "base + 32"] by (fastforce simp: sorted_wrt_append)
qed simp

lemma bitmap_count:
  assumes "0 < n" "n < 2 ^ 31"
  shows "unat (RoundSizeUp (word_of_int n) 32 div 32) = bitmap_words n"
proof -
  have n: "unat (word_of_int n :: 64 word) = nat n" using assms by (simp add: unat_eq_nat_uint uint_word_of_int)
  have b: "nat n < 2 ^ 31" using assms by simp
  have e: "RoundSizeUp (word_of_int n) 32 = RoundSizeUp (word_of_int n) (2 ^ 5)" by simp
  have "unat (RoundSizeUp (word_of_int n) 32) = bitmap_words n * 32"
    unfolding e by (subst RoundSizeUp_nat) (use n b in \<open>auto simp: bitmap_words_def\<close>)
  then show ?thesis by (simp add: unat_div)
qed

lemma enumerate_exact:
  assumes ok: "cl_ok s" and l: "0 \<le> th_clientSetLockCount (cl_threadState s)" "th_clientSetLockCount (cl_threadState s) < INT_MAX"
  shows "\<exists>params'. ClEnumerateClients client_recorder params s = Inr (params', s)
    \<and> ec_userData params' = ec_userData params @ map int (sorted_list_of_set (ready_clients s))"
proof -
  let ?t = "cl_stateTable s" and ?b = "cl_readyClientsBitmap s"
  have rok: "rows_ok ?t" and bo: "bitmap_ok s" using ok by (simp_all add: cl_ok_def table_ok_def)
  obtain n: "0 < st_rowsCount ?t" "st_rowsCount ?t < 2 ^ 31" by (rule rows_okE[OF rok])
  have len: "length ?b = bitmap_words (st_rowsCount ?t)" using bo by (simp add: bitmap_ok_def)
  obtain p where p: "enum_words client_recorder (cl_readyClientsCount s) (int 0) ?b 0 params = (0 + int (length (all_bits 0 ?b)), p)"
    "ec_userData p = ec_userData params @ map int (all_bits 0 ?b)" using enum_words_records by blast
  have "rows ?t \<le> 32 * length ?b" using len by (simp add: bitmap_words_def)
  then have "set (all_bits 0 ?b) = ready_clients s"
    using bo unfolding bitmap_ok_def by (auto simp: all_bits_mem ready_clients_def ready_def not_le[symmetric])
  then have "sorted_list_of_set (ready_clients s) = all_bits 0 ?b"
    using all_bits_sorted[of 0 ?b] by (metis strict_sorted_equal strict_sorted_list_of_set finite_set set_sorted_list_of_set)
  then show ?thesis using p l len bitmap_count[OF n]
    by (auto simp: ClEnumerateClients_def ClLockClientsSet_def ClUnlockClientsSet_def Let_def)
qed

section \<open>The invariant\<close>

lemma word_and_exp_0: "2 ^ k AND w = 0 \<longleftrightarrow> \<not> bit (w :: 32 word) k"
  using word_and_exp(2)[of k w] by blast

lemma word_ones: "k < 32 \<Longrightarrow> bit (0xFFFFFFFF :: 32 word) k"
proof -
  have "(0xFFFFFFFF :: 32 word) = - 1" by simp
  then show "k < 32 \<Longrightarrow> bit (0xFFFFFFFF :: 32 word) k" by (simp only:) simp
qed

lemma table_ok_words: "table_ok t \<Longrightarrow> length ws = length (st_words t) \<Longrightarrow> table_ok (set_words ws t)"
  by (simp add: table_ok_def set_words_ok)

text \<open>A state whose table differs in the contents of its memory only.\<close>

definition same_but_memory :: "cl_state \<Rightarrow> cl_state \<Rightarrow> bool" where
  "same_but_memory s s' \<longleftrightarrow> table_ok (cl_stateTable s') \<and> st_rowsCount (cl_stateTable s') = st_rowsCount (cl_stateTable s)
     \<and> cl_readyClientsBitmap s' = cl_readyClientsBitmap s \<and> cl_readyClientsCount s' = cl_readyClientsCount s"

lemma same_but_memory_ok:
  assumes "cl_ok s" "same_but_memory s s'"
  shows "cl_ok s'"
proof -
  have "ready s' = ready s" using assms(2) by (simp add: ready_def fun_eq_iff same_but_memory_def)
  with assms show ?thesis by (simp add: cl_ok_def bitmap_ok_def same_but_memory_def ready_clients_def)
qed

lemma write_int_ok: "table_ok t \<Longrightarrow> write_int t p v = Inr t' \<Longrightarrow> table_ok t' \<and> st_rowsCount t' = st_rowsCount t"
  by (auto simp: write_int_def table_ok_words elim!: sbind_InrE)

lemma SetStateTableIsVacantRowFlag_ok:
  "table_ok t \<Longrightarrow> SetStateTableIsVacantRowFlag t r b = Inr t' \<Longrightarrow> table_ok t' \<and> st_rowsCount t' = st_rowsCount t"
  by (auto simp: SetStateTableIsVacantRowFlag_def Let_def split: if_splits intro!: table_ok_words)

lemma OccupyStateTableFirstVacantRow_ok:
  "table_ok t \<Longrightarrow> OccupyStateTableFirstVacantRow t b e = Inr (r, t') \<Longrightarrow> table_ok t' \<and> st_rowsCount t' = st_rowsCount t"
  by (auto simp: OccupyStateTableFirstVacantRow_def Let_def split: if_splits elim!: sbind_InrE intro!: table_ok_words)

lemma ClRegisterClient_ok:
  assumes ok: "cl_ok s" and r: "ClRegisterClient i b s = Inr (j, s')"
  shows "cl_ok s'"
proof -
  have t: "table_ok (cl_stateTable s)" using ok by (simp add: cl_ok_def)
  obtain row t1 where t1: "(if b then
              sbind (row_as_client_error (IsStateTableRowVacant (cl_stateTable s) i)) (\<lambda>isVacant.
                if \<not> isVacant then Inl WUERR_CLIENT_ID_ALREADY_IN_USE
                else sbind (SetStateTableIsVacantRowFlag (cl_stateTable s) i False) (\<lambda>t. Inr (i, t)))
            else OccupyStateTableFirstVacantRow (cl_stateTable s) 0 INT_MAX) = Inr (row, t1)"
    and tail: "(case GetStateTableMasterCell t1 row of Inl e \<Rightarrow> Inl WU_ASSERTION | Inr mgmtData \<Rightarrow>
       sbind (write_int t1 mgmtData 0) (\<lambda>t'. Inr (row, s\<lparr>cl_stateTable := t', cl_clientsCount := cl_clientsCount s + 1\<rparr>))) = Inr (j, s')"
    using r unfolding ClRegisterClient_def by (elim sbind_InrE) auto
  have o1: "table_ok t1 \<and> st_rowsCount t1 = st_rowsCount (cl_stateTable s)"
    using t1 SetStateTableIsVacantRowFlag_ok[OF t] OccupyStateTableFirstVacantRow_ok[OF t]
    by (auto split: if_splits elim!: sbind_InrE)
  obtain t2 where "table_ok t2" "st_rowsCount t2 = st_rowsCount t1" "s' = s\<lparr>cl_stateTable := t2, cl_clientsCount := cl_clientsCount s + 1\<rparr>"
    using tail write_int_ok[of t1] o1 by (auto split: sum.splits elim!: sbind_InrE)
  with o1 show ?thesis by (intro same_but_memory_ok[OF ok]) (simp add: same_but_memory_def)
qed

lemma ClUnregisterClient_ok:
  assumes ok: "cl_ok s" and u: "ClUnregisterClient i s = Inr s'"
  shows "cl_ok s'"
proof -
  obtain t' where t': "SetStateTableIsVacantRowFlag (cl_stateTable s) i True = Inr t'"
    "s' = s\<lparr>cl_stateTable := t', cl_clientsCount := cl_clientsCount s - 1\<rparr>"
    using u by (auto simp: ClUnregisterClient_def split: if_splits elim!: sbind_InrE)
  have "table_ok t' \<and> st_rowsCount t' = st_rowsCount (cl_stateTable s)"
    by (rule SetStateTableIsVacantRowFlag_ok[OF _ t'(1)]) (use ok in \<open>simp add: cl_ok_def\<close>)
  then show ?thesis using t'(2) by (intro same_but_memory_ok[OF ok]) (simp add: same_but_memory_def)
qed

lemma add_current_same: "cl_ok s \<Longrightarrow> add_current d p s = Inr s' \<Longrightarrow> same_but_memory s s'"
  using write_int_ok[of "cl_stateTable s" p] by (auto simp: add_current_def cl_ok_def same_but_memory_def elim!: sbind_InrE)

lemma set_current_ok: "cl_ok (set_current i s) \<longleftrightarrow> cl_ok s"
  by (simp add: set_current_def cl_ok_def bitmap_ok_def ready_clients_def ready_def)

lemma leave_current_ok:
  assumes "cl_ok s" "leave_current s = Inr s'"
  shows "cl_ok s'"
  using assms same_but_memory_ok[OF assms(1) add_current_same[OF assms(1)]]
  by (auto simp: leave_current_def set_current_ok split: if_splits sum.splits elim!: sbind_InrE)

lemma ClSetCurrentClientId_ok:
  assumes ok: "cl_ok s" and c: "ClSetCurrentClientId i s = (e, s')"
  shows "cl_ok s'"
proof (cases "leave_current s")
  case (Inr s1)
  have o1: "cl_ok s1" by (rule leave_current_ok[OF ok Inr])
  have "s' = s1 \<or> (\<exists>p s2. add_current 1 p s1 = Inr s2 \<and> s' = set_current i s2)"
    using c Inr by (auto simp: ClSetCurrentClientId_def split: if_splits sum.splits elim!: sbind_InrE)
  then show ?thesis using o1 same_but_memory_ok[OF o1 add_current_same[OF o1]] by (auto simp: set_current_ok)
qed (use ok c in \<open>auto simp: ClSetCurrentClientId_def\<close>)

lemma ClMarkClientReadyOrLeaving_ok:
  assumes ok: "cl_ok s" and m: "ClMarkClientReadyOrLeaving i flag s = Inr s'"
  shows "cl_ok s'"
proof -
  have l: "th_clientSetLockCount (cl_threadState s) \<le> 0"
    and v: "\<exists>w. row_as_client_error (IsValidStateTableRowId (cl_stateTable s) i) = Inr () \<and> bitmap_word s i = Inr w"
    using m by (auto simp: ClMarkClientReadyOrLeaving_def Let_def split: if_splits elim!: sbind_InrE)
  then have iv: "IsValidStateTableRowId (cl_stateTable s) i = Inr ()" by (auto simp: row_as_client_error_def split: sum.splits)
  then have "0 \<le> i" "i < st_rowsCount (cl_stateTable s)" by (auto simp: IsValidStateTableRowId_def split: if_splits)
  then obtain r where r: "i = int r" "r < rows (cl_stateTable s)" using zero_le_imp_eq_int by force
  have "(flag = MARK_READY) \<longleftrightarrow> r \<notin> ready_clients s"
    using m l iv r bitmap_word_row[OF ok r(2)]
    by (cases flag) (auto simp: ClMarkClientReadyOrLeaving_def row_as_client_error_def Let_def row_mask' ready_clients_def ready_def
        word_and_exp_0 split: if_splits)
  from mark_exact[OF ok r(2) iv[unfolded r(1)] l this] m r(1) show ?thesis by auto
qed

lemma thread_state_ok: "cl_ok s \<Longrightarrow> cl_ok (s\<lparr>cl_threadState := th\<rparr>)"
  by (rule same_but_memory_ok) (simp_all add: same_but_memory_def cl_ok_def)

lemma lock_set_ok:
  "cl_ok s \<Longrightarrow> ClLockClientsSet s = Inr s' \<Longrightarrow> cl_ok s'" "cl_ok s \<Longrightarrow> ClUnlockClientsSet s = Inr s' \<Longrightarrow> cl_ok s'"
  by (auto simp: ClLockClientsSet_def ClUnlockClientsSet_def Let_def thread_state_ok split: if_splits)

text \<open>A fresh table.\<close>

lemma ClStartup_ok:
  assumes st: "ClStartup malloc setup s = (True, e, s')" and al: "\<forall>k a. malloc k = Some a \<longrightarrow> aligned8 a"
    and n: "setup_maxClientsCount setup < 2 ^ 31" and t: "table_cols_ok (cl_stateTable s)" "0 < st_columnsCount (cl_stateTable s)"
      "4 \<le> unat (st_rowSize (cl_stateTable s))" and r: "cl_readyClientsCount s = 0"
  shows "cl_ok s'" "registered s' = {}" "ready_clients s' = {}" "rows (cl_stateTable s') = nat (setup_maxClientsCount setup)"
    "cl_clientsCount s' = cl_clientsCount s" "cl_threadState s' = cl_threadState s"
proof -
  let ?n = "setup_maxClientsCount setup"
  obtain t' where t': "CreateStateTableRows malloc (cl_stateTable s) ?n (word_of_int (setup_maxSizePerClient setup)) = Inr t'"
    "s' = s\<lparr>cl_readyClientsBitmap := replicate (unat (4 * RoundSizeUp (word_of_int ?n) 32 div 32) div 4) 0, cl_stateTable := t'\<rparr>"
    using st by (auto simp: ClStartup_def Let_def split: if_splits option.splits sum.splits)
  have n0: "0 < ?n" using t'(1) by (auto simp: CreateStateTableRows_def split: if_splits)
  note c = CreateStateTableRows_ok[OF t'(1) n _ al]
  have rs: "unat (st_rowSize (cl_stateTable s)) < 2 ^ 19" using t(1) by (simp add: table_cols_ok_def)
  have tk: "table_ok t'" using c[OF rs] t by (simp add: table_ok_def)
  have bm: "cl_readyClientsBitmap s' = replicate (bitmap_words ?n) 0" using t'(2) bitmap_size[OF n0 n] by simp
  have nr: "\<not> ready s' q" if "q < 32 * bitmap_words ?n" for q using that by (simp add: ready_def bm less_mult_imp_div_less)
  have rw: "rows t' \<le> 32 * bitmap_words ?n" using c(2)[OF rs] by (simp add: bitmap_words_def)
  show rc: "ready_clients s' = {}" using nr rw t'(2) by (force simp: ready_clients_def)
  show "cl_ok s'" using tk nr rc bm r t'(2) c(2)[OF rs] by (simp add: cl_ok_def bitmap_ok_def)
  show "rows (cl_stateTable s') = nat ?n" "cl_clientsCount s' = cl_clientsCount s" "cl_threadState s' = cl_threadState s"
    using t'(2) c(2)[OF rs] by simp_all
  have "vacant t' q" if q: "q < rows t'" for q
  proof -
    have "q div 32 < bitmap_words ?n" using bitmap_inside(1)[OF c(1)[OF rs] q] c(2)[OF rs] by simp
    then have "st_words t' ! (q div 32) = 0xFFFFFFFF" using c(5)[OF rs] by blast
    moreover have "bit (0xFFFFFFFF :: 32 word) (q mod 32)" using word_ones by simp
    ultimately show ?thesis by (simp add: vacant_def)
  qed
  then show "registered s' = {}" using t'(2) by (auto simp: registered_def)
qed

end
