(* ===== verification/ClientProperties.thy ===== *)
theory ClientProperties
  imports ClientViews
begin

text \<open>
  The properties of the state table and of the clients kept in it.
\<close>

unbundle bit_operations_syntax

section \<open>Runs\<close>

text \<open>Starting up reserves the management column, then the columns of the other modules, then the rows.\<close>

fun reserve_blocks :: "64 word list \<Rightarrow> cl_state \<Rightarrow> wu_error + (TICKET list \<times> cl_state)" where
  "reserve_blocks [] s = Inr ([], s)"
| "reserve_blocks (sz # szs) s =
     sbind (ClReserveStateBlocks sz s) (\<lambda>(ticket, s'). sbind (reserve_blocks szs s') (\<lambda>(tickets, s''). Inr (ticket # tickets, s'')))"

inductive cl_step :: "cl_state \<Rightarrow> cl_state \<Rightarrow> bool" where
  "ClRegisterClient i b s = Inr (j, s') \<Longrightarrow> cl_step s s'"
| "ClMarkClientReady i s = Inr s' \<Longrightarrow> cl_step s s'"
| "ClMarkClientLeaving i s = Inr s' \<Longrightarrow> cl_step s s'"
| "ClUnregisterClient i s = Inr s' \<Longrightarrow> cl_step s s'"
| "ClSetCurrentClientId i s = (e, s') \<Longrightarrow> cl_step s s'"
| "ClLockClientsSet s = Inr s' \<Longrightarrow> cl_step s s'"
| "ClUnlockClientsSet s = Inr s' \<Longrightarrow> cl_step s s'"

inductive cl_reachable :: "(64 word \<Rightarrow> 64 word option) \<Rightarrow> cl_state \<Rightarrow> bool" for malloc where
  cl_start: "ClInitialize s0 = (None, s1) \<Longrightarrow> reserve_blocks szs s1 = Inr (tickets, s2) \<Longrightarrow> \<forall>sz\<in>set szs. unat sz < 2 ^ 63 \<Longrightarrow>
     setup_maxClientsCount cfg < 2 ^ 31 \<Longrightarrow> ClStartup malloc cfg s2 = (True, e, s3) \<Longrightarrow> cl_reachable malloc s3"
| cl_next: "cl_reachable malloc s \<Longrightarrow> cl_step s s' \<Longrightarrow> cl_reachable malloc s'"

lemma reserve_blocks_table:
  "reserve_blocks szs s = Inr (tickets, s') \<Longrightarrow>
     reserve_all (cl_stateTable s) szs = Inr (tickets, cl_stateTable s') \<and> s' = s\<lparr>cl_stateTable := cl_stateTable s'\<rparr>"
proof (induction szs arbitrary: s tickets)
  case (Cons sz szs)
  obtain tk t1 where r: "ReserveStateTableColumn (cl_stateTable s) sz 0 = Inr (tk, t1)"
    using Cons.prems by (auto simp: ClReserveStateBlocks_def elim!: sbind_InrE)
  obtain tks where rs: "reserve_blocks szs (s\<lparr>cl_stateTable := t1\<rparr>) = Inr (tks, s')" "tickets = tk # tks"
    using Cons.prems r by (auto simp: ClReserveStateBlocks_def elim!: sbind_InrE)
  from Cons.IH[OF rs(1)] r rs(2) show ?case by (auto elim: ssubst)
qed simp

lemma ClInitialize_table:
  assumes "ClInitialize s0 = (None, s1)"
  shows "table_cols_ok (cl_stateTable s1)" "st_columnsCount (cl_stateTable s1) = 1" "st_rowSize (cl_stateTable s1) = 4"
    "cl_readyClientsCount s1 = 0" "cl_clientsCount s1 = 0"
proof -
  let ?t = "InitializeStateTable (cl_stateTable s0)"
  have z: "st_rowSize ?t = 0" "st_columnsCount ?t = 0" by (simp_all add: InitializeStateTable_def ResetStateTable_def)
  then have ok: "table_cols_ok ?t" by (simp add: table_cols_ok_def)
  obtain tk t1 where r: "ReserveStateTableColumn ?t 4 0 = Inr (tk, t1)" "cl_stateTable s1 = t1" "cl_readyClientsCount s1 = 0" "cl_clientsCount s1 = 0"
    using assms by (auto simp: ClInitialize_def Let_def sizeof_ClMgmtData_def split: sum.splits)
  have s4: "unat (4 :: 64 word) < 2 ^ 63" by simp
  note l = ReserveStateTableColumn_layout[OF ok s4 r(1)]
  have "t1 = ?t\<lparr>st_columnsCount := 1, st_rowSize := AlignPtr 0 8 + 4\<rparr>"
    using r(1) z by (auto simp: ReserveStateTableColumn_def Let_def ST_ALIGNMENT_def OffsetPtr_def CalcPtrDistance_def split: if_splits)
  moreover have "AlignPtr 0 8 = 0" by (simp add: AlignPtr_def)
  ultimately show "st_rowSize (cl_stateTable s1) = 4" using r(2) by simp
  show "table_cols_ok (cl_stateTable s1)" "st_columnsCount (cl_stateTable s1) = 1" using l r(2) z by simp_all
qed (use assms in \<open>auto simp: ClInitialize_def Let_def split: sum.splits\<close>)

lemma cl_step_ok: "cl_step s s' \<Longrightarrow> cl_ok s \<Longrightarrow> cl_ok s'"
  by (induction rule: cl_step.induct)
     (auto simp: ClMarkClientReady_def ClMarkClientLeaving_def intro: ClRegisterClient_ok ClMarkClientReadyOrLeaving_ok ClUnregisterClient_ok
        ClSetCurrentClientId_ok lock_set_ok)

lemma cl_reachable_cl_ok:
  assumes "cl_reachable malloc s" "\<forall>k a. malloc k = Some a \<longrightarrow> aligned8 a"
  shows "cl_ok s"
  using assms(1)
proof (induction rule: cl_reachable.induct)
  case (cl_start s0 s1 szs tickets s2 cfg e s3)
  note i = ClInitialize_table[OF cl_start(1)] and t = reserve_blocks_table[OF cl_start(2)]
  have l: "table_cols_ok (cl_stateTable s2) \<and> st_columnsCount (cl_stateTable s2) = 1 + int (length szs)
      \<and> 4 \<le> unat (st_rowSize (cl_stateTable s2))"
    using reserve_all_layout[OF i(1) cl_start(3) t[THEN conjunct1]] i(2,3) by auto
  have "cl_readyClientsCount s2 = 0" using t i(4) by (metis cl_state.select_convs(6) cl_state.update_convs(3) cl_state.surjective)
  then show ?case using ClStartup_ok(1)[OF cl_start(5) assms(2) cl_start(4)] l by simp
qed (rule cl_step_ok)

section \<open>A small run\<close>

text \<open>The storage manager starts with room for fifty clients; an allocator that always gives the same address will do.\<close>

definition malloc0 :: "64 word \<Rightarrow> 64 word option" where
  "malloc0 k = Some 0x1000"

definition setup50 :: ClSetup where
  "setup50 = \<lparr>setup_maxClientsCount = 50, setup_maxSizePerClient = 0x10000\<rparr>"

definition raw_clients :: cl_state where
  "raw_clients = \<lparr>cl_isInitialized = False, cl_threadState = \<lparr>th_currentClientId = -1, th_clientSetLockCount = 0\<rparr>,
     cl_stateTable = \<lparr>st_rowsCount = 0, st_columnsCount = 0, st_mem = None, st_base = 0, st_stride = 0, st_rowSize = 0\<rparr>,
     cl_readyClientsBitmap = [], cl_clientsCount = 0, cl_readyClientsCount = 0\<rparr>"

definition clients0 :: cl_state where
  "clients0 = raw_clients\<lparr>cl_isInitialized := True, cl_readyClientsBitmap := [0, 0],
     cl_stateTable := \<lparr>st_rowsCount = 50, st_columnsCount = 1, st_mem = Some (0x1000, [0xFFFFFFFF, 0xFFFFFFFF] @ replicate 102 0),
                        st_base = 0x1008, st_stride = 8, st_rowSize = 4\<rparr>\<rparr>"

text \<open>Client 40 registers and becomes ready.\<close>

definition clients1 :: cl_state where
  "clients1 = clients0\<lparr>cl_stateTable := set_words ([0xFFFFFFFF, 0xFFFFFEFF] @ replicate 102 0) (cl_stateTable clients0), cl_clientsCount := 1\<rparr>"

definition clients2 :: cl_state where
  "clients2 = clients1\<lparr>cl_readyClientsBitmap := [0, 256], cl_readyClientsCount := 1\<rparr>"

lemma malloc0_aligned: "\<forall>k a. malloc0 k = Some a \<longrightarrow> aligned8 a"
  by (simp add: malloc0_def aligned8_def)

lemma clients0_start: "ClStartup malloc0 setup50 (snd (ClInitialize raw_clients)) = (True, None, clients0)"
  by code_simp

lemma clients0_reachable: "cl_reachable malloc0 clients0"
proof (rule cl_start)
  show "ClInitialize raw_clients = (None, snd (ClInitialize raw_clients))" by code_simp
  show "reserve_blocks [] (snd (ClInitialize raw_clients)) = Inr ([], snd (ClInitialize raw_clients))" by simp
  show "setup_maxClientsCount setup50 < 2 ^ 31" by (simp add: setup50_def)
  show "ClStartup malloc0 setup50 (snd (ClInitialize raw_clients)) = (True, None, clients0)" by (rule clients0_start)
qed simp

lemma clients1_step: "ClRegisterClient 40 True clients0 = Inr (40, clients1)"
  by code_simp

lemma clients2_step: "ClMarkClientReady 40 clients1 = Inr clients2"
  by code_simp

lemma clients1_reachable: "cl_reachable malloc0 clients1"
  by (rule cl_next[OF clients0_reachable cl_step.intros(1)[OF clients1_step]])

lemma clients2_reachable: "cl_reachable malloc0 clients2"
  by (rule cl_next[OF clients1_reachable cl_step.intros(2)[OF clients2_step]])

section \<open>Properties\<close>

text \<open>
  C26. The table lookup finds the lowest bit. For every word but zero the multiplication by the de Bruijn
  constant and the table give the position of the lowest set bit, and resetting clears exactly that bit.
\<close>

theorem lowest_bit_exact:
  assumes "v \<noteq> 0"
  shows "\<exists>k. FindLowestBitSet v = int k \<and> bit v k \<and> (\<forall>j<k. \<not> bit v j) \<and> fst (ResetLowestBitSet v) = int k
    \<and> (\<forall>n. bit (snd (ResetLowestBitSet v)) n \<longleftrightarrow> bit v n \<and> n \<noteq> k)"
proof -
  obtain k where k: "lowest_set v k" using assms by (rule lowest_set_ex)
  from FindLowestBitSet_lowest[OF k] ResetLowestBitSet_bits[OF k] k show ?thesis by (auto simp: lowest_set_def)
qed

theorem lowest_bit_exact_witness: "\<exists>k. FindLowestBitSet 40 = int k \<and> bit (40 :: 32 word) k"
  using lowest_bit_exact[of 40] by auto

text \<open>
  C27. A ticket says what went into it. From the ticket of a column its offset and its number are read back,
  for every offset inside a row and every number of columns allowed; a ticket is never a null pointer.
\<close>

theorem ticket_roundtrip:
  assumes "unat p < 2 ^ 19" "0 \<le> ordinal" "ordinal < 128"
  shows "PtrFromTicket (MakeTicket p ordinal) = p \<and> OrdinalFromTicket (MakeTicket p ordinal) = ordinal \<and> MakeTicket p ordinal \<noteq> 0"
  using PtrFromTicket_Make[OF assms(1)] OrdinalFromTicket_Make[OF assms(2,3)] MakeTicket_not_null by simp

theorem ticket_roundtrip_witness: "PtrFromTicket (MakeTicket 24 3) = 24 \<and> OrdinalFromTicket (MakeTicket 24 3) = 3"
  using ticket_roundtrip[of 24 3] by simp

text \<open>
  C21. State blocks do not overlap. When columns have been reserved and the rows created, whatever the
  memory holds later, the blocks handed out for two clients, or for two columns of one client, share no
  byte, and every block lies behind the bitmap and inside the allocation.
\<close>

theorem cells_disjoint:
  assumes t: "table_cols_ok t" and szs: "\<forall>sz\<in>set szs. unat sz < 2 ^ 63" and res: "reserve_all t szs = Inr (tickets, t1)"
    and c: "CreateStateTableRows malloc t1 n maxRowSize = Inr t2" and n: "n < 2 ^ 31" and al: "\<forall>k a. malloc k = Some a \<longrightarrow> aligned8 a"
    and ws: "length ws = length (st_words t2)" and ij: "i < length szs" "j < length szs" and rq: "r < nat n" "q < nat n"
    and p: "GetStateTableCell (set_words ws t2) (tickets ! i) (int r) = Inr p" "GetStateTableCell (set_words ws t2) (tickets ! j) (int q) = Inr p'"
    and d: "(i, r) \<noteq> (j, q)"
  shows "4 * bitmap_words n \<le> byte_index t2 p \<and> byte_index t2 p + unat (szs ! i) \<le> 4 * length (st_words t2)
    \<and> (byte_index t2 p + unat (szs ! i) \<le> byte_index t2 p' \<or> byte_index t2 p' + unat (szs ! j) \<le> byte_index t2 p)"
proof -
  note l = reserve_all_layout[OF t szs res]
  have "unat (st_rowSize t1) < 2 ^ 19" using l by (simp add: table_cols_ok_def)
  note k = CreateStateTableRows_ok[OF c n this al]
  let ?t = "set_words ws t2"
  note w = set_words_ok[OF k(1) ws]
  have r: "r < rows ?t" "q < rows ?t" using rq k(2) by simp_all
  have st: "unat (st_rowSize t1) \<le> unat (st_stride t2)" by (rule rows_okE[OF k(1)]) (simp add: k(4))
  let ?S = "unat (st_stride t2)" and ?H = "header_bytes n"
  have b: "byte_index t2 p = ?H + ?S * r + off (tickets ! i)" "byte_index t2 p' = ?H + ?S * q + off (tickets ! j)"
    using GetStateTableCell_byte[OF w(1) r(1) p(1)] GetStateTableCell_byte[OF w(1) r(2) p(2)] w(3) k(2) by (simp_all add: cell_start_def)
  have e: "off (tickets ! i) + unat (szs ! i) \<le> ?S" "off (tickets ! j) + unat (szs ! j) \<le> ?S" using l ij st by force+
  have "4 * bitmap_words n \<le> ?H" by (simp add: header_bytes_def)
  moreover have "?H + ?S * r + ?S + 8 \<le> 4 * length (st_words t2)" using row_in_memory(1)[OF w(1) r(1)] w(2) ws k(2) by simp
  moreover have "?S * r + ?S \<le> ?S * q" if "r < q" using that mult_le_mono2[of "Suc r" q ?S] by simp
  moreover have "?S * q + ?S \<le> ?S * r" if "q < r" using that mult_le_mono2[of "Suc q" r ?S] by simp
  moreover have "off (tickets ! i) + unat (szs ! i) \<le> off (tickets ! j) \<or> off (tickets ! j) + unat (szs ! j) \<le> off (tickets ! i)" if "r = q"
  proof -
    have "i < j \<or> j < i" using d that by auto
    then show ?thesis using l ij by blast
  qed
  ultimately show ?thesis using b e linorder_less_linear[of r q] by fastforce
qed

definition two_columns :: StateTable where
  "two_columns = (case reserve_all (cl_stateTable raw_clients) [4, 16] of Inl e \<Rightarrow> cl_stateTable raw_clients | Inr (tickets, t) \<Rightarrow> t)"

definition two_rows :: StateTable where
  "two_rows = (case CreateStateTableRows malloc0 two_columns 2 0x10000 of Inl e \<Rightarrow> two_columns | Inr t \<Rightarrow> t)"

theorem cells_disjoint_witness:
  "\<exists>p p'. GetStateTableCell (set_words (replicate 16 0) two_rows) (MakeTicket 0 0) 1 = Inr p
     \<and> GetStateTableCell (set_words (replicate 16 0) two_rows) (MakeTicket 8 1) 0 = Inr p'
     \<and> (byte_index two_rows p + 4 \<le> byte_index two_rows p' \<or> byte_index two_rows p' + 16 \<le> byte_index two_rows p)"
proof -
  have h: "table_cols_ok (cl_stateTable raw_clients)" "\<forall>sz\<in>set [4, 16]. unat (sz :: 64 word) < 2 ^ 63" by (simp_all add: table_cols_ok_def raw_clients_def)
  have r: "reserve_all (cl_stateTable raw_clients) [4, 16] = Inr ([MakeTicket 0 0, MakeTicket 8 1], two_columns)" by code_simp
  have c: "CreateStateTableRows malloc0 two_columns 2 0x10000 = Inr two_rows" by code_simp
  have l: "length (replicate 16 (0 :: 32 word)) = length (st_words two_rows)" by code_simp
  have p: "GetStateTableCell (set_words (replicate 16 0) two_rows) (MakeTicket 0 0) 1 = Inr 0x1020"
    "GetStateTableCell (set_words (replicate 16 0) two_rows) (MakeTicket 8 1) 0 = Inr 0x1010" by code_simp+
  from cells_disjoint[OF h r c _ malloc0_aligned l, of 0 1 1 0 "0x1020" "0x1010"] p show ?thesis by auto
qed

text \<open>
  C20. The invariant of the clients. After any sequence of calls, right or wrong, from a successful start,
  the table keeps its layout, the bitmap of ready clients has no bit beyond the last row, and the number of
  ready clients is the number of its bits.
\<close>

theorem cl_reachable_inv:
  assumes "cl_reachable malloc s" "\<forall>k a. malloc k = Some a \<longrightarrow> aligned8 a"
  shows "cl_ok s"
  by (rule cl_reachable_cl_ok[OF assms])

theorem cl_reachable_inv_witness: "cl_ok clients2"
  by (rule cl_reachable_inv[OF clients2_reachable malloc0_aligned])

text \<open>
  C22. Registration takes the first free place. While some client number is free, registering without a
  given number succeeds with the lowest free one, which then is the only new client, with no thread
  working for it, and all other clients stay as they are.
\<close>

theorem register_lowest:
  assumes "cl_ok s" "r < rows (cl_stateTable s)" "r \<notin> registered s" "\<forall>q<r. q \<in> registered s"
  shows "\<exists>s'. ClRegisterClient i False s = Inr (int r, s') \<and> registered s' = insert r (registered s)
    \<and> cl_clientsCount s' = cl_clientsCount s + 1 \<and> current_counter s' r = 0 \<and> other_clients_same r s s' \<and> cl_ok s'"
  using register_free[OF assms] by blast

lemma clients0_free: "registered clients0 = {}" "rows (cl_stateTable clients0) = 50"
proof -
  note e = clients0_start
  have i: "ClInitialize raw_clients = (None, snd (ClInitialize raw_clients))" by code_simp
  have st: "setup_maxClientsCount setup50 < 2 ^ 31" "nat (setup_maxClientsCount setup50) = 50" by (simp_all add: setup50_def)
  note t = ClInitialize_table[OF i]
  have u: "0 < st_columnsCount (cl_stateTable (snd (ClInitialize raw_clients)))" "4 \<le> unat (st_rowSize (cl_stateTable (snd (ClInitialize raw_clients))))"
    using t by simp_all
  show "registered clients0 = {}" "rows (cl_stateTable clients0) = 50"
    using ClStartup_ok(2,4)[OF e malloc0_aligned st(1) t(1) u t(4)] st(2) by simp_all
qed

theorem register_lowest_witness: "\<exists>s'. ClRegisterClient 0 False clients0 = Inr (0, s') \<and> registered s' = {0}"
  using register_lowest[OF cl_reachable_cl_ok[OF clients0_reachable malloc0_aligned], of 0 0] clients0_free by auto

text \<open>
  C23. Registering and unregistering cancel out. A client number that is free can be registered and then
  unregistered at once; the set of clients, the number of clients and the counters of the other clients are
  what they were.
\<close>

theorem register_roundtrip:
  assumes ok: "cl_ok s" and r: "r < rows (cl_stateTable s)" "r \<notin> registered s" "r \<notin> ready_clients s"
  shows "\<exists>s1 s2. ClRegisterClient (int r) True s = Inr (int r, s1) \<and> ClUnregisterClient (int r) s1 = Inr s2
    \<and> registered s2 = registered s \<and> cl_clientsCount s2 = cl_clientsCount s \<and> other_clients_same r s s2 \<and> cl_ok s2"
proof -
  obtain s1 where s1: "ClRegisterClient (int r) True s = Inr (int r, s1)" "cl_ok s1" "registered s1 = insert r (registered s)"
    "cl_clientsCount s1 = cl_clientsCount s + 1" "current_counter s1 r = 0" "other_clients_same r s s1"
    using register_fixed[OF ok r(1,2)] by blast
  have "bitmap_ok s" using ok by (simp add: cl_ok_def)
  then have "r \<notin> ready_clients s1" using bitmap_ok_same(2)[OF _ s1(6)] r(3) by simp
  then obtain s2 where s2: "ClUnregisterClient (int r) s1 = Inr s2" "cl_ok s2" "registered s2 = registered s1 - {r}"
    "cl_clientsCount s2 = cl_clientsCount s1 - 1" "other_clients_same r s1 s2"
    using unregister_exact[OF s1(2), of r] s1(3,5) by auto
  then show ?thesis using s1 r(2) other_clients_trans[OF s1(6) s2(5)] by auto
qed

theorem register_roundtrip_witness:
  "\<exists>s1 s2. ClRegisterClient 40 True clients0 = Inr (40, s1) \<and> ClUnregisterClient 40 s1 = Inr s2 \<and> registered s2 = {}"
proof -
  have "ready_clients clients0 = {}"
  proof -
    have "\<forall>r\<in>set [0..<50]. \<not> ready clients0 r" by code_simp
    then show ?thesis by (auto simp: ready_clients_def clients0_free)
  qed
  then show ?thesis
    using register_roundtrip[OF cl_reachable_cl_ok[OF clients0_reachable malloc0_aligned], of 40] clients0_free by auto
qed

text \<open>
  C24. A client at work cannot be unregistered. While a thread has the client as its current client, or while
  the client is ready, unregistering it is refused with the error for that case.
\<close>

theorem unregister_guard:
  assumes "cl_ok s" "r \<in> registered s" "0 < current_counter s r \<or> r \<in> ready_clients s"
  shows "ClUnregisterClient (int r) s =
    Inl (if 0 < current_counter s r then WUERR_UNABLE_TO_UNREGISTER_CURRENT_CLIENT else WUERR_UNABLE_TO_UNREGISTER_READY_CLIENT)"
  using unregister_refused[OF assms(1,2)] assms(3) by auto

lemma clients2_ready: "40 \<in> registered clients2" "40 \<in> ready_clients clients2" "\<not> 0 < current_counter clients2 40"
proof -
  have "40 < rows (cl_stateTable clients2) \<and> \<not> vacant (cl_stateTable clients2) 40 \<and> ready clients2 40" by code_simp
  then show "40 \<in> registered clients2" "40 \<in> ready_clients clients2" by (simp_all add: registered_def ready_clients_def)
  show "\<not> 0 < current_counter clients2 40" by code_simp
qed

theorem unregister_guard_witness: "ClUnregisterClient 40 clients2 = Inl WUERR_UNABLE_TO_UNREGISTER_READY_CLIENT"
  using unregister_guard[OF cl_reachable_cl_ok[OF clients2_reachable malloc0_aligned], of 40] clients2_ready by simp

text \<open>
  C25. Enumeration. With a procedure that records the clients and goes on, the ready clients are given in
  ascending order, each once, and the state afterwards is the state before.
\<close>

theorem enumeration_exact:
  assumes "cl_ok s" "0 \<le> th_clientSetLockCount (cl_threadState s)" "th_clientSetLockCount (cl_threadState s) < INT_MAX"
  shows "\<exists>params'. ClEnumerateClients client_recorder params s = Inr (params', s)
    \<and> ec_userData params' = ec_userData params @ map int (sorted_list_of_set (ready_clients s))"
  by (rule enumerate_exact[OF assms])

theorem enumeration_exact_witness:
  "\<exists>params'. ClEnumerateClients client_recorder \<lparr>ec_clientsCount = 0, ec_alreadyEnumeratedCount = 0, ec_userData = []\<rparr> clients2 = Inr (params', clients2)
     \<and> ec_userData params' = map int (sorted_list_of_set (ready_clients clients2))"
proof -
  have l: "0 \<le> th_clientSetLockCount (cl_threadState clients2)" "th_clientSetLockCount (cl_threadState clients2) < INT_MAX" by code_simp+
  from enumeration_exact[OF cl_reachable_cl_ok[OF clients2_reachable malloc0_aligned] l,
      of "\<lparr>ec_clientsCount = 0, ec_alreadyEnumeratedCount = 0, ec_userData = []\<rparr>"] show ?thesis by simp
qed

section \<open>Where the code goes wrong\<close>

text \<open>
  C36. A client that was never registered is taken for a registered one. Because the shift in the row check
  binds tighter than the mask, only the rows whose number ends in less than five, counted modulo 32, are
  checked. Client 7 of an empty table can be marked ready, and unregistering it makes the number of clients
  negative.
\<close>

theorem vacant_client_accepted:
  "7 \<notin> registered clients0 \<and> (\<exists>s. ClMarkClientReady 7 clients0 = Inr s) \<and> (\<exists>s. ClUnregisterClient 7 clients0 = Inr s \<and> cl_clientsCount s = - 1)"
proof (intro conjI)
  show "7 \<notin> registered clients0" by (simp add: clients0_free)
  have "case ClMarkClientReady 7 clients0 of Inl e \<Rightarrow> False | Inr s \<Rightarrow> True" by code_simp
  then show "\<exists>s. ClMarkClientReady 7 clients0 = Inr s" by (auto split: sum.splits)
  have "case ClUnregisterClient 7 clients0 of Inl e \<Rightarrow> False | Inr s \<Rightarrow> cl_clientsCount s = - 1" by code_simp
  then show "\<exists>s. ClUnregisterClient 7 clients0 = Inr s \<and> cl_clientsCount s = - 1" by (auto split: sum.splits)
qed

text \<open>The table of fifty clients, all of them registered: the bits of its second word beyond row 49 are still set.\<close>

definition full_clients :: cl_state where
  "full_clients = clients0\<lparr>cl_stateTable := set_words ([0, 0xFFFC0000] @ replicate 102 0) (cl_stateTable clients0), cl_clientsCount := 50\<rparr>"

text \<open>
  C37. A full table is not reported as full. With more than 32 rows the search does not mask the last word
  of the bitmap, so that in a full table of fifty clients it returns row 50; the block of that row is not
  found and a null pointer is followed.
\<close>

theorem full_table_overrun:
  "registered full_clients = {..<50} \<and> rows (cl_stateTable full_clients) = 50
   \<and> (\<exists>t. OccupyStateTableFirstVacantRow (cl_stateTable full_clients) 0 INT_MAX = Inr (50, t))
   \<and> ClRegisterClient 0 False full_clients = Inl WU_ASSERTION"
proof (intro conjI)
  have r: "rows (cl_stateTable full_clients) = 50" "\<forall>r\<in>set [0..<50]. \<not> vacant (cl_stateTable full_clients) r" by code_simp+
  then show "registered full_clients = {..<50}" by (auto simp: registered_def)
  show "rows (cl_stateTable full_clients) = 50" by (rule r(1))
  have "case OccupyStateTableFirstVacantRow (cl_stateTable full_clients) 0 INT_MAX of Inl e \<Rightarrow> False | Inr (r, t) \<Rightarrow> r = 50" by code_simp
  then show "\<exists>t. OccupyStateTableFirstVacantRow (cl_stateTable full_clients) 0 INT_MAX = Inr (50, t)" by (auto split: sum.splits)
  show "ClRegisterClient 0 False full_clients = Inl WU_ASSERTION" by code_simp
qed




end
