(* ===== verification/NidLex.thy ===== *)
theory NidLex
  imports Prelude
begin

text \<open>
  The arithmetic of labels, \<^verbatim>\<open>kernel/tr/nid/lex.cpp\<close>: a label is a string of bytes that is read as a number
  in base 255, most significant byte first. Bytes are natural numbers; a store into an \<^verbatim>\<open>unsigned char\<close> is
  taken modulo 256. None of the functions keeps its operands' memory, so labels are values.
\<close>

section \<open>Constants and fractions\<close>

type_synonym t_prefix = "nat list"

datatype nid_error =
    SE1003            \<comment> \<open>bad fraction\<close>
  | SE2023            \<comment> \<open>label too long\<close>
  | AlgoError         \<comment> \<open>the \<^verbatim>\<open>SYSTEM_EXCEPTION\<close>s\<close>
  | BadRead           \<comment> \<open>a byte outside of the label is read\<close>

definition ALPHABET_SIZE :: nat where
  "ALPHABET_SIZE = 255"

definition MAX_LETTER :: nat where
  "MAX_LETTER = 254"

definition DEF_LETTER :: nat where
  "DEF_LETTER = 25"

definition byte :: "nat \<Rightarrow> nat" where
  "byte n = n mod 256"

record fnumber =
  getx :: int
  gety :: int

definition make_fnumber :: "int \<Rightarrow> int \<Rightarrow> nid_error + fnumber" where
  "make_fnumber x y = (if x > y \<or> x < 0 \<or> y \<le> 0 then Inl SE1003 else Inr \<lparr>getx = x, gety = y\<rparr>)"

definition setx :: "fnumber \<Rightarrow> int \<Rightarrow> nid_error + fnumber" where
  "setx f x = (if x < 0 \<or> x > gety f then Inl SE1003 else Inr (f\<lparr>getx := x\<rparr>))"

definition sety :: "fnumber \<Rightarrow> int \<Rightarrow> nid_error + fnumber" where
  "sety f y = (if y \<le> 0 \<or> getx f > y then Inl SE1003 else Inr (f\<lparr>gety := y\<rparr>))"

section \<open>Arithmetic\<close>

text \<open>The loop of the multiplication, last byte first; the result is the carry and the digits.\<close>

fun mult_digits :: "t_prefix \<Rightarrow> nat \<Rightarrow> nat \<times> t_prefix" where
  "mult_digits [] factor = (0, [])"
| "mult_digits (d # ds) factor =
     (case mult_digits ds factor of
        (carry, rs) \<Rightarrow> let tmp = d * factor + carry in (tmp div ALPHABET_SIZE, byte (tmp mod ALPHABET_SIZE) # rs))"

definition lex_multiply :: "t_prefix \<Rightarrow> nat \<Rightarrow> t_prefix" where
  "lex_multiply p factor =
     (if p = [] then [] else (case mult_digits p factor of (carry, r) \<Rightarrow> if carry \<noteq> 0 then byte carry # r else r))"

fun divide_digits :: "t_prefix \<Rightarrow> nat \<Rightarrow> nat \<Rightarrow> t_prefix" where
  "divide_digits [] divisor remainder = []"
| "divide_digits (d # ds) divisor remainder =
     (let tmp = d + ALPHABET_SIZE * remainder in byte (tmp div divisor) # divide_digits ds divisor (tmp mod divisor))"

definition lex_divide :: "t_prefix \<Rightarrow> nat \<Rightarrow> t_prefix" where
  "lex_divide p divisor = (if p = [] \<or> divisor = 0 then [] else divide_digits p divisor 0)"

text \<open>Addition of two labels of one length, last byte first, and of a carry to a label.\<close>

fun add_digits :: "t_prefix \<Rightarrow> t_prefix \<Rightarrow> nat \<times> t_prefix" where
  "add_digits (a # as) (b # bs) =
     (case add_digits as bs of
        (overflow, rs) \<Rightarrow> let tmp = a + b + overflow in (tmp div ALPHABET_SIZE, byte (tmp mod ALPHABET_SIZE) # rs))"
| "add_digits _ _ = (0, [])"

fun add_carry :: "t_prefix \<Rightarrow> nat \<Rightarrow> nat \<times> t_prefix" where
  "add_carry [] overflow = (overflow, [])"
| "add_carry (d # ds) overflow =
     (case add_carry ds overflow of
        (c, rs) \<Rightarrow> let tmp = d + c in (tmp div ALPHABET_SIZE, byte (tmp mod ALPHABET_SIZE) # rs))"

definition lex_sum :: "t_prefix \<Rightarrow> t_prefix \<Rightarrow> t_prefix" where
  "lex_sum p1 p2 =
     (let (long, short) = (if length p1 > length p2 then (p1, p2) else (p2, p1));
          size_diff = length long - length short
      in case add_digits (drop size_diff long) short of
           (overflow, r) \<Rightarrow>
             if overflow \<noteq> 0 then
               (case add_carry (take size_diff long) overflow of
                  (c, r') \<Rightarrow> if c \<noteq> 0 then byte c # r' @ r else r' @ r)
             else take size_diff long @ r)"

text \<open>Both labels are stuffed with ones at the end up to the longer length.\<close>

definition lex_allign :: "t_prefix \<Rightarrow> t_prefix \<Rightarrow> t_prefix \<times> t_prefix" where
  "lex_allign a b =
     (if length a < length b then (a @ replicate (length b - length a) 1, b)
      else if length a > length b then (a, b @ replicate (length a - length b) 1)
      else (a, b))"

fun subtract_digits :: "t_prefix \<Rightarrow> t_prefix \<Rightarrow> nat \<times> t_prefix" where
  "subtract_digits (big # bs) (small # ss) =
     (case subtract_digits bs ss of
        (carry, rs) \<Rightarrow>
          if big < small + carry then (1, byte (big + ALPHABET_SIZE - small - carry) # rs)
          else (0, byte (big - small - carry) # rs))"
| "subtract_digits _ _ = (0, [])"

definition lex_subtract :: "t_prefix \<Rightarrow> t_prefix \<Rightarrow> t_prefix" where
  "lex_subtract the_big the_small = (case lex_allign the_big the_small of (b, s) \<Rightarrow> snd (subtract_digits b s))"

section \<open>Comparison\<close>

fun lex_cmp :: "t_prefix \<Rightarrow> t_prefix \<Rightarrow> int" where
  "lex_cmp (a # as) (b # bs) = (if a \<noteq> b then (if a > b then 1 else -1) else lex_cmp as bs)"
| "lex_cmp [] [] = 0"
| "lex_cmp (a # as) [] = 1"
| "lex_cmp [] (b # bs) = -1"

text \<open>Every byte of the first label is compared with the byte of the second at its place.\<close>

definition lex_ispref :: "t_prefix \<Rightarrow> t_prefix \<Rightarrow> bool" where
  "lex_ispref p1 p2 \<longleftrightarrow> (\<forall>i<length p1. i < length p2 \<and> p1 ! i = p2 ! i)"

section \<open>New labels by arithmetic\<close>

definition lex_extend :: "t_prefix \<Rightarrow> fnumber \<Rightarrow> t_prefix" where
  "lex_extend pre p =
     (let tmp = (if getx p = 0 then 1 else (int (ALPHABET_SIZE - 2) * getx p) div gety p);
          tmp' = (if tmp \<le> 1 then 2 else tmp)
      in pre @ [byte (nat tmp')])"

definition lex_next :: "t_prefix \<Rightarrow> t_prefix \<Rightarrow> t_prefix" where
  "lex_next p0 b0 =
     (case lex_allign p0 b0 of
        (p, b) \<Rightarrow>
          let one = replicate (length p - 1) 0 @ [1];
              result = lex_sum one p
          in if length result \<noteq> length b \<or> lex_cmp b result \<le> 0 then lex_extend p \<lparr>getx = 0, gety = 1\<rparr> else result)"

definition lex_between :: "t_prefix \<Rightarrow> t_prefix \<Rightarrow> fnumber \<Rightarrow> nid_error + t_prefix" where
  "lex_between small0 big0 p =
     (case lex_allign small0 big0 of
        (the_small, the_big) \<Rightarrow>
          let tmp1 = lex_subtract the_big the_small;
              tmp2 = lex_multiply tmp1 (nat (getx p));
              tmp3 = lex_divide tmp2 (nat (gety p));
              result = lex_sum the_small tmp3;
              rc = lex_cmp result the_small
          in if rc = 0 then Inr (lex_extend result p) else if rc < 0 then Inl AlgoError else Inr result)"

definition lex_middle :: "t_prefix \<Rightarrow> t_prefix \<Rightarrow> nid_error + t_prefix" where
  "lex_middle small0 big0 =
     (case lex_allign small0 big0 of
        (the_small, the_big) \<Rightarrow>
          let result = lex_divide (lex_sum the_small the_big) 2;
              rc = lex_cmp result the_small
          in if rc = 0 then Inr (lex_extend result \<lparr>getx = 1, gety = 2\<rparr>) else if rc < 0 then Inl AlgoError else Inr result)"

definition lex_cut_to_size :: "t_prefix \<Rightarrow> nat \<Rightarrow> t_prefix" where
  "lex_cut_to_size p sz = (if length p \<le> sz then p else drop (length p - sz) p)"

definition nid_generate :: "t_prefix \<Rightarrow> t_prefix \<Rightarrow> fnumber \<Rightarrow> nid_error + t_prefix" where
  "nid_generate p1 p2 p =
     (if getx p = 0 then Inr (lex_next p1 p2)
      else if getx p = 1 \<and> gety p = 2 then lex_middle p1 p2
      else lex_between p1 p2 p)"

end
