(* ===== verification/NidScheme.thy ===== *)
theory NidScheme
  imports NidLex
begin

text \<open>
  The numbering scheme of nodes, \<^verbatim>\<open>kernel/tr/nid/numb_scheme.cpp\<close>. The label of a child is the label of its
  parent followed by more bytes, the first of which is not 255; siblings inserted between a node and its
  right neighbour may have the label of the left one followed by 255. The functions work on the labels as
  they are read from nodes; how a label is stored in a node descriptor is not modelled.
\<close>

section \<open>Comparison\<close>

definition NID_CONSISTENT :: "t_prefix \<Rightarrow> bool" where
  "NID_CONSISTENT a \<longleftrightarrow> last a \<noteq> ALPHABET_SIZE"

text \<open>Of two different nodes with labels \<open>p1\<close> and \<open>p2\<close>. Equal labels make the source read past both.\<close>

definition nid_cmp_effective :: "t_prefix \<Rightarrow> t_prefix \<Rightarrow> nid_error + int" where
  "nid_cmp_effective p1 p2 =
     (let n = min (length p1) (length p2);
          result = lex_cmp (take n p1) (take n p2)
      in if result \<noteq> 0 then Inr result
         else if length p1 > length p2 then Inr (if p1 ! length p2 = ALPHABET_SIZE then 1 else 2)
         else if length p1 < length p2 then Inr (if p2 ! length p1 = ALPHABET_SIZE then -1 else -2)
         else Inl BadRead)"

definition nid_cmp :: "t_prefix \<Rightarrow> t_prefix \<Rightarrow> int" where
  "nid_cmp p1 p2 = lex_cmp p1 p2"

definition nid_ancestor :: "t_prefix \<Rightarrow> t_prefix \<Rightarrow> bool" where
  "nid_ancestor p1 p2 \<longleftrightarrow> (if length p1 \<ge> length p2 then False else p2 ! length p1 \<noteq> ALPHABET_SIZE \<and> lex_ispref p1 p2)"

definition nid_descendant :: "t_prefix \<Rightarrow> t_prefix \<Rightarrow> bool" where
  "nid_descendant p1 p2 = nid_ancestor p2 p1"

section \<open>A label before\<close>

text \<open>
  The loop of \<^verbatim>\<open>decrementNID\<close>: the next position looked at is \<open>sz + k - 1\<close>, and the loop ends when that is
  \<^verbatim>\<open>size-1\<close>.
\<close>

primrec dec_search :: "t_prefix \<Rightarrow> nat \<Rightarrow> nat \<Rightarrow> t_prefix" where
  "dec_search lp sz 0 = lp[length lp - 1 := 0] @ [DEF_LETTER]"
| "dec_search lp sz (Suc k) =
     (let pos = sz + k
      in if lp ! pos > 0 then
           (if lp ! pos > 1 then take pos lp @ [lp ! pos - 1] else take pos lp @ [0, DEF_LETTER])
         else dec_search lp sz k)"

definition decrementNID :: "t_prefix \<Rightarrow> nat \<Rightarrow> nid_error + t_prefix" where
  "decrementNID lp sz =
     (if \<not> sz < length lp then Inl BadRead
      else let pos = length lp - 1
           in if lp ! pos \<noteq> 1 then Inr (lp[pos := byte (lp ! pos + 255)])
              else if length lp - sz > 1 then Inr (dec_search lp sz (length lp - 1 - sz))
              else Inr (lp[pos := 0] @ [DEF_LETTER]))"

section \<open>A label behind\<close>

text \<open>The loop of \<^verbatim>\<open>incrementNID_between\<close> from position \<open>sz + k\<close>; nothing when it runs through.\<close>

primrec between_carry :: "t_prefix \<Rightarrow> nat \<Rightarrow> nat \<Rightarrow> t_prefix \<times> bool" where
  "between_carry lp sz 0 = (lp, False)"
| "between_carry lp sz (Suc k) =
     (let lp' = lp[sz + Suc k := 1]
      in if lp' ! (sz + k) \<noteq> ALPHABET_SIZE then (lp'[sz + k := byte (lp' ! (sz + k) + 1)], True)
         else between_carry lp' sz k)"

definition fill :: "nat \<Rightarrow> t_prefix \<Rightarrow> t_prefix" where
  "fill from lp = take from lp @ replicate (length lp - from) ALPHABET_SIZE"

definition incrementNID_between :: "t_prefix \<Rightarrow> nat \<Rightarrow> nid_error + t_prefix" where
  "incrementNID_between lp0 sz =
     (if \<not> sz < length lp0 then Inl BadRead
      else let pos = length lp0 - 1; lp = lp0[pos := byte (lp0 ! pos + 1)]
           in if lp ! pos \<noteq> ALPHABET_SIZE then Inr lp
              else (case between_carry lp sz (pos - sz) of
                      (lp', returned) \<Rightarrow> if returned then Inr lp' else Inr (fill sz lp' @ [DEF_LETTER, 1])))"

text \<open>The loop of \<^verbatim>\<open>incrementNID\<close>.\<close>

primrec inc_carry :: "t_prefix \<Rightarrow> nat \<Rightarrow> nat \<Rightarrow> t_prefix" where
  "inc_carry lp sz 0 = lp"
| "inc_carry lp sz (Suc k) =
     (let lp' = lp[sz + Suc k := 1]
      in if lp' ! (sz + k) \<noteq> ALPHABET_SIZE then lp'[sz + k := byte (lp' ! (sz + k) + 1)]
         else inc_carry lp' sz k)"

definition incrementNID :: "t_prefix \<Rightarrow> nat \<Rightarrow> nid_error + t_prefix" where
  "incrementNID lp0 sz =
     (if \<not> sz < length lp0 then Inl BadRead
      else let pos = length lp0 - 1; lp = lp0[pos := byte (lp0 ! pos + 1)]
           in if lp ! sz = ALPHABET_SIZE then
                (if length lp \<noteq> sz + 1 then Inl AlgoError else Inr (lp[sz := MAX_LETTER] @ [ALPHABET_SIZE, 1]))
              else if lp ! pos = ALPHABET_SIZE then
                (let lp' = inc_carry lp sz (pos - sz)
                 in if lp' ! sz = ALPHABET_SIZE then Inr (fill (sz + 1) (lp'[sz := MAX_LETTER]) @ [DEF_LETTER, 1]) else Inr lp')
              else Inr lp)"

section \<open>A label between\<close>

text \<open>
  The loop that looks for a difference from position \<open>pos\<close> on: the position with a gap, if there is one, and
  \<^verbatim>\<open>difsmall\<close>.
\<close>

function find_gap :: "t_prefix \<Rightarrow> t_prefix \<Rightarrow> nat \<Rightarrow> nat \<Rightarrow> nat option \<times> nat" where
  "find_gap lp rp pos difsmall =
     (if pos < length lp \<and> pos < length rp then
        (if lp ! pos < rp ! pos then
           (if lp ! pos + 1 < rp ! pos then (Some pos, difsmall)
            else find_gap lp rp (pos + 1) (if difsmall = 0 then pos else difsmall))
         else find_gap lp rp (pos + 1) difsmall)
      else (None, difsmall))"
  by pat_completeness auto
termination by (relation "measure (\<lambda>(lp, rp, pos, d). length lp - pos)") auto

declare find_gap.simps [simp del]

definition betweenNID :: "t_prefix \<Rightarrow> t_prefix \<Rightarrow> nid_error + t_prefix" where
  "betweenNID lp rp =
     (case find_gap lp rp 0 0 of
        (Some pos, difsmall) \<Rightarrow> Inr (take pos lp @ [byte (lp ! pos + 1)])
      | (None, difsmall) \<Rightarrow>
          if difsmall \<noteq> 0 then
            (if difsmall < length lp - 1 then incrementNID_between lp (difsmall + 1)
             else Inr (lp @ [ALPHABET_SIZE, DEF_LETTER]))
          else decrementNID rp (length lp + 1))"

section \<open>Labels for new nodes\<close>

record nid_hint_t =
  hint_size :: nat
  hint_increment :: nat

text \<open>The carry loop of \<^verbatim>\<open>nid_create_right\<close> when there is a hint; the position last changed is \<open>pos\<close>.\<close>

fun hint_carry :: "t_prefix \<Rightarrow> int \<Rightarrow> nat \<Rightarrow> nid_error + t_prefix" where
  "hint_carry lp stop 0 = (if stop = 0 then Inl SE2023 else Inl BadRead)"
| "hint_carry lp stop (Suc p) =
     (if int (Suc p) = stop then Inl SE2023
      else let lp' = lp[p := byte (lp ! p + 1)]
           in if lp' ! p \<noteq> ALPHABET_SIZE then Inr lp' else hint_carry (lp'[p := 1]) stop p)"

definition nid_create_right :: "nid_hint_t option \<Rightarrow> t_prefix \<Rightarrow> t_prefix \<Rightarrow> nid_error + t_prefix" where
  "nid_create_right sizehnt left parent =
     (case sizehnt of
        Some h \<Rightarrow>
          let pos = length left - 1
          in if left = [] then Inl BadRead
             else if left ! pos + hint_increment h < ALPHABET_SIZE then Inr (left[pos := byte (left ! pos + hint_increment h)])
             else hint_carry (left[pos := byte (hint_increment h + left ! pos - MAX_LETTER)]) (int (length left) - int (hint_size h)) pos
      | None \<Rightarrow> incrementNID left (length parent))"

definition nid_create_left :: "t_prefix \<Rightarrow> t_prefix \<Rightarrow> nid_error + t_prefix" where
  "nid_create_left right parent = decrementNID right (length parent)"

definition nid_create_between :: "t_prefix \<Rightarrow> t_prefix \<Rightarrow> nid_error + t_prefix" where
  "nid_create_between left right = betweenNID left right"

definition nid_create_child :: "nid_hint_t option \<Rightarrow> t_prefix \<Rightarrow> t_prefix" where
  "nid_create_child sizehnt parent =
     (case sizehnt of
        Some h \<Rightarrow> parent @ replicate (hint_size h - 1) 1 @ [byte (1 + hint_size h)]
      | None \<Rightarrow> parent @ [1])"

section \<open>Labels of documents\<close>

text \<open>
  The loop that looks for a digit to increment, two bytes at a time; the position looked at is one less than
  the argument, and there is none when the argument is zero.
\<close>

function root_search :: "t_prefix \<Rightarrow> nat \<Rightarrow> t_prefix option" where
  "root_search l 0 = None"
| "root_search l (Suc pos) =
     (if l ! pos < MAX_LETTER
      then Some (map (\<lambda>(i, d). if i > pos \<and> even (i - pos) then 1 else if i = pos then d + 1 else d) (zip [0..<length l] l))
      else root_search l (pos - 1))"
  by pat_completeness auto
termination by (relation "measure snd") auto

definition updateEP_nid :: "t_prefix \<Rightarrow> t_prefix" where
  "updateEP_nid l =
     (if length l = 255 then l
      else if l = [] then [1]
      else if last l \<noteq> MAX_LETTER then l[length l - 1 := byte (last l + 1)]
      else (case root_search l (length l - 2) of
              Some l' \<Rightarrow> l'
            | None \<Rightarrow> map (\<lambda>i. if even i then 1 else ALPHABET_SIZE) [0..<length l + 2]))"

text \<open>The label of a new document node and the last label given to one; nodes that are not persistent share one.\<close>

definition nid_create_root :: "bool \<Rightarrow> t_prefix \<Rightarrow> t_prefix \<times> t_prefix" where
  "nid_create_root persistent last_nid =
     (if persistent then (updateEP_nid last_nid, updateEP_nid last_nid) else ([0], last_nid))"

end
