(* ===== verification/NidOrder.thy ===== *)
theory NidOrder
  imports NidScheme
begin

text \<open>
  The order of labels: \<^verbatim>\<open>lex_cmp\<close> is the lexicographic order of byte strings, \<^verbatim>\<open>nid_ancestor\<close> a proper prefix that is not
  continued with 255, and \<open>apart\<close> the order of nodes neither of which is the other's ancestor. The labels of the
  children of a node, and the label \<^verbatim>\<open>decrementNID\<close> finds before a child's.
\<close>

section \<open>Notions\<close>

text \<open>Bytes, and two labels of which the first comes before the second and is not its ancestor.\<close>

definition bytes :: "t_prefix \<Rightarrow> bool" where
  "bytes l \<longleftrightarrow> (\<forall>b\<in>set l. b \<le> 255)"

definition apart :: "t_prefix \<Rightarrow> t_prefix \<Rightarrow> bool" where
  "apart a b \<longleftrightarrow> ord_class.lexordp a b \<and> \<not> nid_ancestor a b"

text \<open>Either the first smaller byte decides, or the second label continues the first with 255.\<close>

definition byte_less :: "t_prefix \<Rightarrow> t_prefix \<Rightarrow> bool" where
  "byte_less a b \<longleftrightarrow> (\<exists>u x y v w. a = u @ x # v \<and> b = u @ y # w \<and> x < y)"

text \<open>The labels of the children of the node with label \<open>p\<close>.\<close>

definition child :: "t_prefix \<Rightarrow> t_prefix \<Rightarrow> bool" where
  "child p l \<longleftrightarrow> bytes l \<and> (\<exists>zs. l = p @ zs \<and> zs \<noteq> [] \<and> hd zs \<noteq> 255 \<and> last zs \<noteq> 0 \<and> last zs \<noteq> 255)"

text \<open>A label below, and one above, another in one of the bytes behind the first \<open>n\<close>.\<close>

definition below_at :: "nat \<Rightarrow> t_prefix \<Rightarrow> t_prefix \<Rightarrow> bool" where
  "below_at n r l \<longleftrightarrow> bytes r \<and> last r \<noteq> 0 \<and> last r \<noteq> 255 \<and> (\<exists>u x y v w. r = u @ x # v \<and> l = u @ y # w \<and> x < y \<and> n \<le> length u)"

definition above_at :: "nat \<Rightarrow> t_prefix \<Rightarrow> t_prefix \<Rightarrow> bool" where
  "above_at n r l \<longleftrightarrow> bytes r \<and> last r \<noteq> 0 \<and> last r \<noteq> 255 \<and> (\<exists>u x y v w. l = u @ x # v \<and> r = u @ y # w \<and> x < y \<and> n \<le> length u)"

section \<open>The order of labels\<close>

lemma lex_cmp_exact: "lex_cmp a b = (if ord_class.lexordp a b then -1 else if a = b then 0 else 1)"
  by (induction a b rule: lex_cmp.induct) auto

lemma lex_ispref_iff: "lex_ispref p1 p2 \<longleftrightarrow> (\<exists>zs. p2 = p1 @ zs)"
proof
  assume l: "lex_ispref p1 p2"
  have "length p1 \<le> length p2"
  proof (cases p1)
    case (Cons a as)
    with l have "length p1 - 1 < length p2" unfolding lex_ispref_def by (metis diff_less length_greater_0_conv list.distinct(1) zero_less_one)
    then show ?thesis by simp
  qed simp
  moreover have "take (length p1) p2 = p1"
    by (rule nth_equalityI) (use l calculation in \<open>auto simp: lex_ispref_def\<close>)
  ultimately show "\<exists>zs. p2 = p1 @ zs" by (metis append_take_drop_id)
qed (auto simp: lex_ispref_def nth_append)

lemma nid_ancestor_iff: "nid_ancestor a b \<longleftrightarrow> (\<exists>c cs. b = a @ c # cs \<and> c \<noteq> 255)"
proof
  assume "nid_ancestor a b"
  then obtain zs where z: "b = a @ zs" "length a < length b" "b ! length a \<noteq> 255"
    by (auto simp: nid_ancestor_def lex_ispref_iff ALPHABET_SIZE_def split: if_splits)
  then show "\<exists>c cs. b = a @ c # cs \<and> c \<noteq> 255" by (cases zs) auto
qed (auto simp: nid_ancestor_def lex_ispref_iff ALPHABET_SIZE_def)

lemma nid_cmp_effective_exact:
  assumes "p1 \<noteq> p2"
  shows "nid_cmp_effective p1 p2 = Inr (if nid_ancestor p1 p2 then -2 else if nid_ancestor p2 p1 then 2 else lex_cmp p1 p2)"
  using assms
proof (induction p1 p2 rule: lex_cmp.induct)
  case (1 a as b bs)
  show ?case
  proof (cases "a = b")
    case True
    have "nid_cmp_effective (a # as) (a # bs) = nid_cmp_effective as bs" by (simp add: nid_cmp_effective_def Let_def)
    moreover have "nid_ancestor (a # as) (a # bs) = nid_ancestor as bs" for as bs by (auto simp: nid_ancestor_iff)
    ultimately show ?thesis using True 1 by simp
  next
    case False
    then show ?thesis by (auto simp: nid_cmp_effective_def Let_def nid_ancestor_iff)
  qed
qed (auto simp: nid_cmp_effective_def Let_def nid_ancestor_iff ALPHABET_SIZE_def)

lemma lexordp_split: "ord_class.lexordp a b \<longleftrightarrow> byte_less a b \<or> (\<exists>c cs. b = a @ c # cs)"
proof
  assume "ord_class.lexordp a b"
  then show "byte_less a b \<or> (\<exists>c cs. b = a @ c # cs)"
  proof (induction rule: ord_class.lexordp.induct)
    case (Nil y ys)
    then show ?case by simp
  next
    case (Cons x y xs ys)
    then show ?case unfolding byte_less_def by (intro disjI1) (metis append_Nil)
  next
    case (Cons_eq x y xs ys)
    then have "x = y" by simp
    with Cons_eq show ?case unfolding byte_less_def by (metis append_Cons)
  qed
qed (auto simp: byte_less_def lexordp_append_leftI lexordp_append_rightI)

lemma byte_less_apart: "byte_less a b \<Longrightarrow> apart a b \<and> \<not> nid_ancestor b a"
  unfolding apart_def lexordp_split by (auto simp: byte_less_def nid_ancestor_iff append_eq_append_conv2 append_eq_Cons_conv)

lemma apart_cases: "apart a b \<longleftrightarrow> byte_less a b \<or> (\<exists>cs. b = a @ 255 # cs)"
  using byte_less_apart unfolding apart_def lexordp_split by (auto simp: nid_ancestor_iff)

text \<open>A label behind one that is apart from a node is not below the node.\<close>

lemma ancestor_gap:
  assumes "apart a b" "ord_class.lexordp b c" "bytes c"
  shows "\<not> nid_ancestor a c"
proof
  assume "nid_ancestor a c"
  then obtain x xs where c: "c = a @ x # xs" "x \<noteq> 255" by (auto simp: nid_ancestor_iff)
  have x: "x < 255" using assms(3) c by (auto simp: bytes_def order_less_le)
  have "byte_less c b" using assms(1) unfolding apart_cases
  proof (elim disjE exE)
    assume "byte_less a b"
    then obtain u p q v w where "a = u @ p # v" "b = u @ q # w" "p < q" by (auto simp: byte_less_def)
    then show ?thesis using c by (auto simp: byte_less_def)
  next
    fix cs assume "b = a @ 255 # cs"
    then show ?thesis using c x by (auto simp: byte_less_def)
  qed
  then have "ord_class.lexordp c b" by (simp add: lexordp_split)
  then show False using lexordp_antisym[OF assms(2)] by blast
qed

lemma apart_trans:
  assumes "apart a b" "apart b c" "bytes c"
  shows "apart a c"
  using ancestor_gap[OF assms(1) _ assms(3)] lexordp_trans assms(1,2) unfolding apart_def by blast

lemma byte_less_append: "byte_less a b \<Longrightarrow> byte_less (a @ c) (b @ d)"
  unfolding byte_less_def by fastforce

lemma ancestor_append: "b = a \<or> nid_ancestor a b \<Longrightarrow> \<exists>cs. b = a @ cs"
  by (auto simp: nid_ancestor_iff)

text \<open>Descendants of two nodes that are apart are apart the same way.\<close>

lemma apart_below:
  assumes "apart a b" "a' = a \<or> nid_ancestor a a'" "b' = b \<or> nid_ancestor b b'" "bytes a'"
  shows "apart a' b'"
proof -
  have bl: "byte_less a' b' \<or> (a' = a \<and> (\<exists>cs. b' = a @ 255 # cs))"
    using assms(1) unfolding apart_cases
  proof (elim disjE exE)
    assume "byte_less a b"
    then show ?thesis using ancestor_append[OF assms(2)] ancestor_append[OF assms(3)] byte_less_append by blast
  next
    fix cs assume b: "b = a @ 255 # cs"
    show ?thesis
    proof (cases "a' = a")
      case True
      then show ?thesis using b assms(3) by (auto simp: nid_ancestor_iff)
    next
      case False
      then obtain x xs where "a' = a @ x # xs" "x \<noteq> 255" using assms(2) by (auto simp: nid_ancestor_iff)
      moreover from this assms(4) have "x < 255" by (auto simp: bytes_def order_less_le)
      ultimately show ?thesis using b assms(3) by (auto simp: byte_less_def nid_ancestor_iff)
    qed
  qed
  then show ?thesis by (auto simp: apart_cases)
qed

section \<open>Labels of children\<close>

lemma child_ancestor: "child p l \<Longrightarrow> nid_ancestor p l"
  by (auto simp: child_def nid_ancestor_iff neq_Nil_conv)

text \<open>A label that agrees with a child's up to some place behind the parent and differs there.\<close>

lemma child_differs:
  assumes c: "child p l" and l: "l = u @ y # w" and r: "r = u @ x # v" and u: "length p \<le> length u" and b: "bytes r"
    and e: "last r \<noteq> 0" "last r \<noteq> 255" and x: "length u = length p \<longrightarrow> x \<noteq> 255"
  shows "child p r"
proof -
  obtain zs where zs: "l = p @ zs" "zs \<noteq> []" "hd zs \<noteq> 255" using c by (auto simp: child_def)
  have "p @ drop (length p) u = u" using l zs(1) u by (metis append_eq_append_conv_if append_take_drop_id)
  then have r': "r = p @ drop (length p) u @ x # v" using r by simp
  have "zs = drop (length p) u @ y # w" using l zs(1) \<open>p @ drop (length p) u = u\<close> by (metis append_assoc same_append_eq)
  then have "hd (drop (length p) u @ x # v) \<noteq> 255" using x zs(3) u by (cases "drop (length p) u") auto
  then show ?thesis using r' b e unfolding child_def by (auto intro!: exI[of _ "drop (length p) u @ x # v"])
qed

lemma child_last: "child p l \<Longrightarrow> l \<noteq> [] \<and> last l \<noteq> 0 \<and> last l \<noteq> 255 \<and> last l \<le> 255 \<and> length p < length l \<and> l ! length p \<noteq> 255"
  by (auto simp: child_def bytes_def nth_append hd_conv_nth)

lemma bytes_simps [simp]: "bytes []" "bytes (x # xs) \<longleftrightarrow> x \<le> 255 \<and> bytes xs" "bytes (xs @ ys) \<longleftrightarrow> bytes xs \<and> bytes ys"
  by (auto simp: bytes_def)

lemma bytes_take [simp]: "bytes l \<Longrightarrow> bytes (take n l)"
  by (auto simp: bytes_def dest: in_set_takeD)

lemma bytes_nth: "bytes l \<Longrightarrow> i < length l \<Longrightarrow> l ! i \<le> 255"
  by (simp add: bytes_def)

text \<open>Where a list is cut at a position.\<close>

lemma cut: "i < length l \<Longrightarrow> l = take i l @ l ! i # drop (Suc i) l"
  by (simp add: id_take_nth_drop)

section \<open>To the left\<close>

lemma below_at_cut:
  assumes "bytes l" "i < length l" "n \<le> i" "x < l ! i" "bytes v" "v = [] \<longrightarrow> x \<noteq> 0" "v \<noteq> [] \<longrightarrow> last v \<noteq> 0 \<and> last v \<noteq> 255"
  shows "below_at n (take i l @ x # v) l"
proof -
  have "x \<le> 255" "x \<noteq> 255" using assms(4) bytes_nth[OF assms(1,2)] by auto
  then have "bytes (take i l @ x # v)" "last (take i l @ x # v) \<noteq> 0" "last (take i l @ x # v) \<noteq> 255" using assms by auto
  moreover have "n \<le> length (take i l)" using assms(2,3) by simp
  ultimately show ?thesis using cut[OF assms(2)] assms(4) unfolding below_at_def by blast
qed

lemma dec_search_below:
  assumes "bytes l" "sz + k < length l" "\<forall>i. sz + k \<le> i \<longrightarrow> i < length l - 1 \<longrightarrow> l ! i = 0" "l ! (length l - 1) = 1"
  shows "below_at sz (dec_search l sz k) l"
  using assms(2,3)
proof (induction k)
  case 0
  have "l[length l - 1 := 0] @ [DEF_LETTER] = take (length l - 1) l @ 0 # [25]"
    using 0 by (simp add: DEF_LETTER_def list_update_append take_Suc_conv_app_nth upd_conv_take_nth_drop)
  then show ?case using below_at_cut[OF assms(1), of "length l - 1" sz 0 "[25]"] 0 assms(4) by simp
next
  case (Suc k)
  have n: "l ! (sz + k) \<le> 255" using assms(1) Suc.prems(1) by (intro bytes_nth) auto
  consider (big) "l ! (sz + k) > 1" | (one) "l ! (sz + k) = 1" | (zero) "l ! (sz + k) = 0" by linarith
  then show ?case
  proof cases
    case big
    then show ?thesis using below_at_cut[OF assms(1), of "sz + k" sz "l ! (sz + k) - 1" "[]"] Suc.prems(1) n by (simp add: Let_def)
  next
    case one
    then show ?thesis using below_at_cut[OF assms(1), of "sz + k" sz 0 "[25]"] Suc.prems(1) by (simp add: Let_def DEF_LETTER_def)
  next
    case zero
    have "\<forall>i. sz + k \<le> i \<longrightarrow> i < length l - 1 \<longrightarrow> l ! i = 0" using Suc.prems(2) zero by (metis add_Suc_right le_antisym not_less_eq_eq)
    with Suc.IH Suc.prems(1) zero show ?thesis by (simp add: Let_def)
  qed
qed

lemma decrementNID_below:
  assumes b: "bytes l" and n: "sz < length l" and e: "last l \<noteq> 0" "last l \<noteq> 255"
  shows "\<exists>r. decrementNID l sz = Inr r \<and> below_at sz r l"
proof -
  let ?p = "length l - 1"
  have l: "last l = l ! ?p" "l ! ?p \<le> 255" using n b bytes_nth[OF b, of ?p] by (cases l; simp add: last_conv_nth)+
  have up: "l[?p := x] = take ?p l @ [x]" for x using n by (simp add: upd_conv_take_nth_drop)
  show ?thesis
  proof (cases "l ! ?p = 1")
    case False
    then have "byte (l ! ?p + 255) = l ! ?p - 1" using l e by (simp add: byte_def mod_if)
    then have "decrementNID l sz = Inr (take ?p l @ (l ! ?p - 1) # [])" using n False up by (simp add: decrementNID_def Let_def)
    then show ?thesis using below_at_cut[OF b, of ?p sz "l ! ?p - 1" "[]"] n l e False by auto
  next
    case True
    show ?thesis
    proof (cases "length l - sz > 1")
      case True
      then show ?thesis using \<open>l ! ?p = 1\<close> n dec_search_below[OF b, of sz "?p - sz"] by (auto simp: decrementNID_def Let_def)
    next
      case False
      then have "decrementNID l sz = Inr (take ?p l @ 0 # [25])" using \<open>l ! ?p = 1\<close> n up by (simp add: decrementNID_def Let_def DEF_LETTER_def)
      then show ?thesis using below_at_cut[OF b, of ?p sz 0 "[25]"] n True by auto
    qed
  qed
qed

lemma create_left:
  assumes "child p l"
  shows "\<exists>r. nid_create_left l p = Inr r \<and> child p r \<and> apart r l"
proof -
  have c: "bytes l" "length p < length l" "last l \<noteq> 0" "last l \<noteq> 255" using child_last[OF assms] assms by (auto simp: child_def)
  obtain r where r: "decrementNID l (length p) = Inr r" "below_at (length p) r l" using decrementNID_below[OF c] by blast
  then obtain u x y v w where w: "r = u @ x # v" "l = u @ y # w" "x < y" "length p \<le> length u" "bytes r" "last r \<noteq> 0" "last r \<noteq> 255"
    by (auto simp: below_at_def)
  have "y \<le> 255" using c(1) w(2) by simp
  then have "child p r" using w by (intro child_differs[OF assms w(2,1,4)]) auto
  moreover have "apart r l" using w by (auto simp: apart_cases byte_less_def)
  ultimately show ?thesis using r(1) by (simp add: nid_create_left_def)
qed

end
