(* ===== verification/NidCreate.thy ===== *)
theory NidCreate
  imports NidOrder
begin

text \<open>
  The labels \<^verbatim>\<open>incrementNID\<close>, \<^verbatim>\<open>incrementNID_between\<close> and \<^verbatim>\<open>betweenNID\<close> find: what the carry loops do, and that the new
  label is a child of the same node and stands where it should.
\<close>

section \<open>To the right\<close>

text \<open>What the carry loops do to a label: they stop at the last byte that is not 255, or run through.\<close>

lemma cut2: "Suc i < length l \<Longrightarrow> \<exists>u a b w. l = u @ a # b # w \<and> length u = i"
  by (intro exI[of _ "take i l"] exI[of _ "l ! i"] exI[of _ "l ! Suc i"] exI[of _ "drop (Suc (Suc i)) l"]) (simp add: Cons_nth_drop_Suc)

lemma take_replicate: "sz + k \<le> length l \<Longrightarrow> \<forall>i<k. l ! (sz + i) = c \<Longrightarrow> take (sz + k) l = take sz l @ replicate k c"
  by (induction k) (simp_all add: take_Suc_conv_app_nth flip: replicate_append_same)

lemma between_carry_spec:
  assumes "sz + k < length lp"
  shows "(\<forall>i<k. lp ! (sz + i) = 255) \<and> \<not> snd (between_carry lp sz k) \<and> take sz (fst (between_carry lp sz k)) = take sz lp
           \<and> length (fst (between_carry lp sz k)) = length lp
         \<or> (\<exists>j<k. lp ! (sz + j) \<noteq> 255 \<and> (\<forall>i. j < i \<longrightarrow> i < k \<longrightarrow> lp ! (sz + i) = 255)
              \<and> between_carry lp sz k = (take (sz + j) lp @ byte (lp ! (sz + j) + 1) # replicate (k - j) 1 @ drop (Suc (sz + k)) lp, True))"
  using assms
proof (induction k arbitrary: lp)
  case 0
  then show ?case by simp
next
  case (Suc k)
  let ?l = "lp[sz + Suc k := 1]"
  have n: "?l ! (sz + i) = lp ! (sz + i)" if "i \<le> k" for i using that by simp
  obtain U a b W where l: "lp = U @ a # b # W" "length U = sz + k" using cut2[of "sz + k" lp] Suc.prems by auto
  show ?case
  proof (cases "lp ! (sz + k) = 255")
    case False
    have "lp[sz + Suc k := 1, sz + k := x] = take (sz + k) lp @ x # 1 # drop (Suc (sz + Suc k)) lp" for x
      by (simp add: l(1) list_update_append flip: l(2))
    then have "between_carry lp sz (Suc k) = (take (sz + k) lp @ byte (lp ! (sz + k) + 1) # replicate (Suc k - k) 1 @ drop (Suc (sz + Suc k)) lp, True)"
      using False by (simp add: Let_def ALPHABET_SIZE_def)
    then show ?thesis using False by (intro disjI2 exI[of _ k]) simp
  next
    case True
    have b: "between_carry lp sz (Suc k) = between_carry ?l sz k" using True by (simp add: Let_def ALPHABET_SIZE_def)
    have d: "drop (Suc (sz + k)) ?l = 1 # drop (Suc (sz + Suc k)) lp" by (simp add: l(1) list_update_append flip: l(2))
    have r: "replicate (k - j) (Suc 0) @ Suc 0 # xs = replicate (Suc k - j) (Suc 0) @ xs" if "j < k" for j xs
      using that by (simp add: Suc_diff_le replicate_app_Cons_same)
    have IH: "sz + k < length ?l" using Suc.prems by simp
    from Suc.IH[OF IH, unfolded d, folded b] show ?thesis
    proof (elim disjE exE conjE)
      fix j assume j: "j < k" "?l ! (sz + j) \<noteq> 255" "\<forall>i. j < i \<longrightarrow> i < k \<longrightarrow> ?l ! (sz + i) = 255"
        "between_carry lp sz (Suc k) = (take (sz + j) ?l @ byte (?l ! (sz + j) + 1) # replicate (k - j) 1 @ 1 # drop (Suc (sz + Suc k)) lp, True)"
      have "take (sz + j) ?l = take (sz + j) lp" using j(1) by simp
      moreover have "lp ! (sz + i) = 255" if "j < i" "i < Suc k" for i using that j(3) True n[of i] by (cases "i = k") auto
      ultimately show ?thesis using j(1,2,4) n[of j] r[OF j(1)] by (intro disjI2 exI[of _ j]) (simp del: between_carry.simps)
    qed (use n True in \<open>auto simp: less_Suc_eq simp del: between_carry.simps\<close>)
  qed
qed

lemma inc_carry_eq: "inc_carry lp sz k = fst (between_carry lp sz k)"
  by (induction k arbitrary: lp) (auto simp: Let_def)

lemma above_atI:
  assumes "bytes l" "i < length l" "n \<le> i" "l ! i < x" "x \<le> 255" "bytes v" "v = [] \<longrightarrow> x \<noteq> 255" "v \<noteq> [] \<longrightarrow> last v \<noteq> 0 \<and> last v \<noteq> 255"
  shows "above_at n (take i l @ x # v) l"
proof -
  have "bytes (take i l @ x # v)" "last (take i l @ x # v) \<noteq> 0" "last (take i l @ x # v) \<noteq> 255" using assms by auto
  moreover have "n \<le> length (take i l)" using assms(2,3) by simp
  ultimately show ?thesis using cut[OF assms(2)] assms(4) unfolding above_at_def by blast
qed

text \<open>The label after its last byte has become 255 and the carry has stopped at \<open>j\<close>.\<close>

lemma carry_stops:
  assumes b: "bytes l" and n: "sz < length l" and j: "j < length l - 1 - sz" and ne: "l ! (sz + j) \<noteq> 255"
  shows "above_at sz (take (sz + j) (l[length l - 1 := 255]) @ byte (l[length l - 1 := 255] ! (sz + j) + 1) # replicate (length l - 1 - sz - j) 1 @ drop (Suc (sz + (length l - 1 - sz))) (l[length l - 1 := 255])) l"
proof -
  let ?r = "replicate (length l - 1 - sz - j) (1::nat)"
  have x: "l ! (sz + j) < 255" using bytes_nth[OF b, of "sz + j"] ne j by linarith
  have "above_at sz (take (sz + j) l @ Suc (l ! (sz + j)) # ?r) l" using x j n
    by (intro above_atI[OF b]) (auto simp: bytes_def)
  moreover have "byte (l ! (sz + j) + 1) = Suc (l ! (sz + j))" using x by (simp add: byte_def)
  ultimately show ?thesis using j n by simp
qed

lemma incrementNID_between_above:
  assumes b: "bytes l" and n: "sz < length l" and e: "last l \<noteq> 0" "last l \<noteq> 255"
  shows "\<exists>r. incrementNID_between l sz = Inr r \<and> above_at sz r l"
proof -
  let ?p = "length l - 1"
  have l: "last l = l ! ?p" using n by (cases l; simp add: last_conv_nth)
  have le: "l ! ?p < 255" using bytes_nth[OF b, of ?p] n e l by linarith
  have up: "l[?p := x] = take ?p l @ [x]" for x using n by (simp add: upd_conv_take_nth_drop)
  have y: "byte (l ! ?p + 1) = l ! ?p + 1" using le by (simp add: byte_def)
  show ?thesis
  proof (cases "l ! ?p + 1 = 255")
    case False
    then have "incrementNID_between l sz = Inr (l[?p := l ! ?p + 1])" using n y by (simp add: incrementNID_between_def Let_def ALPHABET_SIZE_def)
    then have "incrementNID_between l sz = Inr (take ?p l @ (l ! ?p + 1) # [])" unfolding up .
    moreover have "above_at sz (take ?p l @ (l ! ?p + 1) # []) l" using n le False by (intro above_atI[OF b]) auto
    ultimately show ?thesis by blast
  next
    case True
    let ?l = "l[?p := 255]" let ?k = "?p - sz"
    have i: "incrementNID_between l sz = (case between_carry ?l sz ?k of (lp', returned) \<Rightarrow> if returned then Inr lp' else Inr (fill sz lp' @ [DEF_LETTER, 1]))"
      using n y True by (simp add: incrementNID_between_def Let_def ALPHABET_SIZE_def)
    have sp: "sz + ?k < length ?l" and k: "sz + ?k = ?p" using n by simp_all
    from between_carry_spec[OF sp] show ?thesis
    proof (elim disjE exE conjE)
      assume a: "\<forall>i<?k. ?l ! (sz + i) = 255" "\<not> snd (between_carry ?l sz ?k)" "take sz (fst (between_carry ?l sz ?k)) = take sz ?l"
        "length (fst (between_carry ?l sz ?k)) = length ?l"
      have "fill sz (fst (between_carry ?l sz ?k)) @ [25, 1] = take ?p l @ 255 # [25, 1]"
        using a(3,4) take_replicate[of sz ?k ?l 255] a(1) sp n
        by (simp add: fill_def ALPHABET_SIZE_def k replicate_app_Cons_same flip: Suc_diff_Suc)
      moreover have "above_at sz (take ?p l @ 255 # [25, 1]) l" using n le by (intro above_atI[OF b]) auto
      ultimately show ?thesis using a(2) unfolding i by (auto split: prod.split simp: DEF_LETTER_def)
    next
      fix j assume "j < ?k" "?l ! (sz + j) \<noteq> 255"
        "between_carry ?l sz ?k = (take (sz + j) ?l @ byte (?l ! (sz + j) + 1) # replicate (?k - j) 1 @ drop (Suc (sz + ?k)) ?l, True)"
      then show ?thesis using carry_stops[OF b n, of j] k unfolding i by (simp add: nth_list_update)
    qed
  qed
qed

text \<open>Behind a child: its last byte is incremented, and 255 is carried over as long as it stays behind the parent.\<close>

lemma incrementNID_above:
  assumes b: "bytes l" and n: "sz < length l" and e: "last l \<noteq> 0" "last l \<noteq> 255" and h: "l ! sz \<noteq> 255"
  shows "\<exists>r. incrementNID l sz = Inr r \<and> r ! sz \<noteq> 255 \<and> (above_at sz r l \<or> r = l @ [255, 1])"
proof -
  let ?p = "length l - 1"
  have l: "last l = l ! ?p" using n by (cases l; simp add: last_conv_nth)
  have le: "l ! ?p < 255" using bytes_nth[OF b, of ?p] n e l by linarith
  have up: "l[?p := x] = take ?p l @ [x]" for x using n by (simp add: upd_conv_take_nth_drop)
  have y: "byte (l ! ?p + 1) = l ! ?p + 1" using le by (simp add: byte_def)
  show ?thesis
  proof (cases "l ! ?p + 1 = 255")
    case False
    let ?r = "l[?p := l ! ?p + 1]"
    have h': "?r ! sz \<noteq> 255" using False h n by (cases "sz = ?p") auto
    then have "incrementNID l sz = Inr ?r" using n y False by (simp add: incrementNID_def Let_def ALPHABET_SIZE_def)
    moreover have "above_at sz (take ?p l @ (l ! ?p + 1) # []) l" using n le False by (intro above_atI[OF b]) auto
    ultimately show ?thesis using h' up by auto
  next
    case True
    show ?thesis
    proof (cases "sz = ?p")
      case True
      then have "incrementNID l sz = Inr (l[sz := 254] @ [255, 1])" using n y \<open>l ! ?p + 1 = 255\<close>
        by (simp add: incrementNID_def Let_def ALPHABET_SIZE_def MAX_LETTER_def)
      moreover have "l ! sz = 254" using True \<open>l ! ?p + 1 = 255\<close> by simp
      moreover from this have "l[sz := 254] = l" by (metis list_update_id)
      ultimately show ?thesis using h n by (simp add: nth_append)
    next
      case False
      let ?l = "l[?p := 255]" let ?k = "?p - sz"
      let ?c = "fst (between_carry ?l sz ?k)"
      have sp: "sz + ?k < length ?l" and k: "sz + ?k = ?p" "0 < ?k" using n False by simp_all
      have i: "incrementNID l sz = (if ?c ! sz = 255 then Inr (fill (sz + 1) (?c[sz := 254]) @ [25, 1]) else Inr ?c)"
        using n y True False h by (simp add: incrementNID_def Let_def ALPHABET_SIZE_def MAX_LETTER_def DEF_LETTER_def inc_carry_eq)
      have "?l ! sz \<noteq> 255" using False h by simp
      then obtain j where j: "j < ?k" "?l ! (sz + j) \<noteq> 255" "\<forall>i. j < i \<longrightarrow> i < ?k \<longrightarrow> ?l ! (sz + i) = 255"
        "between_carry ?l sz ?k = (take (sz + j) ?l @ byte (?l ! (sz + j) + 1) # replicate (?k - j) 1 @ drop (Suc (sz + ?k)) ?l, True)"
        using between_carry_spec[OF sp] k(2) by (metis add_cancel_right_right)
      have c: "above_at sz ?c l" using carry_stops[OF b n, of j] j k by (simp add: nth_list_update)
      show ?thesis
      proof (cases "?c ! sz = 255")
        case False
        with c i show ?thesis by auto
      next
        case True
        have j0: "j = 0" using True j(4) h k j(1) n by (cases j) (auto simp: nth_append)
        have l0: "l ! sz = 254" using True j(4) j0 bytes_nth[OF b n] h k n by (auto simp: nth_append byte_def)
        have a: "\<forall>i<?k - 1. l ! (Suc sz + i) = 255"
        proof (intro allI impI)
          fix i assume "i < ?k - 1"
          then show "l ! (Suc sz + i) = 255" using j(3)[rule_format, of "Suc i"] j0 by simp
        qed
        have ln: "length ?c = length l" "take sz ?c = take sz l" using j(4) j0 n by auto
        have q: "Suc sz + (?k - 1) = ?p" using k by linarith
        have t: "take ?p l = take (Suc sz) l @ replicate (?k - 1) 255" by (rule take_replicate[OF _ a, unfolded q]) simp
        have "fill (sz + 1) (?c[sz := 254]) = take (Suc sz) l @ replicate ?k 255"
          using ln n l0 k by (simp add: fill_def ALPHABET_SIZE_def take_Suc_conv_app_nth)
        also have "\<dots> = take ?p l @ [255]" unfolding t using k by (simp add: replicate_append_same flip: replicate_Suc)
        finally have f: "fill (sz + 1) (?c[sz := 254]) @ [25, 1] = take ?p l @ 255 # [25, 1]" by simp
        moreover have "above_at sz (take ?p l @ 255 # [25, 1]) l" using n le by (intro above_atI[OF b]) auto
        moreover have "(take ?p l @ 255 # [25, 1]) ! sz \<noteq> 255" using h k n by (simp add: nth_append)
        ultimately show ?thesis using i True by auto
      qed
    qed
  qed
qed

lemma child_above:
  assumes c: "child p l" and a: "above_at (length p) r l" and h: "r ! length p \<noteq> 255"
  shows "child p r \<and> apart l r"
proof -
  obtain u x y v w where w: "l = u @ x # v" "r = u @ y # w" "x < y" "length p \<le> length u" "bytes r" "last r \<noteq> 0" "last r \<noteq> 255"
    using a by (auto simp: above_at_def)
  have "length u = length p \<longrightarrow> y \<noteq> 255" using w(2) h by (metis nth_append_length)
  then have "child p r" by (intro child_differs[OF c w(1,2,4,5,6,7)])
  moreover have "apart l r" using w by (auto simp: apart_cases byte_less_def)
  ultimately show ?thesis by simp
qed

lemma child_longer: "child p l \<Longrightarrow> bytes v \<Longrightarrow> v \<noteq> [] \<Longrightarrow> last v \<noteq> 0 \<Longrightarrow> last v \<noteq> 255 \<Longrightarrow> child p (l @ v)"
  by (auto simp: child_def)

lemma create_right:
  assumes "child p l"
  shows "\<exists>r. nid_create_right None l p = Inr r \<and> child p r \<and> apart l r"
proof -
  have c: "bytes l" "length p < length l" "last l \<noteq> 0" "last l \<noteq> 255" "l ! length p \<noteq> 255" using child_last[OF assms] assms by (auto simp: child_def)
  obtain r where r: "incrementNID l (length p) = Inr r" "r ! length p \<noteq> 255" "above_at (length p) r l \<or> r = l @ [255, 1]"
    using incrementNID_above[OF c] by blast
  have "child p r \<and> apart l r" using r(3)
  proof
    assume "above_at (length p) r l"
    then show ?thesis using child_above[OF assms] r(2) by blast
  next
    assume "r = l @ [255, 1]"
    then show ?thesis using child_longer[OF assms, of "[255, 1]"] by (simp add: apart_cases)
  qed
  then show ?thesis using r(1) by (simp add: nid_create_right_def)
qed

section \<open>In between\<close>

text \<open>
  What the search of \<^verbatim>\<open>betweenNID\<close> finds in two labels of which the first comes first: a gap at or behind the
  first difference; or the first difference, which is one; or nothing, and the first label begins the second.
\<close>

lemma find_gap_equal: "\<forall>i<n. lp ! i = rp ! i \<Longrightarrow> n \<le> length lp \<Longrightarrow> n \<le> length rp \<Longrightarrow> find_gap lp rp 0 0 = find_gap lp rp n 0"
proof (induction n)
  case (Suc n)
  then have "find_gap lp rp n 0 = find_gap lp rp (Suc n) 0" by (subst find_gap.simps) simp
  with Suc show ?case by simp
qed simp

lemma find_gap_found:
  "find_gap lp rp pos d = (Some q, e) \<Longrightarrow> pos \<le> q \<and> q < length lp \<and> q < length rp \<and> lp ! q + 1 < rp ! q"
proof (induction lp rp pos d rule: find_gap.induct)
  case (1 lp rp pos d)
  then show ?case by (subst (asm) (3) find_gap.simps) (fastforce split: if_splits)
qed

lemma find_gap_keeps: "find_gap lp rp pos d = (None, e) \<Longrightarrow> d \<noteq> 0 \<Longrightarrow> e = d"
proof (induction lp rp pos d rule: find_gap.induct)
  case (1 lp rp pos d)
  then show ?case by (subst (asm) (3) find_gap.simps) (fastforce split: if_splits)
qed

lemma find_gap_differs:
  assumes "lp = u @ x # v" "rp = u @ y # w" "x < y" "u \<noteq> []"
  shows "(\<exists>q e. find_gap lp rp 0 0 = (Some q, e) \<and> (q = length u \<or> Suc x = y \<and> length u < q)) \<or> Suc x = y \<and> find_gap lp rp 0 0 = (None, length u)"
proof -
  have n: "find_gap lp rp 0 0 = find_gap lp rp (length u) 0" using assms by (intro find_gap_equal) (auto simp: nth_append)
  show ?thesis
  proof (cases "Suc x < y")
    case True
    then show ?thesis unfolding n using assms by (subst (1) find_gap.simps) auto
  next
    case False
    then have y: "Suc x = y" using assms(3) by simp
    have s: "find_gap lp rp (length u) 0 = find_gap lp rp (Suc (length u)) (length u)" using assms False by (subst find_gap.simps) simp
    show ?thesis
    proof (cases "find_gap lp rp (Suc (length u)) (length u)")
      case (Pair g e)
      then show ?thesis unfolding n s using y find_gap_keeps[of lp rp "Suc (length u)" "length u" e] find_gap_found[of lp rp "Suc (length u)" "length u"] assms(4)
        by (cases g) auto
    qed
  qed
qed

lemma above_at_mono: "above_at n r l \<Longrightarrow> m \<le> n \<Longrightarrow> above_at m r l"
  unfolding above_at_def using order_trans[of m n] by blast

lemma above_at_prefix:
  assumes "above_at (Suc (length u)) r (u @ x # v)"
  shows "\<exists>r'. r = u @ x # r'"
proof -
  obtain u' x' y' v' w' where w: "u @ x # v = u' @ x' # v'" "r = u' @ y' # w'" "Suc (length u) \<le> length u'" using assms by (auto simp: above_at_def)
  have "take (Suc (length u)) u' = u @ [x]" using arg_cong[OF w(1), of "take (Suc (length u))"] w(3) by simp
  then have "take (Suc (length u)) r = u @ [x]" using w(2,3) by simp
  then show ?thesis by (metis append_Cons append_Nil append_assoc append_take_drop_id)
qed

text \<open>Two children of a node differ behind its label.\<close>

lemma child_common:
  assumes "child p l" "child p r" "l = u @ x # v" "r = u @ y # w" "(x::nat) < y"
  shows "length p \<le> length u"
proof (rule ccontr)
  assume n: "\<not> length p \<le> length u"
  obtain zs ws where "l = p @ zs" "r = p @ ws" using assms(1,2) by (auto simp: child_def)
  then have "l ! length u = r ! length u" using n by (simp add: nth_append)
  with assms show False by simp
qed

text \<open>Between two labels, behind the first and equal to it up to the first difference.\<close>

lemma betweenNID_differs:
  assumes lp: "lp = u @ x # v" and rp: "rp = u @ y # w" and xy: "x < y" and u: "u \<noteq> []" and b: "bytes lp" "bytes rp" and e: "last lp \<noteq> 0" "last lp \<noteq> 255"
  shows "\<exists>r. betweenNID lp rp = Inr r \<and> byte_less r rp \<and> (above_at (length u) r lp \<and> (\<exists>z r'. r = u @ z # r' \<and> z < y) \<or> r = lp @ [255, 25])"
proof -
  consider (gap) q d where "find_gap lp rp 0 0 = (Some q, d)" "q = length u \<or> Suc x = y \<and> length u < q"
    | (small) "Suc x = y" "find_gap lp rp 0 0 = (None, length u)"
    using find_gap_differs[OF lp rp xy u] by blast
  then show ?thesis
  proof cases
  case (gap q d)
  note g = gap(1) and q = gap(2)
  have f: "q < length lp" "q < length rp" "lp ! q + 1 < rp ! q" using find_gap_found[OF g] by auto
  have y: "rp ! q \<le> 255" using bytes_nth[OF b(2) f(2)] .
  have r: "betweenNID lp rp = Inr (take q lp @ [lp ! q + 1])" using g f y by (simp add: betweenNID_def byte_def)
  have "above_at (length u) (take q lp @ (lp ! q + 1) # []) lp" using f y q by (intro above_atI[OF b(1)]) auto
  moreover have "\<exists>z r'. take q lp @ [lp ! q + 1] = u @ z # r' \<and> z < y" using q f xy by (auto simp: lp rp take_Cons')
  ultimately show ?thesis using r by (auto simp: byte_less_def rp)
next
  case small
  note y = small(1) and g = small(2)
  show ?thesis
  proof (cases "v = []")
    case True
    then have "betweenNID lp rp = Inr (lp @ [255, 25])" using g u by (simp add: betweenNID_def lp ALPHABET_SIZE_def DEF_LETTER_def)
    moreover have "byte_less (lp @ [255, 25]) rp" using xy by (auto simp: byte_less_def lp rp)
    ultimately show ?thesis by blast
  next
    case False
    have n: "length u + 1 < length lp" using False by (simp add: lp)
    obtain r where r: "incrementNID_between lp (length u + 1) = Inr r" "above_at (length u + 1) r lp"
      using incrementNID_between_above[OF b(1) n e] by blast
    have "length u < length lp - 1" using n by simp
    then have "betweenNID lp rp = Inr r" using g u r(1) by (simp add: betweenNID_def)
    moreover obtain r' where r': "r = u @ x # r'" using above_at_prefix[of u r x v] r(2) lp by auto
    moreover have "byte_less r rp" using r' rp xy by (auto simp: byte_less_def)
    moreover have "above_at (length u) r lp" using above_at_mono[OF r(2)] by simp
    ultimately show ?thesis using xy by blast
  qed
  qed
qed

lemma create_between:
  assumes cl: "child p l" and cr: "child p r" and a: "apart l r" and p: "p \<noteq> []"
  shows "\<exists>m. nid_create_between l r = Inr m \<and> child p m \<and> apart l m \<and> apart m r"
  using a[unfolded apart_cases]
proof (elim disjE exE)
  assume "byte_less l r"
  then obtain u x y v w where w: "l = u @ x # v" "r = u @ y # w" "x < y" by (auto simp: byte_less_def)
  have u: "length p \<le> length u" using child_common[OF cl cr w] .
  then have u': "u \<noteq> []" using p by auto
  obtain m where m: "betweenNID l r = Inr m" "byte_less m r" "above_at (length u) m l \<and> (\<exists>z r'. m = u @ z # r' \<and> z < y) \<or> m = l @ [255, 25]"
    using betweenNID_differs[OF w u'] cl cr child_last[OF cl] by (auto simp: child_def)
  have "child p m \<and> apart l m" using m(3)
  proof (elim disjE conjE exE)
    fix z m' assume z: "above_at (length u) m l" "m = u @ z # m'" "z < y"
    have "y \<le> 255" using cr w(2) by (auto simp: child_def)
    then have "child p m" using z by (intro child_differs[OF cl w(1) z(2) u]) (auto simp: above_at_def)
    moreover have "apart l m" using z(1) by (auto simp: above_at_def apart_cases byte_less_def)
    ultimately show ?thesis by simp
  next
    assume "m = l @ [255, 25]"
    then show ?thesis using child_longer[OF cl, of "[255, 25]"] by (simp add: apart_cases)
  qed
  then show ?thesis using m(1,2) by (auto simp: nid_create_between_def apart_cases)
next
  fix cs assume r: "r = l @ 255 # cs"
  have e: "bytes r" "length l + 1 < length r" "last r \<noteq> 0" "last r \<noteq> 255" using r child_last[OF cr] cr by (auto simp: child_def split: if_splits)
  obtain m where m: "decrementNID r (length l + 1) = Inr m" "below_at (length l + 1) m r" using decrementNID_below[OF e] by blast
  have "find_gap l r 0 0 = find_gap l r (length l) 0" using r by (intro find_gap_equal) (auto simp: nth_append)
  then have "betweenNID l r = Inr m" using m(1) find_gap.simps[of l r "length l" 0] by (simp add: betweenNID_def)
  moreover obtain u x y v w where w: "m = u @ x # v" "r = u @ y # w" "x < y" "Suc (length l) \<le> length u" "bytes m" "last m \<noteq> 0" "last m \<noteq> 255"
    using m(2) by (auto simp: below_at_def)
  moreover have "child p m" using child_last[OF cl] w by (intro child_differs[OF cr w(2,1) _ w(5,6,7)]) auto
  moreover have "\<exists>ds. m = l @ 255 # ds"
  proof -
    have "take (Suc (length l)) u = l @ [255]" using arg_cong[OF w(2), of "take (Suc (length l))"] r w(4) by simp
    then have "take (Suc (length l)) m = l @ [255]" using w(1,4) by simp
    then show ?thesis by (metis append_Cons append_Nil append_assoc append_take_drop_id)
  qed
  ultimately show ?thesis by (auto simp: nid_create_between_def apart_cases byte_less_def)
qed

lemma create_child: "bytes p \<Longrightarrow> child p (nid_create_child None p)"
  by (simp add: child_def nid_create_child_def)

end
