(* ===== verification/NidTree.thy ===== *)
theory NidTree
  imports NidCreate "HOL-Library.Sublist"
begin

text \<open>
  Trees of labelled nodes. \<^verbatim>\<open>createNID\<close> of \<^verbatim>\<open>kernel/tr/mo/nodeinsert.cpp\<close> chooses the generator from the neighbours of
  the node that is inserted. The specification is a tree without labels, in which a node is the path to it:
  document order is the lexicographic order of paths, and an ancestor's path is a proper prefix. Trees that are
  built by insertions and deletions have labels that decide both the same way.
\<close>

section \<open>The label of a new node\<close>

definition createNID :: "nid_hint_t option \<Rightarrow> t_prefix option \<Rightarrow> t_prefix option \<Rightarrow> t_prefix \<Rightarrow> nid_error + t_prefix" where
  "createNID sizehnt left_sibling right_sibling parent =
     (case left_sibling of
        Some l \<Rightarrow> (case right_sibling of
                     Some r \<Rightarrow> nid_create_between l r
                   | None \<Rightarrow> nid_create_right sizehnt l parent)
      | None \<Rightarrow> (case right_sibling of
                   Some r \<Rightarrow> nid_create_left r parent
                 | None \<Rightarrow> Inr (nid_create_child sizehnt parent)))"

section \<open>Trees\<close>

datatype shape = Shape (parts: "shape list")

datatype nid_tree = Node (label: t_prefix) (kids: "nid_tree list")

primrec erase :: "nid_tree \<Rightarrow> shape" where
  "erase (Node l cs) = Shape (map erase cs)"

text \<open>The node at the end of a path.\<close>

primrec node_at :: "nat list \<Rightarrow> nid_tree \<Rightarrow> nid_tree option" where
  "node_at [] t = Some t"
| "node_at (i # p) t = (if i < length (kids t) then node_at p (kids t ! i) else None)"

primrec shape_at :: "nat list \<Rightarrow> shape \<Rightarrow> shape option" where
  "shape_at [] s = Some s"
| "shape_at (i # p) s = (if i < length (parts s) then shape_at p (parts s ! i) else None)"

definition insert_nth :: "nat \<Rightarrow> 'a \<Rightarrow> 'a list \<Rightarrow> 'a list" where
  "insert_nth i x xs = take i xs @ x # drop i xs"

definition remove_nth :: "nat \<Rightarrow> 'a list \<Rightarrow> 'a list" where
  "remove_nth i xs = take i xs @ drop (Suc i) xs"

text \<open>A new leaf, the \<open>i\<close>-th child of the root; the removal of the \<open>i\<close>-th child with all below it.\<close>

definition insert_kid :: "nat \<Rightarrow> nid_tree \<Rightarrow> nid_error + nid_tree" where
  "insert_kid i t =
     (let cs = kids t
      in map_sum id (\<lambda>l. Node (label t) (insert_nth i (Node l []) cs))
           (createNID None (if i = 0 then None else Some (label (cs ! (i - 1))))
              (if i < length cs then Some (label (cs ! i)) else None) (label t)))"

definition delete_kid :: "nat \<Rightarrow> nid_tree \<Rightarrow> nid_error + nid_tree" where
  "delete_kid i t = Inr (Node (label t) (remove_nth i (kids t)))"

primrec below :: "(nid_tree \<Rightarrow> nid_error + nid_tree) \<Rightarrow> nat list \<Rightarrow> nid_tree \<Rightarrow> nid_error + nid_tree" where
  "below f [] t = f t"
| "below f (i # p) t = map_sum id (\<lambda>c. Node (label t) ((kids t)[i := c])) (below f p (kids t ! i))"

primrec shape_below :: "(shape \<Rightarrow> shape) \<Rightarrow> nat list \<Rightarrow> shape \<Rightarrow> shape" where
  "shape_below f [] s = f s"
| "shape_below f (i # p) s = Shape ((parts s)[i := shape_below f p (parts s ! i)])"

section \<open>Edits\<close>

datatype edit =
    Insert "nat list" nat     \<comment> \<open>a new node under the one at the path, before its child of that number\<close>
  | Delete "nat list" nat

primrec apply_edit :: "edit \<Rightarrow> nid_tree \<Rightarrow> nid_error + nid_tree" where
  "apply_edit (Insert p i) t = below (insert_kid i) p t"
| "apply_edit (Delete p i) t = below (delete_kid i) p t"

primrec shape_edit :: "edit \<Rightarrow> shape \<Rightarrow> shape" where
  "shape_edit (Insert p i) s = shape_below (\<lambda>u. Shape (insert_nth i (Shape []) (parts u))) p s"
| "shape_edit (Delete p i) s = shape_below (\<lambda>u. Shape (remove_nth i (parts u))) p s"

primrec possible :: "edit \<Rightarrow> shape \<Rightarrow> bool" where
  "possible (Insert p i) s \<longleftrightarrow> (case shape_at p s of Some u \<Rightarrow> i \<le> length (parts u) | None \<Rightarrow> False)"
| "possible (Delete p i) s \<longleftrightarrow> (case shape_at p s of Some u \<Rightarrow> i < length (parts u) | None \<Rightarrow> False)"

primrec apply_edits :: "edit list \<Rightarrow> nid_tree \<Rightarrow> nid_error + nid_tree" where
  "apply_edits [] t = Inr t"
| "apply_edits (e # es) t = (case apply_edit e t of Inl x \<Rightarrow> Inl x | Inr t' \<Rightarrow> apply_edits es t')"

primrec possible_edits :: "edit list \<Rightarrow> shape \<Rightarrow> bool" where
  "possible_edits [] s \<longleftrightarrow> True"
| "possible_edits (e # es) s \<longleftrightarrow> possible e s \<and> possible_edits es (shape_edit e s)"

section \<open>Labels that tell the tree\<close>

primrec tree_ok :: "nid_tree \<Rightarrow> bool" where
  "tree_ok (Node l cs) \<longleftrightarrow> bytes l \<and> l \<noteq> [] \<and> sorted_wrt apart (map label cs) \<and> (\<forall>c\<in>set cs. child l (label c)) \<and> list_all id (map tree_ok cs)"

lemma tree_ok_iff:
  "tree_ok t \<longleftrightarrow> bytes (label t) \<and> label t \<noteq> [] \<and> sorted_wrt apart (map label (kids t)) \<and> (\<forall>c\<in>set (kids t). child (label t) (label c) \<and> tree_ok c)"
  by (cases t) (auto simp: list_all_iff)

declare tree_ok.simps [simp del]

lemma tree_ok_Node [simp]:
  "tree_ok (Node l cs) \<longleftrightarrow> bytes l \<and> l \<noteq> [] \<and> sorted_wrt apart (map label cs) \<and> (\<forall>c\<in>set cs. child l (label c) \<and> tree_ok c)"
  using tree_ok_iff[of "Node l cs"] by simp

lemma erase_parts [simp]: "parts (erase t) = map erase (kids t)"
  by (cases t) simp

lemma shape_at_erase: "shape_at p (erase t) = map_option erase (node_at p t)"
  by (induction p arbitrary: t) auto

lemma nid_ancestor_trans: "nid_ancestor a b \<Longrightarrow> nid_ancestor b c \<Longrightarrow> nid_ancestor a c"
  by (auto simp: nid_ancestor_iff)

lemma ancestor_less: "nid_ancestor a b \<Longrightarrow> ord_class.lexordp a b \<and> \<not> nid_ancestor b a"
  by (auto simp: nid_ancestor_iff lexordp_append_rightI)

lemma apart_not_ancestor: "apart a b \<Longrightarrow> \<not> nid_ancestor a b \<and> \<not> nid_ancestor b a"
  using ancestor_less lexordp_antisym unfolding apart_def by blast

text \<open>A node is an ancestor of those on the paths below it.\<close>

lemma node_at_below: "tree_ok t \<Longrightarrow> node_at p t = Some a \<Longrightarrow> tree_ok a \<and> (p \<noteq> [] \<longrightarrow> nid_ancestor (label t) (label a))"
proof (induction p arbitrary: t)
  case (Cons i p)
  then have i: "i < length (kids t)" "node_at p (kids t ! i) = Some a" by (auto split: if_splits)
  then have c: "child (label t) (label (kids t ! i))" "tree_ok (kids t ! i)" using Cons.prems(1) by (auto simp: tree_ok_iff[of t])
  show ?case using Cons.IH[OF c(2) i(2)] child_ancestor[OF c(1)] nid_ancestor_trans i(2) by (cases "p = []") auto
qed simp

lemma node_at_same_or_below: "tree_ok t \<Longrightarrow> node_at p t = Some a \<Longrightarrow> label a = label t \<or> nid_ancestor (label t) (label a)"
  using node_at_below[of t p a] by (cases "p = []") auto

lemma labels_decide:
  assumes "tree_ok t" "node_at p t = Some a" "node_at q t = Some b"
  shows "(ord_class.lexordp p q \<longrightarrow> ord_class.lexordp (label a) (label b)) \<and> (nid_ancestor (label a) (label b) \<longleftrightarrow> strict_prefix p q)"
  using assms
proof (induction p arbitrary: q t)
  case Nil
  have "\<not> nid_ancestor (label t) (label t)" by (simp add: nid_ancestor_iff)
  then show ?case using node_at_below[OF Nil(1,3)] Nil(2,3) ancestor_less by (cases q) auto
next
  case (Cons i p)
  have i: "i < length (kids t)" "node_at p (kids t ! i) = Some a" using Cons.prems(2) by (auto split: if_splits)
  then have c: "tree_ok (kids t ! i)" using Cons.prems(1) by (auto simp: tree_ok_iff[of t])
  show ?case
  proof (cases q)
    case Nil
    then have "nid_ancestor (label b) (label a)" using node_at_below[OF Cons.prems(1,2)] Cons.prems(3) by simp
    then show ?thesis using Nil ancestor_less[of "label b" "label a"] by simp
  next
    case (Cons j q')
    have j: "j < length (kids t)" "node_at q' (kids t ! j) = Some b" using Cons Cons.prems(3) by (auto split: if_splits)
    then have d: "tree_ok (kids t ! j)" using Cons.prems(1) by (auto simp: tree_ok_iff[of t])
    have ab: "bytes (label a)" "bytes (label b)" using node_at_below[OF c i(2)] node_at_below[OF d j(2)] by (simp_all add: tree_ok_iff[of a] tree_ok_iff[of b])
    have ap: "apart (label (kids t ! m)) (label (kids t ! n))" if "m < n" "n < length (kids t)" for m n
      using Cons.prems(1) that by (auto simp: tree_ok_iff[of t] sorted_wrt_iff_nth_less)
    consider "i = j" | "i < j" | "j < i" by linarith
    then show ?thesis
    proof cases
      case 1
      with Cons.IH[OF c i(2), of q'] j(2) Cons show ?thesis by simp
    next
      case 2
      have "apart (label a) (label b)"
        by (rule apart_below[OF ap[OF 2 j(1)] node_at_same_or_below[OF c i(2)] node_at_same_or_below[OF d j(2)] ab(1)])
      then show ?thesis using 2 Cons apart_not_ancestor[of "label a" "label b"] by (simp add: apart_def)
    next
      case 3
      have "apart (label b) (label a)"
        by (rule apart_below[OF ap[OF 3 i(1)] node_at_same_or_below[OF d j(2)] node_at_same_or_below[OF c i(2)] ab(2)])
      then show ?thesis using 3 Cons apart_not_ancestor[of "label b" "label a"] by simp
    qed
  qed
qed

lemma lex_cmp_refl: "lex_cmp a a = 0"
  by (induction a) auto

lemma lex_cmp_less: "ord_class.lexordp a (b::nat list) \<Longrightarrow> lex_cmp a b = -1 \<and> lex_cmp b a = 1"
  using lexordp_antisym[of a b] lexordp_irreflexive'[of a] by (auto simp: lex_cmp_exact)

lemma nid_cmp_path:
  assumes "tree_ok t" "node_at p t = Some a" "node_at q t = Some b"
  shows "nid_cmp (label a) (label b) = lex_cmp p q"
proof -
  consider "p = q" | "ord_class.lexordp p q" | "ord_class.lexordp q p" using lexordp_linear by blast
  then show ?thesis
  proof cases
    case 1
    then show ?thesis using assms by (simp add: nid_cmp_def lex_cmp_refl)
  next
    case 2
    then show ?thesis using labels_decide[OF assms] lex_cmp_less by (simp add: nid_cmp_def)
  next
    case 3
    then show ?thesis using labels_decide[OF assms(1,3,2)] lex_cmp_less by (simp add: nid_cmp_def)
  qed
qed

section \<open>Insertions and deletions\<close>

lemma insert_nth_simps [simp]: "map f (insert_nth i x xs) = insert_nth i (f x) (map f xs)" "set (insert_nth i x xs) = insert x (set xs)"
  by (auto simp: insert_nth_def take_map drop_map) (metis UnCI append_take_drop_id set_append UnE)+

lemma remove_nth_map [simp]: "map f (remove_nth i xs) = remove_nth i (map f xs)"
  by (simp add: remove_nth_def take_map drop_map)

lemma in_set_remove_nthD: "x \<in> set (remove_nth i xs) \<Longrightarrow> x \<in> set xs"
  by (auto simp: remove_nth_def dest: in_set_takeD in_set_dropD)

lemma sorted_remove_nth:
  assumes "sorted_wrt P xs"
  shows "sorted_wrt P (remove_nth i xs)"
proof (cases "i < length xs")
  case True
  then have "sorted_wrt P (take i xs @ xs ! i # drop (Suc i) xs)" using assms by (simp flip: id_take_nth_drop)
  then show ?thesis by (auto simp: remove_nth_def sorted_wrt_append)
qed (use assms in \<open>simp add: remove_nth_def\<close>)

text \<open>A label before its right neighbour and behind its left one is in order among all siblings.\<close>

lemma sorted_insert_nth:
  assumes s: "sorted_wrt apart ls" and i: "i \<le> length ls" and b: "\<forall>l\<in>set ls. bytes l" "bytes m"
    and l: "i = 0 \<or> apart (ls ! (i - 1)) m" and r: "i = length ls \<or> apart m (ls ! i)"
  shows "sorted_wrt apart (insert_nth i m ls)"
proof -
  have "apart x m" if x: "x \<in> set (take i ls)" for x
  proof -
    obtain k where k: "k < i" "ls ! k = x" using x i by (auto simp: in_set_conv_nth)
    show ?thesis
    proof (cases "k = i - 1")
      case False
      then have "apart x (ls ! (i - 1))" using s k i by (auto simp: sorted_wrt_iff_nth_less)
      then show ?thesis using l k b(2) apart_trans[of x "ls ! (i - 1)" m] by auto
    qed (use l k in auto)
  qed
  moreover have "apart m x" if x: "x \<in> set (drop i ls)" for x
  proof -
    obtain k where k: "k < length ls - i" "ls ! (i + k) = x" using x by (auto simp: in_set_conv_nth)
    show ?thesis
    proof (cases k)
      case (Suc n)
      then have "apart (ls ! i) x" using s k by (auto simp: sorted_wrt_iff_nth_less)
      moreover have "bytes x" using b(1) x by (auto dest: in_set_dropD)
      ultimately show ?thesis using r k apart_trans[of m "ls ! i" x] by auto
    qed (use r k in auto)
  qed
  moreover have "sorted_wrt apart (take i ls @ drop i ls)" using s by simp
  ultimately show ?thesis unfolding insert_nth_def sorted_wrt_append by auto
qed

text \<open>What \<^verbatim>\<open>createNID\<close> returns for a place among the children of a node.\<close>

lemma createNID_placed:
  assumes p: "bytes p" "p \<noteq> []" and s: "sorted_wrt apart ls" and c: "\<forall>l\<in>set ls. child p l" and i: "i \<le> length ls"
  shows "\<exists>m. createNID None (if i = 0 then None else Some (ls ! (i - 1))) (if i < length ls then Some (ls ! i) else None) p = Inr m
           \<and> child p m \<and> sorted_wrt apart (insert_nth i m ls)"
proof -
  have "\<exists>m. createNID None (if i = 0 then None else Some (ls ! (i - 1))) (if i < length ls then Some (ls ! i) else None) p = Inr m
           \<and> child p m \<and> (i = 0 \<or> apart (ls ! (i - 1)) m) \<and> (i = length ls \<or> apart m (ls ! i))"
  proof (cases "i = 0"; cases "i < length ls")
    assume "i = 0" "i < length ls"
    then show ?thesis using create_left[of p "ls ! i"] c by (auto simp: createNID_def)
  next
    assume "i = 0" "\<not> i < length ls"
    then show ?thesis using create_child[OF p(1)] i by (auto simp: createNID_def)
  next
    assume "i \<noteq> 0" "\<not> i < length ls"
    then show ?thesis using create_right[of p "ls ! (i - 1)"] c i by (auto simp: createNID_def)
  next
    assume a: "i \<noteq> 0" "i < length ls"
    then have "apart (ls ! (i - 1)) (ls ! i)" using s by (auto simp: sorted_wrt_iff_nth_less)
    then show ?thesis using create_between[of p "ls ! (i - 1)" "ls ! i"] c a p by (auto simp: createNID_def)
  qed
  then show ?thesis using sorted_insert_nth[OF s i] c by (auto simp: child_def)
qed

lemma insert_kid_ok:
  assumes t: "tree_ok t" and i: "i \<le> length (kids t)"
  shows "\<exists>t'. insert_kid i t = Inr t' \<and> tree_ok t' \<and> label t' = label t \<and> erase t' = Shape (insert_nth i (Shape []) (parts (erase t)))"
proof -
  let ?ls = "map label (kids t)"
  have k: "\<forall>l\<in>set ?ls. child (label t) l" using t by (simp add: tree_ok_iff[of t])
  obtain m where m: "createNID None (if i = 0 then None else Some (?ls ! (i - 1))) (if i < length ?ls then Some (?ls ! i) else None) (label t) = Inr m"
    "child (label t) m" "sorted_wrt apart (insert_nth i m ?ls)"
    using createNID_placed[of "label t" ?ls i] t k i by (auto simp: tree_ok_iff[of t])
  have "insert_kid i t = Inr (Node (label t) (insert_nth i (Node m []) (kids t)))" using m(1) i by (auto simp: insert_kid_def Let_def split: if_splits)
  moreover have "bytes m" "m \<noteq> []" using m(2) by (auto simp: child_def)
  moreover from this have "tree_ok (Node m [])" by simp
  ultimately show ?thesis using m(2,3) t[unfolded tree_ok_iff[of t]] by auto
qed

lemma delete_kid_ok:
  assumes t: "tree_ok t"
  shows "\<exists>t'. delete_kid i t = Inr t' \<and> tree_ok t' \<and> label t' = label t \<and> erase t' = Shape (remove_nth i (parts (erase t)))"
  using t sorted_remove_nth[of apart "map label (kids t)" i] by (auto simp: delete_kid_def tree_ok_iff[of t] dest: in_set_remove_nthD)

lemma below_ok:
  assumes "tree_ok t" "node_at p t = Some u"
    and f: "tree_ok u \<Longrightarrow> \<exists>u'. f u = Inr u' \<and> tree_ok u' \<and> label u' = label u \<and> erase u' = g (erase u)"
  shows "\<exists>t'. below f p t = Inr t' \<and> tree_ok t' \<and> label t' = label t \<and> erase t' = shape_below g p (erase t)"
  using assms(1,2)
proof (induction p arbitrary: t)
  case Nil
  then show ?case using f by auto
next
  case (Cons i p)
  have i: "i < length (kids t)" "node_at p (kids t ! i) = Some u" using Cons.prems(2) by (auto split: if_splits)
  have c: "tree_ok (kids t ! i)" using i Cons.prems(1) by (auto simp: tree_ok_iff[of t])
  obtain d where d: "below f p (kids t ! i) = Inr d" "tree_ok d" "label d = label (kids t ! i)" "erase d = shape_below g p (erase (kids t ! i))"
    using Cons.IH[OF c i(2)] by blast
  have l: "map label ((kids t)[i := d]) = map label (kids t)" using d(3) i(1) by (simp add: map_update list_update_same_conv)
  have "\<forall>c\<in>set ((kids t)[i := d]). child (label t) (label c) \<and> tree_ok c" using Cons.prems(1) d(2,3) i(1)
    by (auto simp: tree_ok_iff[of t] dest!: subsetD[OF set_update_subset_insert])
  then have "tree_ok (Node (label t) ((kids t)[i := d]))" using Cons.prems(1) unfolding tree_ok_Node l tree_ok_iff[of t] by blast
  then show ?case using d(1,4) i(1) by (simp add: map_update del: tree_ok_Node)
qed

lemma apply_edit_ok:
  assumes "tree_ok t" "possible e (erase t)"
  shows "\<exists>t'. apply_edit e t = Inr t' \<and> tree_ok t' \<and> label t' = label t \<and> erase t' = shape_edit e (erase t)"
proof (cases e)
  case (Insert p i)
  then obtain u where u: "node_at p t = Some u" "i \<le> length (kids u)" using assms(2) by (auto simp: shape_at_erase split: option.splits)
  show ?thesis using below_ok[OF assms(1) u(1), of "insert_kid i" "\<lambda>u. Shape (insert_nth i (Shape []) (parts u))"] insert_kid_ok[OF _ u(2)] Insert by simp
next
  case (Delete p i)
  then obtain u where u: "node_at p t = Some u" using assms(2) by (auto simp: shape_at_erase split: option.splits)
  show ?thesis using below_ok[OF assms(1) u(1), of "delete_kid i" "\<lambda>u. Shape (remove_nth i (parts u))"] delete_kid_ok Delete by simp
qed

lemma apply_edits_ok:
  assumes "tree_ok t" "possible_edits es (erase t)"
  shows "\<exists>t'. apply_edits es t = Inr t' \<and> tree_ok t' \<and> erase t' = fold shape_edit es (erase t)"
  using assms
proof (induction es arbitrary: t)
  case (Cons e es)
  then obtain t' where "apply_edit e t = Inr t'" "tree_ok t'" "erase t' = shape_edit e (erase t)" using apply_edit_ok[of t e] by auto
  with Cons.IH[of t'] Cons.prems show ?case by simp
qed simp

end
