(* ===== verification/NidLoad.thy ===== *)
theory NidLoad
  imports NidTree
begin

text \<open>
  Labels with a size hint. While a document is loaded, \<^verbatim>\<open>BulkLoader::loadDocument\<close> of
  \<^verbatim>\<open>kernel/tr/updates/bulkload.cpp\<close> counts the children of the elements of each level and gives the numbering scheme
  the number of bytes that the labels of the level extend their parents' by and the distance between neighbours.
  Labels of that length are numbers in base 254 with digits from 1. Labels of documents are numbers of that kind
  too, with 255 between their digits; they are in \<open>NidRoots\<close>.
\<close>

section \<open>Hints\<close>

text \<open>
  The number of bytes for \<open>cnt\<close> children: the source rounds up the logarithm of \<open>cnt\<close> to the base 254, which
  is the least power that is enough.
\<close>

function hint_bytes :: "nat \<Rightarrow> nat \<Rightarrow> nat" where
  "hint_bytes cnt s = (if cnt \<le> MAX_LETTER ^ s then s else hint_bytes cnt (Suc s))"
  by pat_completeness auto
termination
proof (relation "measure (\<lambda>(cnt, s). cnt - s)", goal_cases)
  case (2 cnt s)
  have "s < MAX_LETTER ^ s" by (simp add: MAX_LETTER_def less_exp[THEN order_less_le_trans] power_mono)
  with 2 show ?case by auto
qed simp

declare hint_bytes.simps [simp del]

definition bulk_hint :: "nat \<Rightarrow> nid_hint_t" where
  "bulk_hint stat =
     (let cnt = max stat 1;
          s = max (hint_bytes cnt 0) 1
      in \<lparr>hint_size = s, hint_increment = min DEF_LETTER (MAX_LETTER ^ s div (2 + cnt))\<rparr>)"

text \<open>The children of a new node, appended one after the other.\<close>

primrec load_kids :: "nid_hint_t \<Rightarrow> t_prefix \<Rightarrow> nat \<Rightarrow> nid_error + t_prefix list" where
  "load_kids h p 0 = Inr []"
| "load_kids h p (Suc n) =
     (case load_kids h p n of
        Inl e \<Rightarrow> Inl e
      | Inr ls \<Rightarrow> (case createNID (Some h) (if ls = [] then None else Some (last ls)) None p of
                     Inl e \<Rightarrow> Inl e
                   | Inr l \<Rightarrow> Inr (ls @ [l])))"

section \<open>Numbers in base 254\<close>

definition digits :: "t_prefix \<Rightarrow> bool" where
  "digits ds \<longleftrightarrow> (\<forall>d\<in>set ds. 1 \<le> d \<and> d \<le> 254)"

primrec number :: "t_prefix \<Rightarrow> nat" where
  "number [] = 0"
| "number (d # ds) = (d - 1) * 254 ^ length ds + number ds"

lemma digits_simps [simp]: "digits []" "digits (d # ds) \<longleftrightarrow> 1 \<le> d \<and> d \<le> 254 \<and> digits ds" "digits (ds @ es) \<longleftrightarrow> digits ds \<and> digits es"
  by (auto simp: digits_def)

lemma number_snoc: "number (ds @ [d]) = number ds * 254 + (d - 1)"
  by (induction ds) (auto simp: algebra_simps)

lemma number_less: "digits ds \<Longrightarrow> number ds < 254 ^ length ds"
proof (induction ds)
  case (Cons d ds)
  then have "(d - 1) * 254 ^ length ds + number ds < (d - 1) * 254 ^ length ds + 254 ^ length ds" by simp
  also have "\<dots> = d * 254 ^ length ds" using Cons.prems by (cases d) (auto simp: algebra_simps)
  also have "\<dots> \<le> 254 * 254 ^ length ds" using Cons.prems by simp
  finally show ?case by simp
qed simp

lemma number_byte_less:
  assumes "digits ds" "digits es" "length ds = length es" "number ds < number es"
  shows "byte_less ds es"
  using assms
proof (induction ds arbitrary: es)
  case (Cons d ds)
  then obtain e es' where es: "es = e # es'" by (cases es) auto
  consider "d < e" | "d = e" | "e < d" by linarith
  then show ?case
  proof cases
    case 1
    then show ?thesis unfolding es byte_less_def by (metis append_Nil)
  next
    case 2
    then have "byte_less ds es'" using Cons es by auto
    then show ?thesis unfolding es 2 byte_less_def by (metis append_Cons)
  next
    case 3
    then have "e * 254 ^ length ds \<le> (d - 1) * 254 ^ length ds" by simp
    moreover have "number es' < 254 ^ length ds" using number_less[of es'] Cons.prems es by simp
    moreover have "(e - 1) * 254 ^ length ds + 254 ^ length ds = e * 254 ^ length ds" using Cons.prems(2) es by (cases e) (auto simp: algebra_simps)
    ultimately have "(e - 1) * 254 ^ length ds + number es' < (d - 1) * 254 ^ length ds + number ds" by linarith
    then show ?thesis using Cons.prems(3,4) es by simp
  qed
qed simp

text \<open>The carry adds one to the digits in front.\<close>

lemma hint_carry_adds:
  assumes "digits ds"
  shows "if Suc (number ds) < 254 ^ length ds
         then \<exists>es. hint_carry (p @ ds @ rest) (int (length p)) (length p + length ds) = Inr (p @ es @ rest)
                   \<and> digits es \<and> length es = length ds \<and> number es = Suc (number ds)
         else hint_carry (p @ ds @ rest) (int (length p)) (length p + length ds) = Inl SE2023"
  using assms
proof (induction ds arbitrary: rest rule: rev_induct)
  case Nil
  then show ?case by (cases "length p") auto
next
  case (snoc d ds)
  let ?l = "p @ (ds @ [d]) @ rest"
  have c: "hint_carry ?l (int (length p)) (length p + length (ds @ [d])) =
     (if d + 1 \<noteq> 255 then Inr (p @ ds @ (d + 1) # rest) else hint_carry (p @ ds @ 1 # rest) (int (length p)) (length p + length ds))"
    using snoc.prems by (auto simp: Let_def byte_def ALPHABET_SIZE_def nth_append list_update_append)
  show ?case
  proof (cases "d + 1 = 255")
    case False
    then have "Suc (number (ds @ [d])) < 254 ^ length (ds @ [d])" using snoc.prems number_less[of "ds @ [d + 1]"] by (simp add: number_snoc)
    moreover have "number (ds @ [d + 1]) = Suc (number (ds @ [d]))" using snoc.prems by (simp add: number_snoc)
    ultimately show ?thesis unfolding c using False snoc.prems by (auto intro!: exI[of _ "ds @ [d + 1]"])
  next
    case True
    have n: "Suc (number (ds @ [d])) = Suc (number ds) * 254" using True by (simp add: number_snoc)
    have lt: "Suc (number (ds @ [d])) < 254 ^ length (ds @ [d]) \<longleftrightarrow> Suc (number ds) < 254 ^ length ds"
      by (simp only: n length_append_singleton power_Suc2 mult_less_cancel2) simp
    show ?thesis
    proof (cases "Suc (number ds) < 254 ^ length ds")
      case True
      then obtain es where "hint_carry (p @ ds @ 1 # rest) (int (length p)) (length p + length ds) = Inr (p @ es @ 1 # rest)"
        "digits es" "length es = length ds" "number es = Suc (number ds)" using snoc.IH[of "1 # rest"] snoc.prems by auto
      then show ?thesis unfolding c using True n lt \<open>d + 1 = 255\<close> by (auto intro!: exI[of _ "es @ [1]"] simp: number_snoc)
    next
      case False
      then show ?thesis unfolding c using snoc.IH[of "1 # rest"] snoc.prems lt \<open>d + 1 = 255\<close> by auto
    qed
  qed
qed

section \<open>Labels with a hint\<close>

text \<open>With a hint the label to the right is the sum, and there is none when the sum needs more bytes.\<close>

lemma create_right_hint:
  assumes d: "digits ds" "length ds = hint_size h" and s: "0 < hint_size h" and i: "hint_increment h \<le> 254"
  shows "if number ds + hint_increment h < 254 ^ hint_size h
         then \<exists>es. nid_create_right (Some h) (p @ ds) q = Inr (p @ es) \<and> digits es \<and> length es = hint_size h \<and> number es = number ds + hint_increment h
         else nid_create_right (Some h) (p @ ds) q = Inl SE2023"
proof -
  let ?inc = "hint_increment h"
  obtain es e where ds: "ds = es @ [e]" using d(2) s by (cases ds rule: rev_cases) auto
  have e: "1 \<le> e" "e \<le> 254" "digits es" using d(1) ds by auto
  have len: "hint_size h = Suc (length es)" using d(2) ds by simp
  have n: "number ds = number es * 254 + (e - 1)" using ds by (simp add: number_snoc)
  show ?thesis
  proof (cases "e + ?inc < 255")
    case True
    have "nid_create_right (Some h) (p @ ds) q = Inr (p @ es @ [e + ?inc])" using True
      by (simp add: nid_create_right_def ds Let_def ALPHABET_SIZE_def byte_def nth_append list_update_append)
    moreover have "number (es @ [e + ?inc]) = number ds + ?inc" using e(1) by (simp add: n number_snoc)
    moreover have "digits (es @ [e + ?inc])" using e True by simp
    ultimately show ?thesis using number_less[of "es @ [e + ?inc]"] len by (auto intro!: exI[of _ "es @ [e + ?inc]"])
  next
    case False
    let ?c = "?inc + e - 254"
    have c: "1 \<le> ?c" "?c \<le> 254" using False e(2) i by auto
    have r: "nid_create_right (Some h) (p @ ds) q = hint_carry (p @ es @ [?c]) (int (length p)) (length p + length es)" using False c len
      by (simp add: nid_create_right_def ds Let_def ALPHABET_SIZE_def MAX_LETTER_def byte_def nth_append list_update_append)
    have sum: "number ds + ?inc = Suc (number es) * 254 + (?c - 1)" using n e(1) False by simp
    have lt: "number ds + ?inc < 254 ^ hint_size h \<longleftrightarrow> Suc (number es) < 254 ^ length es"
    proof
      assume "number ds + ?inc < 254 ^ hint_size h"
      then have "Suc (number es) * 254 < 254 ^ length es * 254" using sum len by simp
      then show "Suc (number es) < 254 ^ length es" by (simp only: mult_less_cancel2)
    next
      assume "Suc (number es) < 254 ^ length es"
      then have "Suc (Suc (number es)) * 254 \<le> 254 ^ length es * 254" by (intro mult_le_mono1) simp
      then show "number ds + ?inc < 254 ^ hint_size h" using sum len c(2) by simp
    qed
    show ?thesis
    proof (cases "Suc (number es) < 254 ^ length es")
      case True
      then obtain fs where "hint_carry (p @ es @ [?c]) (int (length p)) (length p + length es) = Inr (p @ fs @ [?c])" "digits fs" "length fs = length es" "number fs = Suc (number es)"
        using hint_carry_adds[OF e(3), of p "[?c]"] by auto
      then show ?thesis using True lt r sum c len by (auto intro!: exI[of _ "fs @ [?c]"] simp: number_snoc)
    next
      case False
      then show ?thesis using lt r hint_carry_adds[OF e(3), of p "[?c]"] by simp
    qed
  qed
qed

lemma number_ones: "number (replicate n 1) = 0"
  by (induction n) auto

lemma create_child_hint:
  assumes "0 < hint_size h" "hint_size h < 254"
  shows "\<exists>ds. nid_create_child (Some h) p = p @ ds \<and> digits ds \<and> length ds = hint_size h \<and> number ds = hint_size h"
proof -
  let ?ds = "replicate (hint_size h - 1) 1 @ [1 + hint_size h]"
  have "nid_create_child (Some h) p = p @ ?ds" using assms by (simp add: nid_create_child_def byte_def)
  moreover have "digits ?ds" using assms by (auto simp: digits_def)
  moreover have "number ?ds = hint_size h" using number_ones[of "hint_size h - 1"] by (simp add: number_snoc)
  moreover have "length ?ds = hint_size h" using assms by simp
  ultimately show ?thesis by blast
qed

text \<open>The labels of a node's children while it is loaded.\<close>

lemma load_kids_numbers:
  assumes h: "0 < hint_size h" "hint_size h < 254" "hint_increment h \<le> 254"
  shows "if n = 0 \<or> hint_size h + (n - 1) * hint_increment h < 254 ^ hint_size h
         then \<exists>dss. load_kids h p n = Inr (map (append p) dss) \<and> length dss = n
                \<and> (\<forall>i<n. digits (dss ! i) \<and> length (dss ! i) = hint_size h \<and> number (dss ! i) = hint_size h + i * hint_increment h)
         else load_kids h p n = Inl SE2023"
proof (induction n)
  case (Suc n)
  let ?s = "hint_size h" and ?inc = "hint_increment h"
  show ?case
  proof (cases n)
    case 0
    obtain ds where "nid_create_child (Some h) p = p @ ds" "digits ds" "length ds = ?s" "number ds = ?s" using create_child_hint[OF h(1,2)] by blast
    moreover from this have "?s < 254 ^ ?s" using number_less[of ds] by simp
    ultimately show ?thesis using 0 by (auto simp: createNID_def intro!: exI[of _ "[ds]"])
  next
    case (Suc m)
    show ?thesis
    proof (cases "?s + m * ?inc < 254 ^ ?s")
      case False
      then have "\<not> ?s + (Suc n - 1) * ?inc < 254 ^ ?s" using Suc by simp
      then show ?thesis using False Suc.IH Suc by simp
    next
      case True
      then obtain dss where dss: "load_kids h p n = Inr (map (append p) dss)" "length dss = n"
        "\<forall>i<n. digits (dss ! i) \<and> length (dss ! i) = ?s \<and> number (dss ! i) = ?s + i * ?inc" using Suc.IH Suc by auto
      let ?d = "dss ! m"
      have l: "last (map (append p) dss) = p @ ?d" "dss \<noteq> []" using dss(2) Suc by (cases dss rule: rev_cases; simp add: nth_append)+
      have d: "digits ?d" "length ?d = ?s" "number ?d = ?s + m * ?inc" using dss(3) Suc by auto
      have k: "load_kids h p (Suc n) = (case nid_create_right (Some h) (p @ ?d) p of Inl e \<Rightarrow> Inl e | Inr l \<Rightarrow> Inr (map (append p) dss @ [l]))"
        using dss(1) l by (simp add: createNID_def)
      have e: "number ?d + ?inc = ?s + (Suc n - 1) * ?inc" using d(3) Suc by simp
      note r = create_right_hint[OF d(1,2) h(1,3), of p p, unfolded e]
      show ?thesis
      proof (cases "?s + (Suc n - 1) * ?inc < 254 ^ ?s")
        case True
        then obtain es where es: "nid_create_right (Some h) (p @ ?d) p = Inr (p @ es)" "digits es" "length es = ?s" "number es = ?s + n * ?inc" using r by auto
        then show ?thesis using True k dss(2,3) by (auto intro!: exI[of _ "dss @ [es]"] simp: nth_append less_Suc_eq)
      next
        case False
        then show ?thesis using r k by auto
      qed
    qed
  qed
qed simp

lemma digits_child:
  assumes "bytes p" "digits ds" "ds \<noteq> []"
  shows "child p (p @ ds)"
proof -
  have "bytes ds" using assms(2) by (auto simp: digits_def bytes_def)
  moreover have d: "1 \<le> d \<and> d \<le> 254" if "d \<in> set ds" for d using assms(2) that by (auto simp: digits_def)
  have "hd ds \<noteq> 255" "last ds \<noteq> 0" "last ds \<noteq> 255"
    using d[OF hd_in_set[OF assms(3)]] d[OF last_in_set[OF assms(3)]] by auto
  ultimately show ?thesis using assms(1,3) by (auto simp: child_def)
qed

lemma load_kids_ordered:
  assumes h: "0 < hint_size h" "hint_size h < 254" "0 < hint_increment h" "hint_increment h \<le> 254" and p: "bytes p"
    and n: "n = 0 \<or> hint_size h + (n - 1) * hint_increment h < 254 ^ hint_size h"
  shows "\<exists>ls. load_kids h p n = Inr ls \<and> length ls = n \<and> (\<forall>l\<in>set ls. child p l) \<and> sorted_wrt apart ls"
proof -
  obtain dss where dss: "load_kids h p n = Inr (map (append p) dss)" "length dss = n"
    "\<forall>i<n. digits (dss ! i) \<and> length (dss ! i) = hint_size h \<and> number (dss ! i) = hint_size h + i * hint_increment h"
    using load_kids_numbers[OF h(1,2,4), of n p] n by auto
  have "child p (p @ ds)" if "ds \<in> set dss" for ds using that dss(2,3) h(1) digits_child[OF p, of ds] by (fastforce simp: in_set_conv_nth)
  moreover have "apart (p @ dss ! i) (p @ dss ! j)" if ij: "i < j" "j < n" for i j
  proof -
    have "number (dss ! i) < number (dss ! j)" using ij dss(3) h(3) by simp
    then have "byte_less (dss ! i) (dss ! j)" using ij dss(3) by (intro number_byte_less) auto
    then have "byte_less (p @ dss ! i) (p @ dss ! j)" unfolding byte_less_def by (metis append_assoc)
    then show ?thesis by (simp add: apart_cases)
  qed
  ultimately show ?thesis using dss(1,2) by (auto simp: sorted_wrt_iff_nth_less)
qed

lemma hint_bytes_enough: "cnt \<le> MAX_LETTER ^ hint_bytes cnt s \<and> s \<le> hint_bytes cnt s \<and> (hint_bytes cnt s = s \<or> MAX_LETTER ^ (hint_bytes cnt s - 1) < cnt)"
proof (induction cnt s rule: hint_bytes.induct)
  case (1 cnt s)
  show ?case
  proof (cases "cnt \<le> MAX_LETTER ^ s")
    case True
    then show ?thesis by (simp add: hint_bytes.simps[of cnt s])
  next
    case False
    then show ?thesis using 1[OF False] hint_bytes.simps[of cnt s] by auto
  qed
qed

text \<open>The hint for \<open>cnt\<close> children has room for them as long as its increment is not zero and it has two bytes at most.\<close>

lemma bulk_hint_room:
  assumes "hint_increment (bulk_hint cnt) > 0" "hint_size (bulk_hint cnt) \<le> 2" "0 < cnt"
  shows "hint_size (bulk_hint cnt) + (cnt - 1) * hint_increment (bulk_hint cnt) < 254 ^ hint_size (bulk_hint cnt)"
proof -
  let ?s = "hint_size (bulk_hint cnt)" and ?i = "hint_increment (bulk_hint cnt)"
  have "max cnt 1 = cnt" using assms(3) by simp
  then have "?i \<le> 254 ^ ?s div (2 + cnt)" by (simp add: bulk_hint_def Let_def MAX_LETTER_def)
  then have "(2 + cnt) * ?i \<le> 254 ^ ?s" by (metis div_times_less_eq_dividend mult.commute mult_le_mono2 order_trans)
  moreover have "(2 + cnt) * ?i = (cnt - 1) * ?i + 3 * ?i" using assms(3) by (cases cnt) (auto simp: algebra_simps)
  ultimately show ?thesis using assms(1,2) by linarith
qed

lemma bulk_hint_small:
  assumes "cnt \<le> 254 ^ 2"
  shows "0 < hint_size (bulk_hint cnt) \<and> hint_size (bulk_hint cnt) \<le> 2 \<and> hint_increment (bulk_hint cnt) \<le> 25"
proof -
  have "hint_bytes (max cnt 1) 0 \<le> 2"
  proof (rule ccontr)
    assume "\<not> ?thesis"
    then have "(254::nat) ^ (hint_bytes (max cnt 1) 0 - 1) < max cnt 1" "2 \<le> hint_bytes (max cnt 1) 0 - 1" using hint_bytes_enough[of "max cnt 1" 0] by (auto simp: MAX_LETTER_def)
    moreover from this(2) have "(254::nat) ^ 2 \<le> 254 ^ (hint_bytes (max cnt 1) 0 - 1)" by (intro power_increasing) auto
    ultimately show False using assms by (auto simp: max_def split: if_splits)
  qed
  then show ?thesis by (auto simp: bulk_hint_def Let_def DEF_LETTER_def)
qed

end
