(* ===== verification/NidRoots.thy ===== *)
theory NidRoots
  imports NidLoad
begin

text \<open>
  The labels of document nodes, \<^verbatim>\<open>updateEP_nid\<close>: they count in base 254 with digits from 1 to 254 and have 255 between
  the digits, so that no document's label begins another's as an ancestor's would.
\<close>

section \<open>Digits with 255 between them\<close>

fun root_label :: "t_prefix \<Rightarrow> t_prefix" where
  "root_label [] = []"
| "root_label [d] = [d]"
| "root_label (d # e # ds) = d # 255 # root_label (e # ds)"

text \<open>The number of a label among those that are given.\<close>

definition rank :: "t_prefix \<Rightarrow> nat" where
  "rank ds = foldl (\<lambda>n d. n * 254 + d) 0 ds"

text \<open>The next digits.\<close>

primrec succ_rev :: "t_prefix \<Rightarrow> t_prefix" where
  "succ_rev [] = [1]"
| "succ_rev (d # ds) = (if d < 254 then Suc d # ds else 1 # succ_rev ds)"

definition succ_digits :: "t_prefix \<Rightarrow> t_prefix" where
  "succ_digits ds = rev (succ_rev (rev ds))"

definition root_nid :: "nat \<Rightarrow> t_prefix" where
  "root_nid n = (updateEP_nid ^^ n) []"

lemma rank_snoc [simp]: "rank [] = 0" "rank (ds @ [d]) = rank ds * 254 + d"
  by (simp_all add: rank_def)

lemma rank_succ_rev: "digits ds \<Longrightarrow> digits (succ_rev ds) \<and> rank (rev (succ_rev ds)) = Suc (rank (rev ds))"
proof (induction ds)
  case Nil
  show ?case using rank_snoc(2)[of "[]" 1] by simp
qed auto

lemma root_label_length: "length (root_label ds) = 2 * length ds - 1"
  by (induction ds rule: root_label.induct) auto

lemma root_label_nth: "i < 2 * length ds - 1 \<Longrightarrow> root_label ds ! i = (if even i then ds ! (i div 2) else 255)"
proof (induction ds arbitrary: i rule: root_label.induct)
  case (3 d e ds)
  consider "i = 0" | "i = 1" | j where "i = Suc (Suc j)" by (metis One_nat_def not0_implies_Suc)
  then show ?case using 3 by cases auto
qed auto

section \<open>The next label\<close>

lemma succ_rev_carry: "succ_rev (replicate k 254 @ rs) = replicate k 1 @ succ_rev rs"
  by (induction k) auto

lemma succ_digits_carry: "d < 254 \<Longrightarrow> succ_digits (es @ d # replicate k 254) = es @ Suc d # replicate k 1"
  by (simp add: succ_digits_def succ_rev_carry)

lemma succ_digits_full: "succ_digits (replicate k 254) = replicate (Suc k) 1"
  using succ_rev_carry[of k "[]"] by (simp add: succ_digits_def replicate_append_same)

lemma root_search_none: "k \<le> length ds \<Longrightarrow> \<forall>i<k. ds ! i = 254 \<Longrightarrow> root_search (root_label ds) (2 * k - 1) = None"
proof (induction k)
  case (Suc k)
  then have "root_label ds ! (2 * k) = 254" by (simp add: root_label_nth)
  then show ?case using Suc by (simp add: MAX_LETTER_def)
qed simp

lemma root_search_found:
  assumes ds: "ds = es @ d # fs" and d: "d < 254"
  shows "length es < k \<Longrightarrow> k \<le> length ds \<Longrightarrow> \<forall>i. length es < i \<longrightarrow> i < k \<longrightarrow> ds ! i = 254
         \<Longrightarrow> root_search (root_label ds) (2 * k - 1) = Some (root_label (es @ Suc d # replicate (length fs) 1))"
proof (induction k)
  case (Suc k)
  have k: "root_label ds ! (2 * k) = ds ! k" using Suc.prems by (simp add: root_label_nth)
  show ?case
  proof (cases "k = length es")
    case True
    let ?l = "root_label ds" and ?r = "root_label (es @ Suc d # replicate (length fs) 1)"
    have "map (\<lambda>(i, x). if i > 2 * k \<and> even (i - 2 * k) then 1 else if i = 2 * k then x + 1 else x) (zip [0..<length ?l] ?l) = ?r"
    proof (rule nth_equalityI)
      fix i assume "i < length (map (\<lambda>(i, x). if i > 2 * k \<and> even (i - 2 * k) then 1 else if i = 2 * k then x + 1 else x) (zip [0..<length ?l] ?l))"
      then have i: "i < 2 * length ds - 1" "length (es @ Suc d # replicate (length fs) 1) = length ds" by (auto simp: root_label_length ds)
      then show "map (\<lambda>(i, x). if i > 2 * k \<and> even (i - 2 * k) then 1 else if i = 2 * k then x + 1 else x) (zip [0..<length ?l] ?l) ! i = ?r ! i"
        by (cases "even i") (auto simp: root_label_length root_label_nth ds True nth_append nth_Cons' simp del: upt_Suc elim!: evenE)
    qed (auto simp: root_label_length ds)
    moreover have "?l ! (2 * k) < MAX_LETTER" "2 * Suc k - 1 = Suc (2 * k)" using k d by (auto simp: ds True MAX_LETTER_def nth_append)
    ultimately show ?thesis by (simp only: root_search.simps if_True)
  next
    case False
    then show ?thesis using Suc k by (simp add: MAX_LETTER_def)
  qed
qed simp

lemma last_digit_cases:
  assumes "digits ds" "ds \<noteq> []"
  obtains (carry) es d k where "ds = es @ d # replicate k 254" "d < 254" | (full) "ds = replicate (length ds) 254"
  using assms
proof (induction ds arbitrary: thesis rule: rev_induct)
  case (snoc x xs)
  show ?case
  proof (cases "x < 254")
    case True
    then show ?thesis using snoc.prems(1)[of xs x 0] by simp
  next
    case False
    then have x: "x = 254" using snoc.prems(3) by simp
    show ?thesis
    proof (cases "xs = []")
      case True
      then show ?thesis using snoc.prems(2) x by simp
    next
      case False
      have d: "digits xs" using snoc.prems(3) by simp
      show ?thesis
      proof (rule snoc.IH[OF _ _ d False])
        fix es d k assume "xs = es @ d # replicate k 254" "d < 254"
        then show ?thesis using snoc.prems(1)[of es d "Suc k"] x by (simp add: replicate_append_same)
      next
        assume "xs = replicate (length xs) 254"
        then show ?thesis using snoc.prems(2) x by (metis length_append_singleton replicate_Suc replicate_append_same)
      qed
    qed
  qed
qed simp

lemma root_label_last: "root_label (ds @ [d]) = (if ds = [] then [d] else root_label ds @ [255, d])"
  by (induction ds rule: root_label.induct) auto

lemma root_label_ones: "root_label (replicate n 1) = map (\<lambda>i. if even i then 1 else 255) [0..<2 * n - 1]"
  by (rule nth_equalityI) (auto simp: root_label_length root_label_nth)

lemma updateEP_nid_succ:
  assumes d: "digits ds" and n: "length (root_label ds) \<noteq> 255"
  shows "updateEP_nid (root_label ds) = root_label (succ_digits ds)"
proof (cases "ds = []")
  case True
  then show ?thesis by (simp add: updateEP_nid_def succ_digits_def)
next
  case False
  have ne: "root_label ds \<noteq> []" using root_label_length[of ds] False by (cases ds) auto
  have l: "last (root_label ds) = last ds" using False by (cases ds rule: rev_cases) (auto simp: root_label_last)
  show ?thesis using d False
  proof (cases ds rule: last_digit_cases)
    case (carry es e k)
    show ?thesis
    proof (cases k)
      case 0
      then have ds: "ds = es @ [e]" using carry by simp
      have "(root_label ds)[length (root_label ds) - 1 := Suc e] = root_label (es @ [Suc e])" unfolding ds root_label_last by (simp add: list_update_append)
      then show ?thesis using n ne l carry 0 ds succ_digits_carry[of e es 0] by (simp add: updateEP_nid_def MAX_LETTER_def byte_def)
    next
      case (Suc m)
      have "last ds = 254" using carry Suc by simp
      moreover have "root_search (root_label ds) (2 * (length ds - 1) - 1) = Some (root_label (es @ Suc e # replicate k 1))"
        using root_search_found[OF carry(1,2), of "length ds - 1"] carry Suc by (auto simp: nth_append nth_Cons')
      moreover have "length (root_label ds) - 2 = 2 * (length ds - 1) - 1" by (simp add: root_label_length)
      ultimately show ?thesis using n ne l carry succ_digits_carry[of e es k] by (simp add: updateEP_nid_def MAX_LETTER_def)
    qed
  next
    case full
    let ?n = "length ds"
    have "last ds = 254" using full False by (metis last_replicate length_0_conv)
    moreover have "root_search (root_label ds) (2 * (?n - 1) - 1) = None" using full by (intro root_search_none) (simp, metis diff_le_self nth_replicate order_less_le_trans)
    moreover have e: "length (root_label ds) - 2 = 2 * (?n - 1) - 1" by (simp add: root_label_length)
    moreover have "length (root_label ds) + 2 = 2 * Suc ?n - 1" using False by (cases ds) (auto simp: root_label_length)
    ultimately show ?thesis using n ne l full succ_digits_full[of ?n] root_label_ones[of "Suc ?n"] by (simp add: updateEP_nid_def MAX_LETTER_def ALPHABET_SIZE_def del: upt_Suc)
  qed
qed

section \<open>Labels of different documents\<close>

text \<open>The label of the \<open>n\<close>-th document.\<close>

lemma digits_rev [simp]: "digits (rev ds) = digits ds"
  by (simp add: digits_def)

lemma succ_digits_rank: "digits ds \<Longrightarrow> digits (succ_digits ds) \<and> rank (succ_digits ds) = Suc (rank ds)"
  using rank_succ_rev[of "rev ds"] by (simp add: succ_digits_def)

lemma root_nid_rank:
  assumes "\<forall>m<n. length (root_nid m) \<noteq> 255"
  shows "\<exists>ds. root_nid n = root_label ds \<and> digits ds \<and> rank ds = n"
  using assms
proof (induction n)
  case 0
  then show ?case by (auto simp: root_nid_def intro!: exI[of _ "[]"])
next
  case (Suc n)
  then obtain ds where ds: "root_nid n = root_label ds" "digits ds" "rank ds = n" by auto
  have "root_nid (Suc n) = updateEP_nid (root_label ds)" using ds(1) by (simp add: root_nid_def)
  moreover have "length (root_label ds) \<noteq> 255" using Suc.prems ds(1) by (metis lessI)
  ultimately show ?case using updateEP_nid_succ[OF ds(2)] succ_digits_rank[OF ds(2)] ds(3) by auto
qed

text \<open>Of two documents' labels one comes before the other and neither is an ancestor's.\<close>

lemma root_labels_apart:
  assumes "digits ds" "digits es" "ds \<noteq> es" "ds \<noteq> []" "es \<noteq> []"
  shows "apart (root_label ds) (root_label es) \<or> apart (root_label es) (root_label ds)"
proof -
  have less: "apart (x # v) (y # w)" if "x < y" for x y :: nat and v w
    using that by (auto simp: apart_cases byte_less_def intro: exI[of _ "[]"])
  have cons: "apart (x # 255 # v) (x # 255 # w)" if "apart v w" for x v w
    using that unfolding apart_cases byte_less_def by (metis append_Cons)
  show ?thesis using assms
  proof (induction ds arbitrary: es rule: root_label.induct)
    case (2 d)
    then obtain e es' where es: "es = e # es'" by (cases es) auto
    show ?case
    proof (cases "d = e")
      case True
      then obtain x xs where "es' = x # xs" using 2 es by (cases es') auto
      then show ?thesis using True es by (auto simp: apart_cases)
    next
      case False
      then show ?thesis using less es by (cases es') (auto simp: neq_iff)
    qed
  next
    case (3 d d' ds)
    then obtain e es' where es: "es = e # es'" by (cases es) auto
    show ?case
    proof (cases "d = e")
      case True
      show ?thesis
      proof (cases es')
        case Nil
        then show ?thesis using True es by (auto simp: apart_cases)
      next
        case (Cons x xs)
        then have "apart (root_label (d' # ds)) (root_label (x # xs)) \<or> apart (root_label (x # xs)) (root_label (d' # ds))"
          using 3(1)[of "x # xs"] 3(2-) es True by auto
        then show ?thesis using Cons es True cons by auto
      qed
    next
      case False
      then show ?thesis using less es by (cases es') (auto simp: neq_iff)
    qed
  qed simp
qed

lemma root_nids_apart:
  assumes "0 < m" "m < n" "\<forall>k<n. length (root_nid k) \<noteq> 255"
  shows "apart (root_nid m) (root_nid n) \<or> apart (root_nid n) (root_nid m)"
proof -
  obtain ds where ds: "root_nid m = root_label ds" "digits ds" "rank ds = m" using root_nid_rank[of m] assms by auto
  obtain es where es: "root_nid n = root_label es" "digits es" "rank es = n" using root_nid_rank[of n] assms by auto
  have "ds \<noteq> es" "ds \<noteq> []" "es \<noteq> []" using ds es assms(1,2) by auto
  then show ?thesis using root_labels_apart[OF ds(2) es(2)] ds(1) es(1) by simp
qed

lemma root_label_ok: "digits ds \<Longrightarrow> ds \<noteq> [] \<Longrightarrow> tree_ok (Node (root_label ds) [])"
proof (induction ds rule: root_label.induct)
  case (3 d e ds)
  then show ?case by auto
qed auto

end
