(* ===== verification/NidArith.thy ===== *)
theory NidArith
  imports NidLex
begin

text \<open>
  What the arithmetic of labels computes: the operations of \<^verbatim>\<open>lex.cpp\<close> are those of numbers in base 255, as their
  comments say they are meant to be.
\<close>

primrec lexval :: "t_prefix \<Rightarrow> nat" where
  "lexval [] = 0"
| "lexval (d # ds) = d * 255 ^ length ds + lexval ds"

definition lexdigits :: "t_prefix \<Rightarrow> bool" where
  "lexdigits ds \<longleftrightarrow> (\<forall>d\<in>set ds. d < 255)"

lemma lexdigits_simps [simp]: "lexdigits []" "lexdigits (d # ds) \<longleftrightarrow> d < 255 \<and> lexdigits ds" "lexdigits (ds @ es) \<longleftrightarrow> lexdigits ds \<and> lexdigits es"
  by (auto simp: lexdigits_def)

lemma lexval_append: "lexval (ds @ es) = lexval ds * 255 ^ length es + lexval es"
  by (induction ds) (auto simp: algebra_simps power_add)

lemma lexval_less: "lexdigits ds \<Longrightarrow> lexval ds < 255 ^ length ds"
proof (induction ds)
  case (Cons d ds)
  then have "d * 255 ^ length ds + lexval ds < Suc d * 255 ^ length ds" by simp
  also have "\<dots> \<le> 255 * 255 ^ length ds" using Cons.prems by (intro mult_le_mono1) simp
  finally show ?case by simp
qed simp

text \<open>One digit of a result: what goes into the byte and what is carried.\<close>

lemma digit_carry: "byte (tmp mod ALPHABET_SIZE) = tmp mod 255" "tmp div ALPHABET_SIZE * 255 + tmp mod 255 = tmp"
  using mod_less_divisor[of 255 tmp] by (auto simp: byte_def ALPHABET_SIZE_def simp del: mod_less_divisor)

lemma carry_column:
  assumes "c' * P + v = x" "tmp = y + c'"
  shows "tmp div ALPHABET_SIZE * (255 * P) + (byte (tmp mod ALPHABET_SIZE) * P + v) = y * P + (x::nat)"
proof -
  have "tmp div ALPHABET_SIZE * (255 * P) + byte (tmp mod ALPHABET_SIZE) * P = (tmp div ALPHABET_SIZE * 255 + tmp mod 255) * P"
    by (simp add: digit_carry(1) algebra_simps)
  also have "\<dots> = (y + c') * P" using digit_carry(2)[of tmp] assms(2) by simp
  finally show ?thesis using assms(1) by (simp add: algebra_simps)
qed

lemma mult_digits_value:
  "mult_digits ds f = (c, rs) \<Longrightarrow> lexdigits ds \<Longrightarrow> length rs = length ds \<and> lexdigits rs \<and> c \<le> f \<and> c * 255 ^ length ds + lexval rs = lexval ds * f"
proof (induction ds arbitrary: c rs)
  case (Cons d ds)
  obtain c' rs' where r: "mult_digits ds f = (c', rs')" by (cases "mult_digits ds f")
  have IH: "length rs' = length ds" "lexdigits rs'" "c' \<le> f" "c' * 255 ^ length ds + lexval rs' = lexval ds * f" using Cons.IH[OF r] Cons.prems(2) by auto
  let ?t = "d * f + c'"
  have res: "c = ?t div ALPHABET_SIZE" "rs = byte (?t mod ALPHABET_SIZE) # rs'" using Cons.prems(1) r by (auto simp: Let_def)
  have "?t \<le> 254 * f + f" using Cons.prems(2) IH(3) by (intro add_mono mult_le_mono1) auto
  then have "c \<le> 255 * f div 255" unfolding res ALPHABET_SIZE_def by (intro div_le_mono) simp
  then show ?case using IH res carry_column[OF IH(4), of ?t "d * f"] by (simp add: digit_carry(1) algebra_simps)
qed simp

lemma lex_multiply_value: "lexdigits p \<Longrightarrow> f \<le> 255 \<Longrightarrow> lexval (lex_multiply p f) = lexval p * f"
proof -
  assume p: "lexdigits p" and f: "f \<le> 255"
  obtain c rs where r: "mult_digits p f = (c, rs)" by (cases "mult_digits p f")
  then show ?thesis using mult_digits_value[OF r p] f by (auto simp: lex_multiply_def byte_def)
qed

lemma divide_digits_value:
  "lexdigits ds \<Longrightarrow> r < n \<Longrightarrow> length (divide_digits ds n r) = length ds \<and> lexdigits (divide_digits ds n r)
     \<and> (\<exists>m<n. lexval (divide_digits ds n r) * n + m = r * 255 ^ length ds + lexval ds)"
proof (induction ds arbitrary: r)
  case (Cons d ds)
  let ?t = "d + 255 * r" let ?q = "?t div n"
  have n: "0 < n" "?t mod n < n" using Cons.prems(2) by auto
  obtain m where IH: "length (divide_digits ds n (?t mod n)) = length ds" "lexdigits (divide_digits ds n (?t mod n))" "m < n"
    "lexval (divide_digits ds n (?t mod n)) * n + m = ?t mod n * 255 ^ length ds + lexval ds" using Cons.IH[of "?t mod n"] Cons.prems n by auto
  have "?t < 255 * n" using Cons.prems by (auto simp: Suc_le_eq[symmetric] dest!: Suc_leI)
  then have q: "?q < 255" by (simp add: less_mult_imp_div_less)
  have "?q * n * 255 ^ length ds + ?t mod n * 255 ^ length ds = ?t * 255 ^ length ds" by (metis add_mult_distrib div_mult_mod_eq)
  then have "(?q * 255 ^ length ds + lexval (divide_digits ds n (?t mod n))) * n + m = r * 255 ^ Suc (length ds) + (d * 255 ^ length ds + lexval ds)"
    using IH(4) by (simp add: algebra_simps)
  then show ?case using IH q by (auto simp: Let_def ALPHABET_SIZE_def byte_def)
qed simp

lemma lex_divide_value:
  assumes "lexdigits p" "0 < n"
  shows "lexval (lex_divide p n) = lexval p div n"
proof (cases "p = []")
  case False
  obtain m where m: "m < n" "lexval (divide_digits p n 0) * n + m = lexval p" using divide_digits_value[OF assms] by auto
  have "lexval p div n = lexval (divide_digits p n 0)" unfolding m(2)[symmetric] using m(1) by simp
  then show ?thesis using False assms(2) by (simp add: lex_divide_def)
qed (simp add: lex_divide_def)

lemma add_digits_value:
  "add_digits as bs = (c, rs) \<Longrightarrow> length as = length bs \<Longrightarrow> lexdigits as \<Longrightarrow> lexdigits bs
     \<Longrightarrow> length rs = length as \<and> lexdigits rs \<and> c \<le> 1 \<and> c * 255 ^ length as + lexval rs = lexval as + lexval bs"
proof (induction as bs arbitrary: c rs rule: add_digits.induct)
  case (1 a as b bs)
  obtain c' rs' where r: "add_digits as bs = (c', rs')" by (cases "add_digits as bs")
  have IH: "length rs' = length as" "lexdigits rs'" "c' \<le> 1" "c' * 255 ^ length as + lexval rs' = lexval as + lexval bs" using 1(1)[OF r] 1(3-) by auto
  let ?t = "a + b + c'"
  have res: "c = ?t div ALPHABET_SIZE" "rs = byte (?t mod ALPHABET_SIZE) # rs'" using 1(2) r by (auto simp: Let_def)
  have "c \<le> 1" unfolding res ALPHABET_SIZE_def using 1(4,5) IH(3) div_le_mono[of ?t 509 255] by simp
  then show ?case using IH res 1(3) carry_column[OF IH(4), of ?t "a + b"] by (simp add: digit_carry(1) algebra_simps)
qed auto

lemma add_carry_value:
  "add_carry ds v0 = (c, rs) \<Longrightarrow> lexdigits ds \<Longrightarrow> v0 \<le> 1 \<Longrightarrow> length rs = length ds \<and> lexdigits rs \<and> c \<le> 1 \<and> c * 255 ^ length ds + lexval rs = lexval ds + v0"
proof (induction ds arbitrary: c rs)
  case (Cons d ds)
  obtain c' rs' where r: "add_carry ds v0 = (c', rs')" by (cases "add_carry ds v0")
  have IH: "length rs' = length ds" "lexdigits rs'" "c' \<le> 1" "c' * 255 ^ length ds + lexval rs' = lexval ds + v0" using Cons.IH[OF r] Cons.prems(2,3) by auto
  let ?t = "d + c'"
  have res: "c = ?t div ALPHABET_SIZE" "rs = byte (?t mod ALPHABET_SIZE) # rs'" using Cons.prems(1) r by (auto simp: Let_def)
  have "c \<le> 1" unfolding res ALPHABET_SIZE_def using Cons.prems(2) IH(3) div_le_mono[of ?t 509 255] by simp
  then show ?case using IH res carry_column[OF IH(4), of ?t d] by (simp add: digit_carry(1) algebra_simps)
qed simp

lemma lex_sum_value:
  assumes "lexdigits p" "lexdigits q"
  shows "lexval (lex_sum p q) = lexval p + lexval q"
proof -
  define long short where ls: "long = (if length p > length q then p else q)" "short = (if length p > length q then q else p)"
  let ?k = "length long - length short" let ?l = "drop ?k long" let ?h = "take ?k long"
  have d: "lexdigits long" "lexdigits short" "length ?l = length short" "lexdigits ?l" "lexdigits ?h" "lexval p + lexval q = lexval long + lexval short"
    using assms ls by (auto simp: lexdigits_def dest: in_set_takeD in_set_dropD)
  have v: "lexval long = lexval ?h * 255 ^ length short + lexval ?l" using lexval_append[of ?h ?l] d(3) by simp
  obtain c rs where r: "add_digits ?l short = (c, rs)" by (cases "add_digits ?l short")
  have A: "length rs = length short" "c \<le> 1" "c * 255 ^ length short + lexval rs = lexval ?l + lexval short" using add_digits_value[OF r d(3,4,2)] d(3) by auto
  obtain e hs where r': "add_carry ?h c = (e, hs)" by (cases "add_carry ?h c")
  have B: "length hs = ?k" "e \<le> 1" "e * 255 ^ ?k + lexval hs = lexval ?h + c" using add_carry_value[OF r' d(5) A(2)] by auto
  have s: "lex_sum p q = (if c \<noteq> 0 then (if e \<noteq> 0 then byte e # hs @ rs else hs @ rs) else ?h @ rs)"
    unfolding lex_sum_def Let_def using r r' ls by (auto split: if_splits)
  moreover have "byte e = e" using B(2) by (simp add: byte_def)
  ultimately have "lexval (lex_sum p q) = (e * 255 ^ ?k + lexval hs) * 255 ^ length short + lexval rs" if "c \<noteq> 0"
    using that B(1) A(1) by (auto simp: lexval_append power_add algebra_simps)
  then have "lexval (lex_sum p q) = (lexval ?h + c) * 255 ^ length short + lexval rs"
    using s A(1) unfolding B(3) by (cases "c = 0") (auto simp: lexval_append)
  also have "\<dots> = lexval ?h * 255 ^ length short + (lexval ?l + lexval short)" using A(3) by (simp add: algebra_simps)
  finally show ?thesis using v d(6) by simp
qed

lemma subtract_digits_value:
  "subtract_digits bs ss = (c, rs) \<Longrightarrow> length bs = length ss \<Longrightarrow> lexdigits bs \<Longrightarrow> lexdigits ss
     \<Longrightarrow> length rs = length bs \<and> lexdigits rs \<and> c \<le> 1 \<and> lexval rs + lexval ss = c * 255 ^ length bs + lexval bs"
proof (induction bs ss arbitrary: c rs rule: subtract_digits.induct)
  case (1 big bs small ss)
  obtain c' rs' where r: "subtract_digits bs ss = (c', rs')" by (cases "subtract_digits bs ss")
  have IH: "length rs' = length bs" "lexdigits rs'" "c' \<le> 1" "lexval rs' + lexval ss = c' * 255 ^ length bs + lexval bs" using 1(1)[OF r] 1(3-) by auto
  have d: "big < 255" "small < 255" using 1(4,5) by auto
  show ?case
  proof (cases "big < small + c'")
    case True
    then have res: "c = 1" "rs = byte (big + 255 - small - c') # rs'" using 1(2) r by (auto simp: ALPHABET_SIZE_def)
    have b: "byte (big + 255 - small - c') + small + c' = big + 255" "byte (big + 255 - small - c') < 255" using True d IH(3) by (auto simp: byte_def)
    then have "(byte (big + 255 - small - c') + small + c') * 255 ^ length bs = (big + 255) * 255 ^ length bs" by simp
    then show ?thesis using IH res b(2) 1(3) by (simp add: algebra_simps)
  next
    case False
    then have res: "c = 0" "rs = byte (big - small - c') # rs'" using 1(2) r by auto
    have b: "byte (big - small - c') + small + c' = big" "byte (big - small - c') < 255" using False d by (auto simp: byte_def)
    then have "(byte (big - small - c') + small + c') * 255 ^ length bs = big * 255 ^ length bs" by simp
    then show ?thesis using IH res b(2) 1(3) by (simp add: algebra_simps)
  qed
qed auto

lemma lex_subtract_value:
  assumes "lexdigits p" "lexdigits q" "length p = length q" "lexval q \<le> lexval p"
  shows "lexval (lex_subtract p q) = lexval p - lexval q"
proof -
  obtain c rs where r: "subtract_digits p q = (c, rs)" by (cases "subtract_digits p q")
  have A: "length rs = length p" "lexdigits rs" "c \<le> 1" "lexval rs + lexval q = c * 255 ^ length p + lexval p" using subtract_digits_value[OF r assms(3,1,2)] by auto
  have "c = 0"
  proof (rule ccontr)
    assume "c \<noteq> 0"
    then have "lexval rs + lexval q = 255 ^ length p + lexval p" using A(3,4) by (simp add: le_Suc_eq)
    then show False using lexval_less[OF A(2)] A(1) assms(4) by simp
  qed
  then show ?thesis using A(4) r assms(3) by (simp add: lex_subtract_def lex_allign_def)
qed

end
