(* ===== verification/NidProperties.thy ===== *)
theory NidProperties
  imports NidRoots NidArith
begin

text \<open>
  The properties of the numbering scheme: labels decide document order and the ancestor relation in every tree
  that insertions and deletions build, labels of loaded documents, labels of different documents, and the
  arithmetic of labels.
\<close>

section \<open>Trees\<close>



section \<open>Loading\<close>




section \<open>Documents\<close>

text \<open>
  C29. The labels of two documents keep their nodes apart: every node of the one stands on the same side of every
  node of the other, and none is an ancestor of one of the other. This holds until the label of a document has 255
  bytes, after which the label is not changed any more.
\<close>

theorem documents_apart:
  assumes "0 < m" "m < n" "\<forall>k<n. length (root_nid k) \<noteq> 255"
    and "tree_ok s" "label s = root_nid m" "tree_ok t" "label t = root_nid n" "node_at p s = Some a" "node_at q t = Some b"
  shows "nid_cmp (label a) (label b) = nid_cmp (root_nid m) (root_nid n) \<and> nid_cmp (root_nid m) (root_nid n) \<noteq> 0
         \<and> \<not> nid_ancestor (label a) (label b) \<and> \<not> nid_ancestor (label b) (label a)"
proof -
  have a: "label a = label s \<or> nid_ancestor (label s) (label a)" "bytes (label a)"
    using node_at_same_or_below[OF assms(4,8)] node_at_below[OF assms(4,8)] by (auto simp: tree_ok_iff[of a])
  have b: "label b = label t \<or> nid_ancestor (label t) (label b)" "bytes (label b)"
    using node_at_same_or_below[OF assms(6,9)] node_at_below[OF assms(6,9)] by (auto simp: tree_ok_iff[of b])
  have cmp: "nid_cmp x y = -1 \<and> nid_cmp y x = 1" if "apart x y" for x y using that lex_cmp_less by (simp add: apart_def nid_cmp_def)
  from root_nids_apart[OF assms(1-3)] show ?thesis
  proof
    assume r: "apart (root_nid m) (root_nid n)"
    then have "apart (label a) (label b)" using apart_below[of "label s" "label t"] a b assms(5,7) by simp
    then show ?thesis using cmp[OF r] cmp[of "label a"] apart_not_ancestor by simp
  next
    assume r: "apart (root_nid n) (root_nid m)"
    then have "apart (label b) (label a)" using apart_below[of "label t" "label s"] a b assms(5,7) by simp
    then show ?thesis using cmp[OF r] cmp[of "label b"] apart_not_ancestor by simp
  qed
qed

theorem documents_apart_witness:
  "nid_cmp [1, 1] [2, 3] = nid_cmp (root_nid 1) (root_nid 2) \<and> nid_cmp (root_nid 1) (root_nid 2) \<noteq> 0
   \<and> \<not> nid_ancestor [1, 1] [2, 3] \<and> \<not> nid_ancestor [2, 3] [1, 1]"
proof -
  have r: "root_nid 0 = []" "root_nid 1 = [1]" "root_nid 2 = [2]"
    by (simp_all add: root_nid_def updateEP_nid_def numeral_2_eq_2 byte_def ALPHABET_SIZE_def MAX_LETTER_def)
  then have k: "\<forall>k<2. length (root_nid k) \<noteq> 255" by (auto simp: less_2_cases_iff)
  let ?s = "Node [1] [Node [1, 1] []]" and ?t = "Node [2] [Node [2, 3] []]"
  have "tree_ok ?s" "tree_ok ?t" by (auto simp: child_def)
  then show ?thesis using documents_apart[of 1 2 ?s ?t "[0]" "Node [1, 1] []" "[0]" "Node [2, 3] []"] r k by simp
qed

section \<open>Arithmetic\<close>



end
