(* ===== verification/SeqSort.thy ===== *)
theory SeqSort
  imports Prelude "HOL-Library.Multiset"
begin

text \<open>
  The sort of node sequences, \<^verbatim>\<open>sort_template\<close> of \<^verbatim>\<open>kernel/tr/executor/base/xptr_sequence.cpp\<close>: insertion sort of short
  segments, and otherwise a partition into four parts around a pseudomedian. The sequence is the list of its
  entries. The bounds \<open>c\<close> and \<open>d\<close> of the source can become \<open>-1\<close>; the model keeps the indices behind them. How far
  the recursion goes depends on the comparator, so it has fuel; the length of the segment is enough.
\<close>

section \<open>Steps\<close>

definition seq_swap :: "'a list \<Rightarrow> nat \<Rightarrow> nat \<Rightarrow> 'a list" where
  "seq_swap xs a b = (if a = b then xs else xs[a := xs ! b, b := xs ! a])"

primrec vecswap :: "'a list \<Rightarrow> nat \<Rightarrow> nat \<Rightarrow> nat \<Rightarrow> 'a list" where
  "vecswap xs a b 0 = xs"
| "vecswap xs a b (Suc n) = vecswap (seq_swap xs a b) (a + 1) (b + 1) n"

definition med3 :: "('a \<Rightarrow> 'a \<Rightarrow> int) \<Rightarrow> 'a list \<Rightarrow> nat \<Rightarrow> nat \<Rightarrow> nat \<Rightarrow> nat" where
  "med3 cmp xs a b c =
     (if cmp (xs ! a) (xs ! b) < 0
      then if cmp (xs ! b) (xs ! c) < 0 then b else if cmp (xs ! a) (xs ! c) < 0 then c else a
      else if cmp (xs ! c) (xs ! b) < 0 then b else if cmp (xs ! c) (xs ! a) < 0 then c else a)"

text \<open>The inner loop of the insertion sort, and the sort.\<close>

primrec sift :: "('a \<Rightarrow> 'a \<Rightarrow> int) \<Rightarrow> nat \<Rightarrow> nat \<Rightarrow> 'a list \<Rightarrow> 'a list" where
  "sift cmp off 0 xs = xs"
| "sift cmp off (Suc j) xs =
     (if Suc j > off \<and> cmp (xs ! Suc j) (xs ! j) < 0 then sift cmp off j (seq_swap xs (Suc j) j) else xs)"

definition insertion_sort :: "('a \<Rightarrow> 'a \<Rightarrow> int) \<Rightarrow> nat \<Rightarrow> nat \<Rightarrow> 'a list \<Rightarrow> 'a list" where
  "insertion_sort cmp off len xs = fold (sift cmp off) [off..<off + len] xs"

definition choose_pivot :: "('a \<Rightarrow> 'a \<Rightarrow> int) \<Rightarrow> 'a list \<Rightarrow> nat \<Rightarrow> nat \<Rightarrow> nat" where
  "choose_pivot cmp xs off len =
     (let m = off + len div 2
      in if len > 7 then
           (let l = off; n = off + len - 1
            in if len > 40 then
                 (let s = len div 8
                  in med3 cmp xs (med3 cmp xs l (l + s) (l + 2 * s)) (med3 cmp xs (m - s) m (m + s)) (med3 cmp xs (n - 2 * s) (n - s) n))
               else med3 cmp xs l m n)
         else m)"

text \<open>The two inner loops of the partition, up and down; \<open>c\<close> and \<open>d\<close> are one behind the source's.\<close>

function part_up :: "('a \<Rightarrow> 'a \<Rightarrow> int) \<Rightarrow> 'a \<Rightarrow> nat \<Rightarrow> 'a list \<Rightarrow> nat \<Rightarrow> nat \<Rightarrow> 'a list \<times> nat \<times> nat" where
  "part_up cmp v c xs a b =
     (if b < c \<and> cmp (xs ! b) v \<le> 0
      then if xs ! b = v then part_up cmp v c (seq_swap xs a b) (a + 1) (b + 1) else part_up cmp v c xs a (b + 1)
      else (xs, a, b))"
  by pat_completeness auto
termination by (relation "measure (\<lambda>(cmp, v, c, xs, a, b). c - b)") auto

function part_down :: "('a \<Rightarrow> 'a \<Rightarrow> int) \<Rightarrow> 'a \<Rightarrow> nat \<Rightarrow> 'a list \<Rightarrow> nat \<Rightarrow> nat \<Rightarrow> 'a list \<times> nat \<times> nat" where
  "part_down cmp v b xs c d =
     (if c > b \<and> cmp v (xs ! (c - 1)) \<le> 0
      then if xs ! (c - 1) = v then part_down cmp v b (seq_swap xs (c - 1) (d - 1)) (c - 1) (d - 1) else part_down cmp v b xs (c - 1) d
      else (xs, c, d))"
  by pat_completeness auto
termination by (relation "measure (\<lambda>(cmp, v, b, xs, c, d). c)") auto

declare part_up.simps [simp del] part_down.simps [simp del]

text \<open>
  The outer loop of the partition. In each round both inner loops start where the last one ended, and the
  exchange brings the bounds together, so that their distance is enough fuel.
\<close>

primrec partition_loop :: "nat \<Rightarrow> ('a \<Rightarrow> 'a \<Rightarrow> int) \<Rightarrow> 'a \<Rightarrow> 'a list \<Rightarrow> nat \<Rightarrow> nat \<Rightarrow> nat \<Rightarrow> nat \<Rightarrow> ('a list \<times> nat \<times> nat \<times> nat \<times> nat) option" where
  "partition_loop 0 cmp v xs a b c d = None"
| "partition_loop (Suc fuel) cmp v xs a b c d =
     (case part_up cmp v c xs a b of
        (xs1, a1, b1) \<Rightarrow>
          (case part_down cmp v b1 xs1 c d of
             (xs2, c1, d1) \<Rightarrow>
               if b1 \<ge> c1 then Some (xs2, a1, b1, c1, d1)
               else partition_loop fuel cmp v (seq_swap xs2 b1 (c1 - 1)) a1 (b1 + 1) (c1 - 1) d1))"

primrec sort_template :: "nat \<Rightarrow> ('a \<Rightarrow> 'a \<Rightarrow> int) \<Rightarrow> 'a list \<Rightarrow> nat \<Rightarrow> nat \<Rightarrow> 'a list option" where
  "sort_template 0 cmp xs off len = (if len < 7 then Some (insertion_sort cmp off len xs) else None)"
| "sort_template (Suc fuel) cmp xs off len =
     (if len < 7 then Some (insertion_sort cmp off len xs)
      else let v = xs ! choose_pivot cmp xs off len
           in case partition_loop (Suc len) cmp v xs off off (off + len) (off + len) of
                None \<Rightarrow> None
              | Some (xs1, a, b, c, d) \<Rightarrow>
                  let n = off + len;
                      s = min (a - off) (b - a);
                      xs2 = vecswap xs1 off (b - s) s;
                      s' = min (d - c) (n - d);
                      xs3 = vecswap xs2 b (n - s') s'
                  in case (if b - a > 1 then sort_template fuel cmp xs3 off (b - a) else Some xs3) of
                       None \<Rightarrow> None
                     | Some xs4 \<Rightarrow> if d - c > 1 then sort_template fuel cmp xs4 (n - (d - c)) (d - c) else Some xs4)"

section \<open>Segments\<close>

text \<open>The entries from \<open>off\<close> to before \<open>n\<close> are permuted and the others stay.\<close>

definition seg_perm :: "nat \<Rightarrow> nat \<Rightarrow> 'a list \<Rightarrow> 'a list \<Rightarrow> bool" where
  "seg_perm off n xs ys \<longleftrightarrow> length ys = length xs \<and> mset ys = mset xs \<and> (\<forall>i<length xs. i < off \<or> n \<le> i \<longrightarrow> ys ! i = xs ! i)"

text \<open>The invariant the source states for its partition, on the segment from \<open>off\<close> to before \<open>n\<close>.\<close>

definition part_inv :: "('a \<Rightarrow> 'a \<Rightarrow> int) \<Rightarrow> 'a \<Rightarrow> nat \<Rightarrow> nat \<Rightarrow> 'a list \<Rightarrow> nat \<Rightarrow> nat \<Rightarrow> nat \<Rightarrow> nat \<Rightarrow> bool" where
  "part_inv cmp v off n xs a b c d \<longleftrightarrow>
     off \<le> a \<and> a \<le> b \<and> b \<le> c \<and> c \<le> d \<and> d \<le> n \<and> n \<le> length xs
     \<and> (\<forall>i. off \<le> i \<longrightarrow> i < a \<longrightarrow> xs ! i = v) \<and> (\<forall>i. a \<le> i \<longrightarrow> i < b \<longrightarrow> cmp (xs ! i) v < 0)
     \<and> (\<forall>i. c \<le> i \<longrightarrow> i < d \<longrightarrow> cmp v (xs ! i) < 0) \<and> (\<forall>i. d \<le> i \<longrightarrow> i < n \<longrightarrow> xs ! i = v)"

lemma seg_perm_refl [simp]: "seg_perm off n xs xs"
  by (simp add: seg_perm_def)

lemma seg_perm_trans: "seg_perm off n xs ys \<Longrightarrow> seg_perm off n ys zs \<Longrightarrow> seg_perm off n xs zs"
  by (simp add: seg_perm_def)

lemma seg_perm_sym: "seg_perm off n xs ys \<Longrightarrow> seg_perm off n ys xs"
  by (simp add: seg_perm_def)

lemma seg_perm_wider: "seg_perm off n xs ys \<Longrightarrow> off' \<le> off \<Longrightarrow> n \<le> n' \<Longrightarrow> seg_perm off' n' xs ys"
  by (auto simp: seg_perm_def)

lemma seg_perm_swap: "a < length xs \<Longrightarrow> b < length xs \<Longrightarrow> off \<le> a \<Longrightarrow> off \<le> b \<Longrightarrow> a < n \<Longrightarrow> b < n \<Longrightarrow> seg_perm off n xs (seq_swap xs a b)"
  by (auto simp: seg_perm_def seq_swap_def mset_swap nth_list_update)

lemma seq_swap_nth: "a < length xs \<Longrightarrow> b < length xs \<Longrightarrow> i < length xs \<Longrightarrow> seq_swap xs a b ! i = (if i = a then xs ! b else if i = b then xs ! a else xs ! i)"
  by (auto simp: seq_swap_def nth_list_update)

lemma seq_swap_length [simp]: "length (seq_swap xs a b) = length xs"
  by (simp add: seq_swap_def)

text \<open>What holds of all entries of a segment holds after it is permuted.\<close>

lemma seg_perm_slice:
  assumes "seg_perm off n xs ys" "off \<le> n" "n \<le> length xs"
  shows "mset (take (n - off) (drop off ys)) = mset (take (n - off) (drop off xs))"
proof -
  have l: "length ys = length xs" using assms(1) by (simp add: seg_perm_def)
  have t: "take off ys = take off xs" using assms l by (intro nth_equalityI) (auto simp: seg_perm_def)
  have d: "drop n ys = drop n xs" using assms l by (intro nth_equalityI) (auto simp: seg_perm_def)
  have s: "zs = take off zs @ take (n - off) (drop off zs) @ drop n zs" for zs :: "'a list"
    using assms(2) by (metis append_take_drop_id drop_drop le_add_diff_inverse2)
  have "mset ys = mset (take off ys) + mset (take (n - off) (drop off ys)) + mset (drop n ys)" using s[of ys] by (metis mset_append add.assoc)
  moreover have "mset xs = mset (take off xs) + mset (take (n - off) (drop off xs)) + mset (drop n xs)" using s[of xs] by (metis mset_append add.assoc)
  ultimately show ?thesis using assms(1) t d by (simp add: seg_perm_def)
qed

lemma seg_perm_all:
  assumes "seg_perm off n xs ys" "n \<le> length xs" "\<And>i. off \<le> i \<Longrightarrow> i < n \<Longrightarrow> P (xs ! i)" "off \<le> i" "i < n"
  shows "P (ys ! i)"
proof -
  have on: "off \<le> n" using assms(4,5) by simp
  have l: "length ys = length xs" using assms(1) by (simp add: seg_perm_def)
  have "ys ! i \<in> set (take (n - off) (drop off ys))" using assms(2,4,5) l by (auto simp: in_set_conv_nth intro!: exI[of _ "i - off"])
  then have "ys ! i \<in> set (take (n - off) (drop off xs))" using seg_perm_slice[OF assms(1) on assms(2)] by (metis mset_eq_setD)
  then obtain k where "k < n - off" "xs ! (off + k) = ys ! i" using assms(2) by (auto simp: in_set_conv_nth)
  then show ?thesis using assms(3)[of "off + k"] by simp
qed

lemma vecswap_length [simp]: "length (vecswap xs a b n) = length xs"
  by (induction n arbitrary: xs a b) auto

lemma vecswap_nth:
  assumes "a + n \<le> b" "b + n \<le> length xs" "i < length xs"
  shows "vecswap xs a b n ! i = (if a \<le> i \<and> i < a + n then xs ! (b + (i - a)) else if b \<le> i \<and> i < b + n then xs ! (a + (i - b)) else xs ! i)"
  using assms
proof (induction n arbitrary: xs a b)
  case (Suc n)
  have "vecswap (seq_swap xs a b) (a + 1) (b + 1) n ! i
        = (if a + 1 \<le> i \<and> i < a + 1 + n then seq_swap xs a b ! (b + 1 + (i - (a + 1)))
           else if b + 1 \<le> i \<and> i < b + 1 + n then seq_swap xs a b ! (a + 1 + (i - (b + 1))) else seq_swap xs a b ! i)"
    using Suc.prems by (intro Suc.IH) auto
  note e = this
  consider "i = a" | "i = b" | "i \<noteq> b" "a < i" "i < a + 1 + n" | "i \<noteq> a" "b < i" "i < b + 1 + n"
    | "i \<noteq> a" "i \<noteq> b" "\<not> (a < i \<and> i < a + 1 + n)" "\<not> (b < i \<and> i < b + 1 + n)"
    by blast
  then show ?case
  proof cases
    case 3
    then obtain k where "i = Suc (a + k)" using less_imp_Suc_add by blast
    with 3 e Suc.prems show ?thesis by (simp add: seq_swap_nth)
  next
    case 4
    then obtain k where "i = Suc (b + k)" using less_imp_Suc_add by blast
    with 4 e Suc.prems show ?thesis by (simp add: seq_swap_nth)
  next
    case 5
    with e Suc.prems show ?thesis by (auto simp: seq_swap_nth)
  qed (use e Suc.prems in \<open>simp_all add: seq_swap_nth\<close>)
qed auto

lemma seg_perm_vecswap: "off \<le> a \<Longrightarrow> off \<le> b \<Longrightarrow> a + k \<le> n \<Longrightarrow> b + k \<le> n \<Longrightarrow> n \<le> length xs \<Longrightarrow> seg_perm off n xs (vecswap xs a b k)"
proof (induction k arbitrary: xs a b)
  case (Suc k)
  have "seg_perm off n xs (seq_swap xs a b)" using Suc.prems by (intro seg_perm_swap) auto
  moreover have "seg_perm off n (seq_swap xs a b) (vecswap (seq_swap xs a b) (a + 1) (b + 1) k)" using Suc.prems by (intro Suc.IH) auto
  ultimately show ?case using seg_perm_trans by auto
qed simp

text \<open>Two parts next to each other change places when the shorter one is exchanged with the other end.\<close>

lemma exchanged_index:
  assumes "t < l + r" "s = min l r" "l + r = s + u"
  shows "t < s \<Longrightarrow> t < r \<and> l \<le> u + t \<and> u + t < l + r"
    and "\<not> t < s \<Longrightarrow> u \<le> t \<Longrightarrow> \<not> t < r \<and> t - u < l"
    and "\<not> t < s \<Longrightarrow> \<not> u \<le> t \<Longrightarrow> if t < r then l \<le> t else t < (l::nat)"
    and "s \<le> u"
  using assms by (auto simp: min_def split: if_splits)

lemma vecswap_parts:
  assumes pm: "p \<le> m" "m \<le> q" "q \<le> length xs" and P: "\<forall>i. p \<le> i \<longrightarrow> i < m \<longrightarrow> P (xs ! i)" and Q: "\<forall>i. m \<le> i \<longrightarrow> i < q \<longrightarrow> Q (xs ! i)"
    and s: "s = min (m - p) (q - m)" and i: "p \<le> i" "i < q"
  shows "if i < p + (q - m) then Q (vecswap xs p (q - s) s ! i) else P (vecswap xs p (q - s) s ! i)"
proof -
  obtain l where m: "m = p + l" using pm(1) le_iff_add by blast
  obtain r where q: "q = p + l + r" using pm(2) m le_iff_add by blast
  obtain t where t: "i = p + t" using i(1) le_iff_add by blast
  have s': "s = min l r" "t < l + r" using s i(2) m q t by simp_all
  have "s \<le> l + r" using s'(1) by simp
  then obtain u where u: "l + r = s + u" using le_iff_add by blast
  note x = exchanged_index[OF s'(2,1) u]
  have qs: "q - s = p + u" "i < p + (q - m) \<longleftrightarrow> t < r" using q m t u by auto
  have a: "p + s \<le> p + u" "p + u + s \<le> length xs" "i < length xs" "t < u + s" using x(4) u q pm(3) i(2) s'(2) by auto
  have e: "vecswap xs p (p + u) s ! i = (if t < s then xs ! (p + (u + t)) else if u \<le> t then xs ! (p + (t - u)) else xs ! (p + t))"
    using vecswap_nth[OF a(1-3)] a(4) by (simp add: t add.assoc)
  have P': "t' < l \<Longrightarrow> P (xs ! (p + t'))" and Q': "l \<le> t' \<Longrightarrow> t' < l + r \<Longrightarrow> Q (xs ! (p + t'))" for t' using P Q m q by simp_all
  consider "t < s" | "\<not> t < s" "u \<le> t" | "\<not> t < s" "\<not> u \<le> t" by blast
  then show ?thesis
  proof cases
    case 1
    then show ?thesis unfolding qs e using x(1)[OF 1] Q' by simp
  next
    case 2
    then show ?thesis unfolding qs e using x(2)[OF 2] P'[of "t - u"] by simp
  next
    case 3
    then show ?thesis unfolding qs e using x(3)[OF 3] P'[of t] Q'[of t] s'(2) by (simp split: if_splits)
  qed
qed

lemma vecswap_outside:
  assumes "p \<le> m" "m \<le> q" "q \<le> length xs" "s = min (m - p) (q - m)" "i < length xs" "i < p \<or> q \<le> i"
  shows "vecswap xs p (q - s) s ! i = xs ! i"
proof -
  have a: "p + s \<le> q - s" "q - s + s = q" using assms(1,2,4) by (auto simp: min_def)
  then have n: "\<not> (p \<le> i \<and> i < p + s)" "\<not> (q - s \<le> i \<and> i < q - s + s)" using assms(6) by linarith+
  have "q - s + s \<le> length xs" using a(2) assms(3) by simp
  then show ?thesis using vecswap_nth[OF a(1) _ assms(5)] by (simp only: n if_False)
qed

lemma med3_cases: "med3 cmp xs a b c \<in> {a, b, c}"
  by (auto simp: med3_def)

lemma choose_pivot_inside:
  assumes "0 < len"
  shows "choose_pivot cmp xs off len \<in> {off..<off + len}"
proof -
  have m: "med3 cmp xs a b c \<in> S" if "a \<in> S" "b \<in> S" "c \<in> S" for a b c S
    using med3_cases[of cmp xs a b c] that by auto
  show ?thesis using assms unfolding choose_pivot_def Let_def by (auto intro!: m simp del: atLeastLessThan_iff) auto
qed

section \<open>Sorting\<close>

text \<open>What a comparator promises: its sign is a linear order.\<close>

locale comparator =
  fixes cmp :: "'a \<Rightarrow> 'a \<Rightarrow> int"
  assumes cmp_zero: "cmp x y = 0 \<longleftrightarrow> x = y"
    and cmp_swap: "cmp x y < 0 \<longleftrightarrow> 0 < cmp y x"
    and cmp_trans: "cmp x y < 0 \<Longrightarrow> cmp y z < 0 \<Longrightarrow> cmp x z < 0"
begin

lemma le_trans: "cmp x y \<le> 0 \<Longrightarrow> cmp y z \<le> 0 \<Longrightarrow> cmp x z \<le> 0"
  using cmp_zero cmp_trans by (metis order_le_less)

lemma le_total: "\<not> cmp x y < 0 \<Longrightarrow> cmp y x \<le> 0"
  using cmp_swap[of y x] cmp_zero by (metis linorder_neqE_linordered_idom order_le_less)

lemma le_refl [simp]: "cmp x x = 0"
  by (simp add: cmp_zero)

lemma sift_sorts:
  assumes "off \<le> j" "j < length xs" "\<And>i k. off \<le> i \<Longrightarrow> i < k \<Longrightarrow> k < j \<Longrightarrow> cmp (xs ! i) (xs ! k) \<le> 0"
  shows "seg_perm off (Suc j) xs (sift cmp off j xs) \<and> (\<forall>i k. off \<le> i \<longrightarrow> i < k \<longrightarrow> k \<le> j \<longrightarrow> cmp (sift cmp off j xs ! i) (sift cmp off j xs ! k) \<le> 0)"
  using assms
proof (induction j arbitrary: xs)
  case (Suc j)
  show ?case
  proof (cases "Suc j > off \<and> cmp (xs ! Suc j) (xs ! j) < 0")
    case False
    have "cmp (xs ! i) (xs ! Suc j) \<le> 0" if "off \<le> i" "i < Suc j" for i
    proof -
      have "cmp (xs ! j) (xs ! Suc j) \<le> 0" using False that le_total by auto
      moreover have "cmp (xs ! i) (xs ! j) \<le> 0" using Suc.prems(3)[of i j] that by (cases "i = j") auto
      ultimately show ?thesis using le_trans by blast
    qed
    then show ?thesis using False Suc.prems(3) by (auto simp: le_Suc_eq)
  next
    case True
    let ?xs = "seq_swap xs (Suc j) j"
    let ?ys = "sift cmp off j ?xs"
    have n: "?xs ! i = (if i = j then xs ! Suc j else if i = Suc j then xs ! j else xs ! i)" if "i < length xs" for i
      using that Suc.prems(2) by (simp add: seq_swap_nth)
    have IH: "seg_perm off (Suc j) ?xs ?ys" "\<forall>i k. off \<le> i \<longrightarrow> i < k \<longrightarrow> k \<le> j \<longrightarrow> cmp (?ys ! i) (?ys ! k) \<le> 0"
      using Suc.IH[of ?xs] Suc.prems True n by auto
    have p: "seg_perm off (Suc (Suc j)) xs ?ys"
      using seg_perm_trans[OF seg_perm_swap[of "Suc j" xs j off "Suc (Suc j)"] seg_perm_wider[OF IH(1)]] Suc.prems True by auto
    have "?ys ! Suc j = xs ! j" using IH(1) Suc.prems(2) n by (simp add: seg_perm_def)
    moreover have "cmp (?ys ! i) (xs ! j) \<le> 0" if i: "off \<le> i" "i < Suc j" for i
    proof (rule seg_perm_all[OF IH(1) _ _ i, of "\<lambda>x. cmp x (xs ! j) \<le> 0"])
      show "cmp (?xs ! k) (xs ! j) \<le> 0" if "off \<le> k" "k < Suc j" for k
        using that n[of k] True Suc.prems(2) Suc.prems(3)[of k j] by (cases "k = j") auto
    qed (use Suc.prems in simp)
    ultimately show ?thesis using True p IH(2) by (auto simp: le_Suc_eq)
  qed
qed simp

lemma insertion_sorts:
  assumes "off + len \<le> length xs"
  shows "seg_perm off (off + len) xs (insertion_sort cmp off len xs)
         \<and> (\<forall>i k. off \<le> i \<longrightarrow> i < k \<longrightarrow> k < off + len \<longrightarrow> cmp (insertion_sort cmp off len xs ! i) (insertion_sort cmp off len xs ! k) \<le> 0)"
  using assms
proof (induction len)
  case 0
  then show ?case by (simp add: insertion_sort_def)
next
  case (Suc len)
  let ?ys = "insertion_sort cmp off len xs"
  have IH: "seg_perm off (off + len) xs ?ys" "\<And>i k. off \<le> i \<Longrightarrow> i < k \<Longrightarrow> k < off + len \<Longrightarrow> cmp (?ys ! i) (?ys ! k) \<le> 0"
    using Suc by auto
  have e: "insertion_sort cmp off (Suc len) xs = sift cmp off (off + len) ?ys" by (simp add: insertion_sort_def)
  have "length ?ys = length xs" using IH(1) by (simp add: seg_perm_def)
  then have s: "seg_perm off (Suc (off + len)) ?ys (sift cmp off (off + len) ?ys)"
    "\<forall>i k. off \<le> i \<longrightarrow> i < k \<longrightarrow> k \<le> off + len \<longrightarrow> cmp (sift cmp off (off + len) ?ys ! i) (sift cmp off (off + len) ?ys ! k) \<le> 0"
    using sift_sorts[of off "off + len" ?ys] IH(2) Suc.prems by auto
  show ?case unfolding e using seg_perm_trans[OF seg_perm_wider[OF IH(1)] s(1)] s(2) by simp
qed

lemma part_up_keeps:
  assumes "part_inv cmp v off n xs a b c d" "part_up cmp v c xs a b = (xs', a', b')"
  shows "part_inv cmp v off n xs' a' b' c d \<and> seg_perm off n xs xs' \<and> b \<le> b' \<and> (b' < c \<longrightarrow> 0 < cmp (xs' ! b') v)"
  using assms
proof (induction "c - b" arbitrary: xs a b rule: less_induct)
  case less
  have u: "part_up cmp v c xs a b =
     (if b < c \<and> cmp (xs ! b) v \<le> 0
      then if xs ! b = v then part_up cmp v c (seq_swap xs a b) (a + 1) (b + 1) else part_up cmp v c xs a (b + 1)
      else (xs, a, b))" by (rule part_up.simps)
  show ?case
  proof (cases "b < c \<and> cmp (xs ! b) v \<le> 0")
    case False
    then show ?thesis using less.prems u by auto
  next
    case True
    then have less: "c - (b + 1) < c - b" by linarith
    show ?thesis
    proof (cases "xs ! b = v")
      case True
      let ?xs = "seq_swap xs a b"
      have ab: "a < length xs" "b < length xs" "a \<le> b" "off \<le> a" "b < n" using less.prems(1) \<open>b < c \<and> _\<close> by (auto simp: part_inv_def)
      have "part_inv cmp v off n ?xs (a + 1) (b + 1) c d" using less.prems(1) True \<open>b < c \<and> _\<close>
        by (auto simp: part_inv_def seq_swap_nth less_Suc_eq)
      then have "part_inv cmp v off n xs' a' b' c d \<and> seg_perm off n ?xs xs' \<and> b + 1 \<le> b' \<and> (b' < c \<longrightarrow> 0 < cmp (xs' ! b') v)"
        using less.hyps[OF less, of ?xs "a + 1"] less.prems(2) u True \<open>b < c \<and> _\<close> by auto
      moreover have "seg_perm off n xs ?xs" using ab by (intro seg_perm_swap) auto
      ultimately show ?thesis using seg_perm_trans by auto
    next
      case False
      then have "cmp (xs ! b) v < 0" using \<open>b < c \<and> _\<close> cmp_zero by (auto simp: order_le_less)
      then have "part_inv cmp v off n xs a (b + 1) c d" using less.prems(1) \<open>b < c \<and> _\<close> by (auto simp: part_inv_def less_Suc_eq)
      then show ?thesis using less.hyps[OF less, of xs a] less.prems(2) u False \<open>b < c \<and> _\<close> by auto
    qed
  qed
qed

lemma part_down_keeps:
  assumes "part_inv cmp v off n xs a b c d" "part_down cmp v b xs c d = (xs', c', d')"
  shows "part_inv cmp v off n xs' a b c' d' \<and> seg_perm off n xs xs' \<and> c' \<le> c \<and> (\<forall>i<c'. xs' ! i = xs ! i) \<and> (b < c' \<longrightarrow> 0 < cmp v (xs' ! (c' - 1)))"
  using assms
proof (induction c arbitrary: xs d)
  case 0
  then show ?case by (auto simp: part_down.simps[of cmp v b xs 0])
next
  case (Suc c)
  have u: "part_down cmp v b xs (Suc c) d =
     (if c \<ge> b \<and> cmp v (xs ! c) \<le> 0
      then if xs ! c = v then part_down cmp v b (seq_swap xs c (d - 1)) c (d - 1) else part_down cmp v b xs c d
      else (xs, Suc c, d))" using part_down.simps[of cmp v b xs "Suc c" d] by (simp add: less_Suc_eq_le)
  show ?case
  proof (cases "c \<ge> b \<and> cmp v (xs ! c) \<le> 0")
    case False
    then show ?thesis using Suc.prems u by auto
  next
    case True
    show ?thesis
    proof (cases "xs ! c = v")
      case True
      let ?xs = "seq_swap xs c (d - 1)"
      have cd: "c < length xs" "d - 1 < length xs" "c \<le> d - 1" "off \<le> c" "d - 1 < n" "c < d" using Suc.prems(1) \<open>b \<le> c \<and> _\<close> by (auto simp: part_inv_def)
      have "part_inv cmp v off n ?xs a b c (d - 1)" using Suc.prems(1) True cd \<open>b \<le> c \<and> _\<close>
        by (auto simp: part_inv_def seq_swap_nth)
      then have IH: "part_inv cmp v off n xs' a b c' d'" "seg_perm off n ?xs xs'" "c' \<le> c" "\<forall>i<c'. xs' ! i = ?xs ! i" "b < c' \<longrightarrow> 0 < cmp v (xs' ! (c' - 1))"
        using Suc.IH[of ?xs "d - 1"] Suc.prems(2) u True \<open>b \<le> c \<and> _\<close> by auto
      moreover have "seg_perm off n xs ?xs" using cd by (intro seg_perm_swap) auto
      moreover have "\<forall>i<c'. xs' ! i = xs ! i" using IH(3,4) cd by (simp add: seq_swap_nth)
      ultimately show ?thesis using seg_perm_trans[of off n xs ?xs xs'] by auto
    next
      case False
      then have "cmp v (xs ! c) < 0" using \<open>b \<le> c \<and> _\<close> cmp_zero by (auto simp: order_le_less)
      moreover have k: "c \<le> i \<longleftrightarrow> i = c \<or> Suc c \<le> i" for i by auto
      ultimately have "part_inv cmp v off n xs a b c d" using Suc.prems(1) \<open>b \<le> c \<and> _\<close> by (auto simp: part_inv_def k)
      then show ?thesis using Suc.IH[of xs d] Suc.prems(2) u False \<open>b \<le> c \<and> _\<close> by auto
    qed
  qed
qed

lemma partition_loop_parts:
  assumes "part_inv cmp v off n xs a b c d" "c - b < fuel"
  shows "\<exists>xs' a' b' d'. partition_loop fuel cmp v xs a b c d = Some (xs', a', b', b', d') \<and> part_inv cmp v off n xs' a' b' b' d' \<and> seg_perm off n xs xs'"
  using assms
proof (induction fuel arbitrary: xs a b c d)
  case (Suc fuel)
  obtain xs1 a1 b1 where u: "part_up cmp v c xs a b = (xs1, a1, b1)" by (cases "part_up cmp v c xs a b")
  obtain xs2 c1 d1 where w: "part_down cmp v b1 xs1 c d = (xs2, c1, d1)" by (cases "part_down cmp v b1 xs1 c d")
  have U: "part_inv cmp v off n xs1 a1 b1 c d" "seg_perm off n xs xs1" "b \<le> b1" "b1 < c \<Longrightarrow> 0 < cmp (xs1 ! b1) v"
    using part_up_keeps[OF Suc.prems(1) u] by auto
  have W: "part_inv cmp v off n xs2 a1 b1 c1 d1" "seg_perm off n xs1 xs2" "c1 \<le> c" "\<forall>i<c1. xs2 ! i = xs1 ! i" "b1 < c1 \<Longrightarrow> 0 < cmp v (xs2 ! (c1 - 1))"
    using part_down_keeps[OF U(1) w] by auto
  have p: "seg_perm off n xs xs2" using seg_perm_trans[OF U(2) W(2)] .
  show ?case
  proof (cases "b1 \<ge> c1")
    case True
    then have "c1 = b1" using W(1) by (simp add: part_inv_def)
    then show ?thesis using u w W(1) p by simp
  next
    case False
    let ?xs = "seq_swap xs2 b1 (c1 - 1)"
    have hi: "0 < cmp (xs2 ! b1) v" "0 < cmp v (xs2 ! (c1 - 1))" using False U(4) W(3,4,5) by auto
    have lo: "cmp v (xs2 ! b1) < 0" "cmp (xs2 ! (c1 - 1)) v < 0" using hi cmp_swap by auto
    have ne: "b1 < c1 - 1"
    proof (rule ccontr)
      assume "\<not> b1 < c1 - 1"
      then have "b1 = c1 - 1" using False by linarith
      then show False using hi(1) lo(2) by simp
    qed
    have r: "b1 < length xs2" "c1 - 1 < length xs2" "off \<le> b1" "c1 - 1 < n" using ne W(1) by (auto simp: part_inv_def)
    have "part_inv cmp v off n ?xs a1 (b1 + 1) (c1 - 1) d1" using W(1) ne lo r
      by (auto simp: part_inv_def seq_swap_nth)
    moreover have "c1 - 1 - (b1 + 1) < fuel" using Suc.prems(2) U(3) W(3) ne by linarith
    moreover have "seg_perm off n xs2 ?xs" using r ne by (intro seg_perm_swap) auto
    ultimately obtain xs' a' b' d' where "partition_loop fuel cmp v ?xs a1 (b1 + 1) (c1 - 1) d1 = Some (xs', a', b', b', d')"
      "part_inv cmp v off n xs' a' b' b' d'" "seg_perm off n ?xs xs'" "seg_perm off n xs2 ?xs"
      using Suc.IH[of ?xs a1 "b1 + 1" "c1 - 1" d1] by blast
    moreover from this have "seg_perm off n xs xs'" using p seg_perm_trans by blast
    ultimately show ?thesis using u w False by simp
  qed
qed simp

text \<open>After the equal entries are back in the middle: the smaller ones, the equal ones, the greater ones.\<close>

lemma middle_parts:
  assumes I: "part_inv cmp v off n xs a b b d"
    and ys: "ys = vecswap xs off (b - min (a - off) (b - a)) (min (a - off) (b - a))"
    and zs: "zs = vecswap ys b (n - min (d - b) (n - d)) (min (d - b) (n - d))"
  shows "seg_perm off n xs zs \<and> (\<forall>i. off \<le> i \<longrightarrow> i < off + (b - a) \<longrightarrow> cmp (zs ! i) v < 0)
         \<and> (\<forall>i. off + (b - a) \<le> i \<longrightarrow> i < n - (d - b) \<longrightarrow> zs ! i = v) \<and> (\<forall>i. n - (d - b) \<le> i \<longrightarrow> i < n \<longrightarrow> cmp v (zs ! i) < 0)"
proof -
  note I' = I[unfolded part_inv_def]
  have b: "off \<le> a" "a \<le> b" "b \<le> d" "d \<le> n" "n \<le> length xs" using I' by auto
  have "seg_perm off n xs ys" unfolding ys using b by (intro seg_perm_vecswap) auto
  moreover have "seg_perm off n ys zs" unfolding zs using b ys by (intro seg_perm_vecswap) auto
  ultimately have p: "seg_perm off n xs zs" using seg_perm_trans by blast
  have left: "if i < off + (b - a) then cmp (ys ! i) v < 0 else ys ! i = v" if "off \<le> i" "i < b" for i
    unfolding ys using vecswap_parts[of off a b xs "\<lambda>x. x = v" "\<lambda>x. cmp x v < 0" _ i] I' that by auto
  have yr: "ys ! i = xs ! i" if "b \<le> i" "i < length xs" for i
    unfolding ys using b that by (intro vecswap_outside[of off a b xs]) auto
  have ly: "n \<le> length ys" using ys b(5) by simp
  have gt: "\<forall>i. b \<le> i \<longrightarrow> i < d \<longrightarrow> cmp v (ys ! i) < 0" and eq: "\<forall>i. d \<le> i \<longrightarrow> i < n \<longrightarrow> ys ! i = v" using I' yr b(3,4,5) by auto
  have right: "if i < b + (n - d) then zs ! i = v else cmp v (zs ! i) < 0" if "b \<le> i" "i < n" for i
    unfolding zs using vecswap_parts[of b d n ys "\<lambda>x. cmp v x < 0" "\<lambda>x. x = v", OF b(3,4) ly gt eq refl that] .
  have zl: "zs ! i = ys ! i" if "i < b" for i
    unfolding zs using b ly that by (intro vecswap_outside[of b d n ys]) auto
  have e: "n - (d - b) = b + (n - d)" using b by simp
  show ?thesis
  proof (intro conjI allI impI p)
    fix i assume "off \<le> i" "i < off + (b - a)"
    then show "cmp (zs ! i) v < 0" using left[of i] zl[of i] b by simp
  next
    fix i assume "off + (b - a) \<le> i" "i < n - (d - b)"
    then show "zs ! i = v" using left[of i] zl[of i] right[of i] b e by (cases "i < b") auto
  next
    fix i assume "n - (d - b) \<le> i" "i < n"
    then show "cmp v (zs ! i) < 0" using right[of i] e by simp
  qed
qed

text \<open>Both outer parts sorted, the whole segment is.\<close>

lemma parts_sorted:
  assumes "off \<le> p" "p \<le> q" "q \<le> n" "n \<le> length xs"
    and lt: "\<forall>i. off \<le> i \<longrightarrow> i < p \<longrightarrow> cmp (xs ! i) v < 0" and eq: "\<forall>i. p \<le> i \<longrightarrow> i < q \<longrightarrow> xs ! i = v" and gt: "\<forall>i. q \<le> i \<longrightarrow> i < n \<longrightarrow> cmp v (xs ! i) < 0"
    and ys: "seg_perm off p xs ys" "\<forall>i k. off \<le> i \<longrightarrow> i < k \<longrightarrow> k < p \<longrightarrow> cmp (ys ! i) (ys ! k) \<le> 0"
    and zs: "seg_perm q n ys zs" "\<forall>i k. q \<le> i \<longrightarrow> i < k \<longrightarrow> k < n \<longrightarrow> cmp (zs ! i) (zs ! k) \<le> 0"
  shows "seg_perm off n xs zs \<and> (\<forall>i k. off \<le> i \<longrightarrow> i < k \<longrightarrow> k < n \<longrightarrow> cmp (zs ! i) (zs ! k) \<le> 0)"
proof -
  have l: "length ys = length xs" using ys(1) by (simp add: seg_perm_def)
  have zy: "zs ! i = ys ! i" if "i < q" for i using zs(1) that assms(3,4) l by (auto simp: seg_perm_def)
  have yx: "ys ! i = xs ! i" if "p \<le> i" "i < n" for i using ys(1) that assms(4) by (auto simp: seg_perm_def)
  have yl: "cmp (ys ! i) v < 0" if "off \<le> i" "i < p" for i
    using seg_perm_all[OF ys(1), of "\<lambda>x. cmp x v < 0" i] lt that assms(1-4) by auto
  have zg: "cmp v (zs ! i) < 0" if "q \<le> i" "i < n" for i
    using seg_perm_all[OF zs(1), of "\<lambda>x. cmp v x < 0" i] gt yx that assms(1-4) l by auto
  have low: "cmp (zs ! i) v \<le> 0" if "off \<le> i" "i < q" for i using zy[of i] yl[of i] yx[of i] eq that assms(3) by (cases "i < p") auto
  have high: "cmp v (zs ! k) \<le> 0" if "p \<le> k" "k < n" for k using zy[of k] zg[of k] yx[of k] eq that by (cases "k < q") auto
  have "cmp (zs ! i) (zs ! k) \<le> 0" if h: "off \<le> i" "i < k" "k < n" for i k
  proof -
    consider "k < p" | "q \<le> i" | "i < q" "p \<le> k" by linarith
    then show ?thesis
    proof cases
      case 1
      then show ?thesis using ys(2) zy[of i] zy[of k] h assms(2) by auto
    next
      case 2
      then show ?thesis using zs(2) h by auto
    next
      case 3
      then show ?thesis using le_trans[OF low[of i] high[of k]] h by simp
    qed
  qed
  moreover have "seg_perm off n xs zs" using seg_perm_trans[OF seg_perm_wider[OF ys(1)] seg_perm_wider[OF zs(1)]] assms(1-3) by simp
  ultimately show ?thesis by blast
qed

text \<open>The entry that was chosen is in the middle, so that both outer parts are shorter than the segment.\<close>

lemma parts_shorter:
  assumes I: "part_inv cmp v off n xs a b b d" and i: "off \<le> i" "i < n" "xs ! i = v"
  shows "b - a < n - off \<and> d - b < n - off"
proof -
  have o: "off \<le> a" "a \<le> b" "b \<le> d" "d \<le> n" using I by (auto simp: part_inv_def)
  have "off < a \<or> d < n"
  proof (rule ccontr)
    assume "\<not> (off < a \<or> d < n)"
    then have "a = off" "d = n" using o by auto
    then have "cmp (xs ! i) v < 0 \<or> cmp v (xs ! i) < 0" using I i(1,2) by (cases "i < b") (auto simp: part_inv_def)
    then show False using i(3) by simp
  qed
  then show ?thesis using o by auto
qed

text \<open>The segment's length is enough fuel, and the sort returns the segment sorted.\<close>

lemma sort_template_sorts:
  assumes "off + len \<le> length xs" "len \<le> fuel"
  shows "\<exists>ys. sort_template fuel cmp xs off len = Some ys \<and> seg_perm off (off + len) xs ys
               \<and> (\<forall>i k. off \<le> i \<longrightarrow> i < k \<longrightarrow> k < off + len \<longrightarrow> cmp (ys ! i) (ys ! k) \<le> 0)"
  using assms
proof (induction fuel arbitrary: xs off len)
  case 0
  then show ?case using insertion_sorts[of off 0 xs] by simp
next
  case (Suc fuel)
  show ?case
  proof (cases "len < 7")
    case True
    then show ?thesis using insertion_sorts[of off len xs] Suc.prems(1) by auto
  next
    case False
    let ?n = "off + len" let ?v = "xs ! choose_pivot cmp xs off len"
    have pv: "choose_pivot cmp xs off len \<in> {off..<?n}" using False by (intro choose_pivot_inside) simp
    have "part_inv cmp ?v off ?n xs off off ?n ?n" using Suc.prems(1) by (simp add: part_inv_def)
    then obtain xs1 a b d where p: "partition_loop (Suc len) cmp ?v xs off off ?n ?n = Some (xs1, a, b, b, d)"
      and I: "part_inv cmp ?v off ?n xs1 a b b d" and q1: "seg_perm off ?n xs xs1"
      using partition_loop_parts[of ?v off ?n xs off off ?n ?n "Suc len"] by auto
    define xs2 where xs2: "xs2 = vecswap xs1 off (b - min (a - off) (b - a)) (min (a - off) (b - a))"
    define xs3 where xs3: "xs3 = vecswap xs2 b (?n - min (d - b) (?n - d)) (min (d - b) (?n - d))"
    have M: "seg_perm off ?n xs1 xs3" "\<forall>i. off \<le> i \<longrightarrow> i < off + (b - a) \<longrightarrow> cmp (xs3 ! i) ?v < 0"
      "\<forall>i. off + (b - a) \<le> i \<longrightarrow> i < ?n - (d - b) \<longrightarrow> xs3 ! i = ?v" "\<forall>i. ?n - (d - b) \<le> i \<longrightarrow> i < ?n \<longrightarrow> cmp ?v (xs3 ! i) < 0"
      using middle_parts[OF I xs2 xs3] by auto
    have q3: "seg_perm off ?n xs xs3" using seg_perm_trans[OF q1 M(1)] .
    have l3: "length xs3 = length xs" using q3 by (simp add: seg_perm_def)
    have o: "off \<le> a" "a \<le> b" "b \<le> d" "d \<le> ?n" using I by (auto simp: part_inv_def)
    obtain i where i: "off \<le> i" "i < ?n" "xs1 ! i = ?v"
      using seg_perm_all[OF seg_perm_sym[OF q1], of "\<lambda>x. x \<noteq> ?v" "choose_pivot cmp xs off len"] pv q1 Suc.prems(1) by (auto simp: seg_perm_def)
    have small: "b - a < len" "d - b < len" using parts_shorter[OF I i] by auto
    have rec: "\<exists>zs. (if s > 1 then sort_template fuel cmp ws p s else Some ws) = Some zs \<and> seg_perm p (p + s) ws zs
                 \<and> (\<forall>i k. p \<le> i \<longrightarrow> i < k \<longrightarrow> k < p + s \<longrightarrow> cmp (zs ! i) (zs ! k) \<le> 0)" if "p + s \<le> length ws" "s < len" for ws p s
      using Suc.IH[OF that(1)] that(2) Suc.prems(2) by (cases "s > 1") auto
    have low: "off + (b - a) \<le> length xs3" using small(1) l3 Suc.prems(1) by simp
    obtain xs4 where r1: "(if b - a > 1 then sort_template fuel cmp xs3 off (b - a) else Some xs3) = Some xs4"
      and s4: "seg_perm off (off + (b - a)) xs3 xs4" "\<forall>i k. off \<le> i \<longrightarrow> i < k \<longrightarrow> k < off + (b - a) \<longrightarrow> cmp (xs4 ! i) (xs4 ! k) \<le> 0"
      using rec[OF low small(1)] by blast
    have l4: "length xs4 = length xs" using s4(1) l3 by (simp add: seg_perm_def)
    have n: "?n - (d - b) + (d - b) = ?n" using o by simp
    then have high: "?n - (d - b) + (d - b) \<le> length xs4" using l4 Suc.prems(1) by simp
    obtain ys where r2: "(if d - b > 1 then sort_template fuel cmp xs4 (?n - (d - b)) (d - b) else Some xs4) = Some ys"
      and s5: "seg_perm (?n - (d - b)) ?n xs4 ys" "\<forall>i k. ?n - (d - b) \<le> i \<longrightarrow> i < k \<longrightarrow> k < ?n \<longrightarrow> cmp (ys ! i) (ys ! k) \<le> 0"
      using rec[OF high small(2), unfolded n] by blast
    have "seg_perm off ?n xs3 ys \<and> (\<forall>i k. off \<le> i \<longrightarrow> i < k \<longrightarrow> k < ?n \<longrightarrow> cmp (ys ! i) (ys ! k) \<le> 0)"
      using o l3 Suc.prems(1) by (intro parts_sorted[OF _ _ _ _ M(2,3,4) s4 s5]) auto
    moreover have "sort_template (Suc fuel) cmp xs off len = Some ys"
      by (simp only: sort_template.simps(2) False if_False Let_def p option.case prod.case xs2[symmetric] xs3[symmetric] r1 r2)
    ultimately show ?thesis using seg_perm_trans[OF q3] by blast
  qed
qed

end

end
