(* ===== verification/NodeSequence.thy ===== *)
theory NodeSequence
  imports NidTree SeqSort
begin

text \<open>
  Sequences of nodes, \<^verbatim>\<open>kernel/tr/executor/base/xptr_sequence.cpp\<close>: the first hundred entries are in memory and the
  others in temporary blocks. The two comparators the sort is used with, by label and by address, and pointers,
  \<^verbatim>\<open>kernel/common/xptr.h\<close>. How many entries a block holds depends on the size of its header and is a parameter.
  A pointer with layer 0 is null; the comparison of pointers for equality in the sort is that of values, which is
  the source's for all others.
\<close>

section \<open>Pointers\<close>

record xptr =
  layer :: int
  offs :: nat

definition xptr_eq :: "xptr \<Rightarrow> xptr \<Rightarrow> bool" where
  "xptr_eq p1 p2 \<longleftrightarrow> layer p1 = layer p2 \<and> (layer p1 = 0 \<or> offs p1 = offs p2)"

definition xptr_less :: "xptr \<Rightarrow> xptr \<Rightarrow> bool" where
  "xptr_less p1 p2 \<longleftrightarrow> (if layer p1 \<noteq> layer p2 then layer p1 < layer p2 else offs p1 < offs p2)"

definition xptr_compare :: "xptr \<Rightarrow> xptr \<Rightarrow> int" where
  "xptr_compare p1 p2 =
     (if layer p1 = 0 \<and> layer p2 = 0 then 0
      else if layer p1 = 0 then 1
      else if layer p2 = 0 then -1
      else if layer p1 \<noteq> layer p2 then (if layer p1 < layer p2 then -1 else 1)
      else if offs p1 < offs p2 then -1 else if offs p1 = offs p2 then 0 else 1)"

definition xptr_cmp :: "xptr \<Rightarrow> xptr \<Rightarrow> int" where
  "xptr_cmp a b = of_bool (xptr_less b a) - of_bool (xptr_less a b)"

text \<open>The comparison of nodes, which are told apart by their labels.\<close>

definition node_cmp :: "t_prefix \<Rightarrow> t_prefix \<Rightarrow> int" where
  "node_cmp p1 p2 = (if p1 = p2 then 0 else case nid_cmp_effective p1 p2 of Inl e \<Rightarrow> 0 | Inr c \<Rightarrow> c)"

section \<open>Storage\<close>

definition SEQ_NUMBER_OF_XPTRS_IN_MEMORY :: nat where
  "SEQ_NUMBER_OF_XPTRS_IN_MEMORY = 100"

record 'a xptr_sequence =
  mem_xptrs :: "'a list"
  blk_arr :: "'a list list"
  seq_size :: nat

definition seq_empty :: "'a xptr_sequence" where
  "seq_empty = \<lparr>mem_xptrs = [], blk_arr = [], seq_size = 0\<rparr>"

definition seq_clear :: "'a xptr_sequence \<Rightarrow> 'a xptr_sequence" where
  "seq_clear s = s\<lparr>mem_xptrs := [], blk_arr := [], seq_size := 0\<rparr>"

text \<open>\<open>k\<close> is the number of entries of a block; a block is full when it has no room for one more.\<close>

definition seq_add :: "nat \<Rightarrow> 'a \<Rightarrow> 'a xptr_sequence \<Rightarrow> 'a xptr_sequence" where
  "seq_add k p s =
     (let s = s\<lparr>seq_size := seq_size s + 1\<rparr>
      in if seq_size s \<le> SEQ_NUMBER_OF_XPTRS_IN_MEMORY then s\<lparr>mem_xptrs := mem_xptrs s @ [p]\<rparr>
         else let bs = (if blk_arr s = [] then [[]] else blk_arr s);
                  bs = (if length (last bs) \<ge> k then bs @ [[]] else bs)
              in s\<lparr>blk_arr := butlast bs @ [last bs @ [p]]\<rparr>)"

text \<open>Nothing when memory outside of the sequence would be read or written.\<close>

definition seq_get :: "nat \<Rightarrow> 'a xptr_sequence \<Rightarrow> nat \<Rightarrow> 'a option" where
  "seq_get k s pos =
     (if pos < SEQ_NUMBER_OF_XPTRS_IN_MEMORY
      then if pos < length (mem_xptrs s) then Some (mem_xptrs s ! pos) else None
      else let b_ind = (pos - SEQ_NUMBER_OF_XPTRS_IN_MEMORY) div k; o_ind = (pos - SEQ_NUMBER_OF_XPTRS_IN_MEMORY) mod k
           in if b_ind < length (blk_arr s) \<and> o_ind < length (blk_arr s ! b_ind) then Some (blk_arr s ! b_ind ! o_ind) else None)"

definition seq_set :: "nat \<Rightarrow> 'a \<Rightarrow> nat \<Rightarrow> 'a xptr_sequence \<Rightarrow> 'a xptr_sequence option" where
  "seq_set k p pos s =
     (if pos < SEQ_NUMBER_OF_XPTRS_IN_MEMORY
      then if pos < length (mem_xptrs s) then Some (s\<lparr>mem_xptrs := (mem_xptrs s)[pos := p]\<rparr>) else None
      else let b_ind = (pos - SEQ_NUMBER_OF_XPTRS_IN_MEMORY) div k; o_ind = (pos - SEQ_NUMBER_OF_XPTRS_IN_MEMORY) mod k
           in if b_ind < length (blk_arr s) \<and> o_ind < length (blk_arr s ! b_ind)
              then Some (s\<lparr>blk_arr := (blk_arr s)[b_ind := (blk_arr s ! b_ind)[o_ind := p]]\<rparr>) else None)"

definition seq_swap_at :: "nat \<Rightarrow> nat \<Rightarrow> nat \<Rightarrow> 'a xptr_sequence \<Rightarrow> 'a xptr_sequence option" where
  "seq_swap_at k a b s =
     (if a = b then Some s
      else case seq_get k s a of None \<Rightarrow> None
           | Some t \<Rightarrow> (case seq_get k s b of None \<Rightarrow> None
              | Some u \<Rightarrow> (case seq_set k u a s of None \<Rightarrow> None
                 | Some s1 \<Rightarrow> seq_set k t b s1)))"

text \<open>The two sorts of a sequence, seen as the list of its entries, in document order and by address.\<close>

definition seq_sort :: "t_prefix list \<Rightarrow> t_prefix list option" where
  "seq_sort xs = sort_template (length xs) node_cmp xs 0 (length xs)"

definition sort_by_xptr :: "xptr list \<Rightarrow> xptr list option" where
  "sort_by_xptr xs = sort_template (length xs) xptr_cmp xs 0 (length xs)"

section \<open>The sequence as a list\<close>

definition seq_list :: "'a xptr_sequence \<Rightarrow> 'a list" where
  "seq_list s = mem_xptrs s @ concat (blk_arr s)"

text \<open>Blocks are used only when the memory is full, all but the last are full, and none is empty.\<close>

definition seq_ok :: "nat \<Rightarrow> 'a xptr_sequence \<Rightarrow> bool" where
  "seq_ok k s \<longleftrightarrow> 0 < k \<and> seq_size s = length (seq_list s) \<and> length (mem_xptrs s) \<le> 100
     \<and> (blk_arr s \<noteq> [] \<longrightarrow> length (mem_xptrs s) = 100 \<and> (\<forall>b\<in>set (butlast (blk_arr s)). length b = k) \<and> 0 < length (last (blk_arr s)) \<and> length (last (blk_arr s)) \<le> k)"

lemma concat_full_length: "\<forall>b\<in>set bs. length b = k \<Longrightarrow> length (concat bs) = length bs * k"
  by (induction bs) auto

text \<open>Where an entry of full blocks, and of one more, is found.\<close>

lemma concat_nth_blocks:
  assumes "\<forall>b\<in>set (butlast bs). length b = k" "0 < k" "i < length (concat bs)" "length (last bs) \<le> k"
  shows "i div k < length bs \<and> i mod k < length (bs ! (i div k)) \<and> concat bs ! i = bs ! (i div k) ! (i mod k)"
  using assms
proof (induction bs arbitrary: i)
  case (Cons b bs)
  show ?case
  proof (cases "bs = []")
    case True
    then show ?thesis using Cons.prems by simp
  next
    case False
    then have b: "length b = k" using Cons.prems(1) by simp
    show ?thesis
    proof (cases "i < k")
      case True
      then show ?thesis using b by (simp add: nth_append)
    next
      case False
      have "(i - k) div k < length bs \<and> (i - k) mod k < length (bs ! ((i - k) div k)) \<and> concat bs ! (i - k) = bs ! ((i - k) div k) ! ((i - k) mod k)"
        using Cons.prems False b \<open>bs \<noteq> []\<close> by (intro Cons.IH) auto
      moreover have "i div k = Suc ((i - k) div k)" "i mod k = (i - k) mod k" using False Cons.prems(2) by (auto simp: le_div_geq le_mod_geq)
      ultimately show ?thesis using False b by (simp add: nth_append)
    qed
  qed
qed simp

lemma concat_update_blocks:
  assumes "\<forall>b\<in>set (butlast bs). length b = k" "0 < k" "i < length (concat bs)" "length (last bs) \<le> k"
  shows "concat (bs[i div k := (bs ! (i div k))[i mod k := p]]) = (concat bs)[i := p]"
  using assms
proof (induction bs arbitrary: i)
  case (Cons b bs)
  show ?case
  proof (cases "bs = []")
    case True
    then show ?thesis using Cons.prems by simp
  next
    case False
    then have b: "length b = k" using Cons.prems(1) by simp
    show ?thesis
    proof (cases "i < k")
      case True
      then show ?thesis using b by (simp add: list_update_append)
    next
      case False
      have "concat (bs[(i - k) div k := (bs ! ((i - k) div k))[(i - k) mod k := p]]) = (concat bs)[i - k := p]"
        using Cons.prems False b \<open>bs \<noteq> []\<close> by (intro Cons.IH) auto
      moreover have "i div k = Suc ((i - k) div k)" "i mod k = (i - k) mod k" using False Cons.prems(2) by (auto simp: le_div_geq le_mod_geq)
      ultimately show ?thesis using False b by (simp add: list_update_append)
    qed
  qed
qed simp

lemma seq_ok_empty: "0 < k \<Longrightarrow> seq_ok k seq_empty \<and> seq_list seq_empty = []"
  by (simp add: seq_ok_def seq_list_def seq_empty_def)

lemma seq_add_refines:
  assumes "seq_ok k s"
  shows "seq_ok k (seq_add k p s) \<and> seq_list (seq_add k p s) = seq_list s @ [p]"
proof (cases "seq_size s < 100")
  case True
  then have "blk_arr s = []" using assms by (auto simp: seq_ok_def seq_list_def)
  then show ?thesis using assms True by (simp add: seq_ok_def seq_list_def seq_add_def Let_def SEQ_NUMBER_OF_XPTRS_IN_MEMORY_def)
next
  case False
  show ?thesis
  proof (cases "blk_arr s = []")
    case True
    then show ?thesis using assms False by (simp add: seq_ok_def seq_list_def seq_add_def Let_def SEQ_NUMBER_OF_XPTRS_IN_MEMORY_def)
  next
    case ne: False
    obtain bs b where bs: "blk_arr s = bs @ [b]" using ne by (metis append_butlast_last_id)
    show ?thesis
    proof (cases "length b = k")
      case True
      then show ?thesis using assms False bs by (auto simp: butlast_append seq_ok_def seq_list_def seq_add_def Let_def SEQ_NUMBER_OF_XPTRS_IN_MEMORY_def)
    next
      case False
      then show ?thesis using assms \<open>\<not> seq_size s < 100\<close> bs by (auto simp: seq_ok_def seq_list_def seq_add_def Let_def SEQ_NUMBER_OF_XPTRS_IN_MEMORY_def)
    qed
  qed
qed

text \<open>What the places of a sequence beyond the memory are.\<close>

lemma seq_ok_blocks:
  assumes "seq_ok k s" "100 \<le> pos" "pos < length (seq_list s)"
  shows "length (mem_xptrs s) = 100" "\<forall>b\<in>set (butlast (blk_arr s)). length b = k" "0 < k" "pos - 100 < length (concat (blk_arr s))" "length (last (blk_arr s)) \<le> k"
  using assms by (cases "blk_arr s = []"; auto simp: seq_ok_def seq_list_def)+

lemma seq_get_refines:
  assumes "seq_ok k s" "pos < length (seq_list s)"
  shows "seq_get k s pos = Some (seq_list s ! pos)"
proof (cases "pos < 100")
  case True
  then have "pos < length (mem_xptrs s)" using assms by (cases "blk_arr s = []") (auto simp: seq_ok_def seq_list_def)
  then show ?thesis using True by (simp add: seq_get_def seq_list_def SEQ_NUMBER_OF_XPTRS_IN_MEMORY_def nth_append)
next
  case False
  then show ?thesis using seq_ok_blocks[OF assms(1) _ assms(2)] concat_nth_blocks[of "blk_arr s" k "pos - 100"]
    by (simp add: seq_get_def seq_list_def SEQ_NUMBER_OF_XPTRS_IN_MEMORY_def Let_def nth_append)
qed

lemma butlast_update_lengths:
  assumes "\<forall>b\<in>set (butlast bs). length b = k" "i < length bs" "length c = length (bs ! i)"
  shows "(\<forall>b\<in>set (butlast (bs[i := c])). length b = k) \<and> length (last (bs[i := c])) = length (last bs)"
proof -
  have "map length (bs[i := c]) = map length bs" using assms(2,3) by (simp add: map_update list_update_same_conv)
  then have e: "map length (butlast (bs[i := c])) = map length (butlast bs)" "length (last (bs[i := c])) = length (last bs)"
    using assms(2) by (metis map_butlast, cases "bs = []") (auto, metis last_map list_update_nonempty)
  have "length b = k" if "b \<in> set (butlast (bs[i := c]))" for b
    using that e(1) assms(1) by (metis (mono_tags, lifting) image_eqI image_iff set_map)
  then show ?thesis using e(2) by simp
qed

lemma seq_set_refines:
  assumes "seq_ok k s" "pos < length (seq_list s)"
  shows "\<exists>s'. seq_set k p pos s = Some s' \<and> seq_ok k s' \<and> seq_list s' = (seq_list s)[pos := p]"
proof (cases "pos < 100")
  case True
  then have l: "pos < length (mem_xptrs s)" using assms by (cases "blk_arr s = []") (auto simp: seq_ok_def seq_list_def)
  then show ?thesis using True assms by (simp add: seq_set_def seq_list_def seq_ok_def SEQ_NUMBER_OF_XPTRS_IN_MEMORY_def list_update_append)
next
  case False
  let ?i = "pos - 100" let ?bs = "blk_arr s"
  let ?bs' = "?bs[?i div k := (?bs ! (?i div k))[?i mod k := p]]"
  have b: "length (mem_xptrs s) = 100" "\<forall>b\<in>set (butlast ?bs). length b = k" "0 < k" "?i < length (concat ?bs)" "length (last ?bs) \<le> k"
    using seq_ok_blocks[OF assms(1) _ assms(2)] False by auto
  have n: "?i div k < length ?bs" "?i mod k < length (?bs ! (?i div k))" using concat_nth_blocks[OF b(2,3,4,5)] by auto
  have l: "concat ?bs' = (concat ?bs)[?i := p]" using concat_update_blocks[OF b(2,3,4,5)] .
  have "seq_set k p pos s = Some (s\<lparr>blk_arr := ?bs'\<rparr>)" using False n by (simp add: seq_set_def SEQ_NUMBER_OF_XPTRS_IN_MEMORY_def Let_def)
  moreover have q: "seq_list (s\<lparr>blk_arr := ?bs'\<rparr>) = (seq_list s)[pos := p]" using False b(1) l by (simp add: seq_list_def list_update_append)
  moreover have "(\<forall>b\<in>set (butlast ?bs'). length b = k) \<and> length (last ?bs') = length (last ?bs)"
    by (rule butlast_update_lengths[OF b(2) n(1)]) simp
  moreover have "seq_size s = length (seq_list s)" "0 < length (last ?bs)" "?bs \<noteq> []" using assms(1) n(1) by (auto simp: seq_ok_def)
  ultimately have "seq_ok k (s\<lparr>blk_arr := ?bs'\<rparr>)" using b(1,3,5) unfolding seq_ok_def q by simp
  with \<open>seq_set k p pos s = _\<close> q show ?thesis by blast
qed

lemma seq_swap_at_refines:
  assumes "seq_ok k s" "a < length (seq_list s)" "b < length (seq_list s)"
  shows "\<exists>s'. seq_swap_at k a b s = Some s' \<and> seq_ok k s' \<and> seq_list s' = seq_swap (seq_list s) a b"
proof (cases "a = b")
  case True
  then show ?thesis using assms(1) by (simp add: seq_swap_at_def seq_swap_def)
next
  case False
  obtain s1 where s1: "seq_set k (seq_list s ! b) a s = Some s1" "seq_ok k s1" "seq_list s1 = (seq_list s)[a := seq_list s ! b]"
    using seq_set_refines[OF assms(1,2)] by blast
  obtain s2 where s2: "seq_set k (seq_list s ! a) b s1 = Some s2" "seq_ok k s2" "seq_list s2 = (seq_list s1)[b := seq_list s ! a]"
    using seq_set_refines[OF s1(2), of b "seq_list s ! a"] s1(3) assms(3) by auto
  then show ?thesis using False s1 seq_get_refines[OF assms(1,2)] seq_get_refines[OF assms(1,3)] by (auto simp: seq_swap_at_def seq_swap_def)
qed

section \<open>The comparators\<close>

lemma node_cmp_less:
  assumes "ord_class.lexordp p1 p2"
  shows "node_cmp p1 p2 < 0 \<and> 0 < node_cmp p2 p1"
proof -
  have ne: "p1 \<noteq> p2" using assms lexordp_irreflexive'[of p1] by auto
  have "\<not> nid_ancestor p2 p1" using ancestor_less[of p2 p1] lexordp_antisym[OF assms] by blast
  then show ?thesis using ne nid_cmp_effective_exact[OF ne] nid_cmp_effective_exact[of p2 p1] lex_cmp_less[OF assms] by (auto simp: node_cmp_def)
qed

lemma node_cmp_sign: "node_cmp p1 p2 < 0 \<longleftrightarrow> ord_class.lexordp p1 p2" "0 < node_cmp p1 p2 \<longleftrightarrow> ord_class.lexordp p2 p1"
proof -
  consider "p1 = p2" | "ord_class.lexordp p1 p2" | "ord_class.lexordp p2 p1" using lexordp_linear by blast
  then have "(node_cmp p1 p2 < 0 \<longleftrightarrow> ord_class.lexordp p1 p2) \<and> (0 < node_cmp p1 p2 \<longleftrightarrow> ord_class.lexordp p2 p1)"
  proof cases
    case 1
    then show ?thesis using lexordp_irreflexive'[of p1] by (simp add: node_cmp_def)
  next
    case 2
    then show ?thesis using node_cmp_less[OF 2] lexordp_antisym[OF 2] by auto
  next
    case 3
    then show ?thesis using node_cmp_less[OF 3] lexordp_antisym[OF 3] by auto
  qed
  then show "node_cmp p1 p2 < 0 \<longleftrightarrow> ord_class.lexordp p1 p2" "0 < node_cmp p1 p2 \<longleftrightarrow> ord_class.lexordp p2 p1" by blast+
qed

interpretation node_order: comparator node_cmp
proof
  fix x y z :: t_prefix
  show "node_cmp x y = 0 \<longleftrightarrow> x = y"
    using node_cmp_sign[of x y] lexordp_linear[of x y] lexordp_irreflexive'[of x] by (metis less_irrefl node_cmp_def)
  show "node_cmp x y < 0 \<longleftrightarrow> 0 < node_cmp y x" by (simp add: node_cmp_sign)
  show "node_cmp x y < 0 \<Longrightarrow> node_cmp y z < 0 \<Longrightarrow> node_cmp x z < 0" using lexordp_trans by (auto simp: node_cmp_sign)
qed

interpretation address_order: comparator xptr_cmp
proof
  fix x y z :: xptr
  show "xptr_cmp x y = 0 \<longleftrightarrow> x = y" by (auto simp: xptr_cmp_def xptr_less_def)
  show "xptr_cmp x y < 0 \<longleftrightarrow> 0 < xptr_cmp y x" by (simp add: xptr_cmp_def)
  show "xptr_cmp x y < 0 \<Longrightarrow> xptr_cmp y z < 0 \<Longrightarrow> xptr_cmp x z < 0" by (auto simp: xptr_cmp_def xptr_less_def split: if_splits)
qed

lemma sort_whole_segment:
  assumes "\<exists>ys. t = Some ys \<and> seg_perm 0 (0 + length xs) xs ys \<and> (\<forall>i k. 0 \<le> i \<longrightarrow> i < k \<longrightarrow> k < 0 + length xs \<longrightarrow> P (ys ! i) (ys ! k))"
  shows "\<exists>ys. t = Some ys \<and> mset ys = mset xs \<and> sorted_wrt P ys"
proof -
  obtain ys where "t = Some ys" "seg_perm 0 (length xs) xs ys" "\<forall>i k. i < k \<longrightarrow> k < length xs \<longrightarrow> P (ys ! i) (ys ! k)" using assms by auto
  then show ?thesis by (auto simp: seg_perm_def sorted_wrt_iff_nth_less)
qed

lemma seq_sort_sorted: "\<exists>ys. seq_sort xs = Some ys \<and> mset ys = mset xs \<and> sorted_wrt (\<lambda>a b. node_cmp a b \<le> 0) ys"
  unfolding seq_sort_def by (rule sort_whole_segment, rule node_order.sort_template_sorts) simp_all

lemma sort_by_xptr_sorted: "\<exists>ys. sort_by_xptr xs = Some ys \<and> mset ys = mset xs \<and> sorted_wrt (\<lambda>a b. xptr_cmp a b \<le> 0) ys"
  unfolding sort_by_xptr_def by (rule sort_whole_segment, rule address_order.sort_template_sorts) simp_all

end
