(* ===== verification/NodeDelete.thy ===== *)
theory NodeDelete
  imports NodeSequence
begin

text \<open>
  The deletion of nodes with all below them, \<^verbatim>\<open>delete_deep\<close> of \<^verbatim>\<open>kernel/tr/updates/deletions.cpp\<close>: the nodes are
  collected, sorted in document order, and those below a node that is deleted are passed over. What \<^verbatim>\<open>delete_node\<close>
  does to the storage is not modelled; the model returns the nodes it is called with. Authorization and triggers
  are left out.
\<close>

section \<open>Deletion\<close>

datatype item =
    ItemNode bool t_prefix     \<comment> \<open>a node, persistent or not, with its label\<close>
  | ItemAtomic

datatype update_error = SE2011 | SE2012

fun collect :: "nat \<Rightarrow> item list \<Rightarrow> t_prefix xptr_sequence \<Rightarrow> update_error + t_prefix xptr_sequence" where
  "collect k [] argseq = Inr argseq"
| "collect k (ItemNode True l # ts) argseq = collect k ts (seq_add k l argseq)"
| "collect k (ItemNode False l # ts) argseq = Inl SE2012"
| "collect k (ItemAtomic # ts) argseq = Inl SE2011"

text \<open>
  The loop over the sorted sequence from the place of the iterator on: after a node the iterator goes forward
  while it is at the same node or at one below it, and the loop ends with the sequence.
\<close>

function delete_loop :: "t_prefix list \<Rightarrow> t_prefix list" where
  "delete_loop [] = []"
| "delete_loop (node # rest) = node # delete_loop (dropWhile (\<lambda>x. node = x \<or> nid_ancestor node x) rest)"
  by pat_completeness auto
termination by (relation "measure length") (auto simp: less_Suc_eq_le length_dropWhile_le)

text \<open>The nodes \<^verbatim>\<open>delete_node\<close> is called with, in the order of the calls; nothing when the sort had not enough fuel.\<close>

definition delete_deep :: "nat \<Rightarrow> item list \<Rightarrow> (update_error + t_prefix list) option" where
  "delete_deep k ts =
     (case collect k ts seq_empty of
        Inl e \<Rightarrow> Some (Inl e)
      | Inr argseq \<Rightarrow>
          if seq_size argseq = 0 then Some (Inr [])
          else (case seq_sort (seq_list argseq) of
                  None \<Rightarrow> None
                | Some nodes \<Rightarrow> Some (Inr (delete_loop nodes))))"

section \<open>The nodes that are deleted\<close>

lemma collect_nodes:
  "seq_ok k s \<Longrightarrow> \<exists>s'. collect k (map (ItemNode True) ns) s = Inr s' \<and> seq_ok k s' \<and> seq_list s' = seq_list s @ ns"
proof (induction ns arbitrary: s)
  case (Cons n ns)
  then show ?case using seq_add_refines[OF Cons.prems, of n] Cons.IH[of "seq_add k n s"] by simp
qed simp

lemma collect_stops: "collect k (map (ItemNode True) ns @ ItemNode False l # ts) s = Inl SE2012" "collect k (map (ItemNode True) ns @ ItemAtomic # ts) s = Inl SE2011"
  by (induction ns arbitrary: s) auto

text \<open>In document order the nodes below a node follow it without a gap.\<close>

lemma below_no_gap:
  assumes "node_cmp n x \<le> 0" "node_cmp x y \<le> 0" "n \<noteq> x" "\<not> nid_ancestor n x" "bytes y"
  shows "n \<noteq> y \<and> \<not> nid_ancestor n y"
proof (cases "x = y")
  case False
  have "apart n x" using assms(1,3,4) node_order.cmp_zero[of n x] node_cmp_sign[of n x] by (auto simp: apart_def order_le_less)
  moreover have less: "ord_class.lexordp x y" using assms(2) False node_order.cmp_zero[of x y] node_cmp_sign[of x y] by (auto simp: order_le_less)
  moreover have "ord_class.lexordp n y" using calculation lexordp_trans by (auto simp: apart_def)
  ultimately show ?thesis using ancestor_gap[of n x y] assms(5) lexordp_irreflexive'[of n] by blast
qed (use assms in simp)

lemma delete_loop_topmost:
  assumes "sorted_wrt (\<lambda>a b. node_cmp a b \<le> 0) xs" "\<forall>x\<in>set xs. bytes x"
  shows "set (delete_loop xs) = {n \<in> set xs. \<forall>m\<in>set xs. \<not> nid_ancestor m n} \<and> sorted_wrt apart (delete_loop xs)"
  using assms
proof (induction xs rule: delete_loop.induct)
  case (2 node rest)
  let ?P = "\<lambda>x. node = x \<or> nid_ancestor node x"
  let ?d = "takeWhile ?P rest" and ?r = "dropWhile ?P rest"
  have sr: "sorted_wrt (\<lambda>a b. node_cmp a b \<le> 0) rest" and nr: "\<forall>x\<in>set rest. node_cmp node x \<le> 0 \<and> bytes x" using 2(2,3) by auto
  then have "sorted_wrt (\<lambda>a b. node_cmp a b \<le> 0) (?d @ ?r)" by simp
  then have sr': "sorted_wrt (\<lambda>a b. node_cmp a b \<le> 0) ?r" by (simp add: sorted_wrt_append)
  have br: "\<forall>x\<in>set ?r. bytes x" using nr by (auto dest: set_dropWhileD)
  have both: "set rest = set ?d \<union> set ?r" by (metis set_append takeWhile_dropWhile_id)
  have d: "node = x \<or> nid_ancestor node x" if "x \<in> set ?d" for x using that by (auto dest: set_takeWhileD)
  have r: "node \<noteq> y \<and> \<not> nid_ancestor node y" if y: "y \<in> set ?r" for y
  proof (cases ?r)
    case Nil
    with y have False by (simp only: list.set empty_iff)
    then show ?thesis ..
  next
    case (Cons x ys)
    then have "\<not> ?P x" using hd_dropWhile[of ?P rest] by simp
    moreover have "x \<in> set rest" "y \<in> set rest" using Cons y both by auto
    moreover have "y = x \<or> node_cmp x y \<le> 0" using sr' Cons y by auto
    ultimately show ?thesis using below_no_gap[of node x y] nr by auto
  qed
  have IH: "set (delete_loop ?r) = {n \<in> set ?r. \<forall>m\<in>set ?r. \<not> nid_ancestor m n}" "sorted_wrt apart (delete_loop ?r)" using 2(1)[OF sr' br] by auto
  have top: "\<not> nid_ancestor m node" if m: "m \<in> set rest \<or> m = node" for m
  proof
    assume a: "nid_ancestor m node"
    then have "ord_class.lexordp m node" using ancestor_less by blast
    then have "0 < node_cmp node m" by (simp add: node_cmp_sign)
    then show False using m nr by (auto simp: node_order.cmp_zero)
  qed
  have trans: "\<not> nid_ancestor m n" if "m \<in> set ?d \<or> m = node" "n \<in> set ?r" for m n using that d[of m] r[of n] nid_ancestor_trans by blast
  have "set (delete_loop (node # rest)) = {n \<in> set (node # rest). \<forall>m\<in>set (node # rest). \<not> nid_ancestor m n}"
    using IH(1) top trans d unfolding delete_loop.simps list.set both by blast
  moreover have "apart node n" if "n \<in> set (delete_loop ?r)" for n
  proof -
    have n: "n \<in> set ?r" using that IH(1) by auto
    then have "node_cmp node n \<le> 0" using nr both by auto
    then show ?thesis using r[OF n] node_order.cmp_zero[of node n] node_cmp_sign[of node n] by (auto simp: apart_def order_le_less)
  qed
  ultimately show ?case using IH(2) by simp
qed simp

lemma delete_deep_nodes:
  assumes "0 < k" "\<forall>n\<in>set ns. bytes n"
  shows "\<exists>ds. delete_deep k (map (ItemNode True) ns) = Some (Inr ds) \<and> set ds = {n \<in> set ns. \<forall>m\<in>set ns. \<not> nid_ancestor m n} \<and> sorted_wrt apart ds"
proof -
  obtain s where s: "collect k (map (ItemNode True) ns) seq_empty = Inr s" "seq_ok k s" "seq_list s = ns"
    using collect_nodes[of k seq_empty ns] seq_ok_empty[OF assms(1)] by fastforce
  have n: "seq_size s = length ns" using s(2,3) by (simp add: seq_ok_def)
  obtain ys where ys: "seq_sort ns = Some ys" "mset ys = mset ns" "sorted_wrt (\<lambda>a b. node_cmp a b \<le> 0) ys" using seq_sort_sorted by blast
  have "set ys = set ns" using ys(2) by (metis mset_eq_setD)
  then show ?thesis using s n ys delete_loop_topmost[OF ys(3)] assms(2) by (auto simp: delete_deep_def)
qed

end
