(* ===== verification/NodeProperties.thy ===== *)
theory NodeProperties
  imports NodeDelete
begin

text \<open>
  The properties of node sequences: the sort, the storage, and what a deletion deletes.
\<close>

text \<open>
  C11. Sorting a sequence of nodes, in document order or by address, ends, keeps every entry with its number of
  occurrences and puts the entries in order.
\<close>

theorem sort_sorts:
  "(\<exists>ys. seq_sort xs = Some ys \<and> mset ys = mset xs \<and> sorted_wrt (\<lambda>a b. node_cmp a b \<le> 0) ys)
   \<and> (\<exists>zs. sort_by_xptr ps = Some zs \<and> mset zs = mset ps \<and> sorted_wrt (\<lambda>a b. xptr_cmp a b \<le> 0) zs)"
  using seq_sort_sorted sort_by_xptr_sorted by blast

text \<open>
  C28. Refinement of a list. With entries in memory and in blocks of k, adding an entry appends it, reading,
  writing and exchanging entries at places of the sequence are those of the list and never leave the memory, and
  all keep the layout.
\<close>

theorem sequence_refines_list:
  assumes "seq_ok k s" "a < length (seq_list s)" "b < length (seq_list s)"
  shows "seq_ok k (seq_add k p s) \<and> seq_list (seq_add k p s) = seq_list s @ [p]
         \<and> seq_get k s a = Some (seq_list s ! a)
         \<and> (\<exists>s'. seq_set k p a s = Some s' \<and> seq_ok k s' \<and> seq_list s' = (seq_list s)[a := p])
         \<and> (\<exists>s'. seq_swap_at k a b s = Some s' \<and> seq_ok k s' \<and> seq_list s' = seq_swap (seq_list s) a b)"
  using seq_add_refines[OF assms(1)] seq_get_refines[OF assms(1,2)] seq_set_refines[OF assms(1,2)] seq_swap_at_refines[OF assms] by blast

theorem sequence_refines_list_witness:
  "\<exists>s :: nat xptr_sequence. seq_ok 2 s \<and> length (seq_list s) = 103 \<and> seq_get 2 s 102 = Some 9
     \<and> (\<exists>s'. seq_swap_at 2 102 5 s = Some s' \<and> seq_ok 2 s' \<and> seq_list s' = seq_swap (seq_list s) 102 5)"
proof -
  let ?s = "\<lparr>mem_xptrs = replicate 100 (0::nat), blk_arr = [[1, 2], [9]], seq_size = 103\<rparr>"
  have h: "seq_ok 2 ?s" "102 < length (seq_list ?s)" "5 < length (seq_list ?s)" "length (seq_list ?s) = 103" "seq_list ?s ! 102 = 9"
    by (simp_all add: seq_ok_def seq_list_def nth_append)
  show ?thesis using h sequence_refines_list[OF h(1-3)] by metis
qed

text \<open>
  C10. Deleting a sequence of persistent nodes calls delete_node with exactly the nodes that have no ancestor in the
  sequence, once each and in document order; no node is deleted after a node above it.
\<close>

theorem delete_topmost:
  assumes "0 < k" "\<forall>n\<in>set ns. bytes n"
  shows "\<exists>ds. delete_deep k (map (ItemNode True) ns) = Some (Inr ds) \<and> set ds = {n \<in> set ns. \<forall>m\<in>set ns. \<not> nid_ancestor m n} \<and> sorted_wrt apart ds"
  by (rule delete_deep_nodes[OF assms])

theorem delete_topmost_witness:
  "\<exists>ds. delete_deep 4 (map (ItemNode True) [[1, 2, 1], [1, 1], [1, 2], [1, 2]]) = Some (Inr ds) \<and> set ds = {[1, 1], [1, 2]} \<and> sorted_wrt apart ds"
proof -
  let ?ns = "[[1, 2, 1], [1, 1], [1, 2], [1, 2::nat]]"
  have h: "(0::nat) < 4" "\<forall>n\<in>set ?ns. bytes n" by simp_all
  have e: "{n \<in> set ?ns. \<forall>m\<in>set ?ns. \<not> nid_ancestor m n} = {[1, 1], [1, 2]}" by code_simp
  show ?thesis using delete_topmost[OF h] unfolding e .
qed

end
