(* ===== verification/XqCells.thy ===== *)
theory XqCells
  imports NodeSequence
begin

text \<open>
  Values that operators of a query plan pass to each other, \<^verbatim>\<open>kernel/tr/executor/base/tuple.h\<close>, and the helper
  functions of \<^verbatim>\<open>kernel/tr/executor/base/PPUtils.cpp\<close>. A tuple is a list of cells. A node is its label and the
  pointer stored in the cell, which is not null. Integer types derived from \<^verbatim>\<open>xs:integer\<close> are not told from it.
  Types with values of other kinds have a name, and their values are numbers. Casts, comparison and arithmetic of
  atomic values and the typed value of a node are parameters.
\<close>

section \<open>Cells and tuples\<close>

datatype xq_error =
    XPTY0004 | XPTY0018 | XPTY0019 | FORG0003 | FORG0004 | FORG0005 | FORG0006 | SE1007
  | Impossible_case     \<comment> \<open>error SE1003\<close>
  | Signed_overflow     \<comment> \<open>undefined behaviour\<close>
  | Raised nat          \<comment> \<open>raised by a parameter\<close>

datatype atomic =
    Xs_integer int
  | Xs_boolean bool
  | Xs_string string
  | Xs_untypedAtomic string
  | Xs_other string nat

datatype tuple_cell =
    NodeCell t_prefix xptr
  | AtomicCell atomic
  | EosCell

type_synonym xqp_tuple = "tuple_cell list"

fun is_node :: "tuple_cell \<Rightarrow> bool" where
  "is_node (NodeCell l p) = True"
| "is_node _ = False"

fun is_atomic :: "tuple_cell \<Rightarrow> bool" where
  "is_atomic (AtomicCell a) = True"
| "is_atomic _ = False"

definition get :: "xqp_tuple \<Rightarrow> tuple_cell" where
  "get t = hd t"

fun is_numeric_type :: "atomic \<Rightarrow> bool" where
  "is_numeric_type (Xs_integer i) = True"
| "is_numeric_type (Xs_other ty v) = (ty \<in> {''xs:decimal'', ''xs:float'', ''xs:double''})"
| "is_numeric_type _ = False"

text \<open>A double after rounding; adding and comparing whole numbers is exact up to 2 to the power of 53.\<close>

datatype xs_double = Whole int | Pos_inf | Neg_inf | Not_a_number

fun double_add :: "xs_double \<Rightarrow> xs_double \<Rightarrow> xs_double" where
  "double_add (Whole i) (Whole j) = Whole (i + j)"
| "double_add Not_a_number y = Not_a_number"
| "double_add x Not_a_number = Not_a_number"
| "double_add Pos_inf Neg_inf = Not_a_number"
| "double_add Neg_inf Pos_inf = Not_a_number"
| "double_add Pos_inf y = Pos_inf"
| "double_add Neg_inf y = Neg_inf"
| "double_add x Pos_inf = Pos_inf"
| "double_add x Neg_inf = Neg_inf"

fun double_le :: "xs_double \<Rightarrow> int \<Rightarrow> bool" where
  "double_le (Whole i) n = (i \<le> n)"
| "double_le Neg_inf n = True"
| "double_le _ n = False"

fun double_gt :: "xs_double \<Rightarrow> int \<Rightarrow> bool" where
  "double_gt (Whole i) n = (i > n)"
| "double_gt Pos_inf n = True"
| "double_gt _ n = False"

record xq_context =
  typed_value :: "t_prefix \<Rightarrow> xq_error + atomic"                  \<comment> \<open>the typed value of a node\<close>
  cast_integer :: "atomic \<Rightarrow> xq_error + int"                       \<comment> \<open>cast to \<^verbatim>\<open>xs:integer\<close>\<close>
  round_double :: "atomic \<Rightarrow> xq_error + xs_double"                 \<comment> \<open>cast to \<^verbatim>\<open>xs:double\<close> and rounding\<close>
  cast_double :: "atomic \<Rightarrow> xq_error + atomic"                     \<comment> \<open>cast to \<^verbatim>\<open>xs:double\<close>\<close>
  op_eq :: "atomic \<Rightarrow> atomic \<Rightarrow> xq_error + bool"
  op_add :: "atomic \<Rightarrow> atomic \<Rightarrow> xq_error + atomic"
  op_div :: "atomic \<Rightarrow> atomic \<Rightarrow> xq_error + atomic"
  other_boolean :: "string \<Rightarrow> nat \<Rightarrow> xq_error + bool"             \<comment> \<open>boolean value for the other types\<close>
  type_matches_single :: "nat \<Rightarrow> tuple_cell \<Rightarrow> bool"

definition atomize :: "xq_context \<Rightarrow> tuple_cell \<Rightarrow> xq_error + atomic" where
  "atomize cx c = (case c of NodeCell l p \<Rightarrow> typed_value cx l | AtomicCell a \<Rightarrow> Inr a | EosCell \<Rightarrow> Inl Impossible_case)"

section \<open>Comparison of nodes\<close>

text \<open>The end of a sequence is greater than any node.\<close>

definition doc_order_merge_cmp :: "tuple_cell option \<Rightarrow> tuple_cell option \<Rightarrow> int" where
  "doc_order_merge_cmp e1 e2 =
     (case (e1, e2) of
        (None, None) \<Rightarrow> 0
      | (None, Some _) \<Rightarrow> 1
      | (Some _, None) \<Rightarrow> -1
      | (Some (NodeCell l _), Some (NodeCell m _)) \<Rightarrow> nid_cmp l m
      | _ \<Rightarrow> 0)"

definition cell_compare :: "bool \<Rightarrow> tuple_cell option \<Rightarrow> tuple_cell option \<Rightarrow> int" where
  "cell_compare doc_order e1 e2 =
     (if doc_order then doc_order_merge_cmp e1 e2
      else case (e1, e2) of
             (None, None) \<Rightarrow> 0
           | (None, Some _) \<Rightarrow> 1
           | (Some _, None) \<Rightarrow> -1
           | (Some (NodeCell _ x), Some (NodeCell _ y)) \<Rightarrow> xptr_compare x y
           | _ \<Rightarrow> 0)"

section \<open>The effective boolean value of an atomic value\<close>

fun atomic_boolean_value :: "xq_context \<Rightarrow> atomic \<Rightarrow> xq_error + bool" where
  "atomic_boolean_value cx (Xs_boolean b) = Inr b"
| "atomic_boolean_value cx (Xs_string s) = Inr (s \<noteq> [])"
| "atomic_boolean_value cx (Xs_untypedAtomic s) = Inr (s \<noteq> [])"
| "atomic_boolean_value cx (Xs_integer i) = Inr (i \<noteq> 0)"
| "atomic_boolean_value cx (Xs_other ty v) = other_boolean cx ty v"

end
