(* ===== verification/XqPlans.thy ===== *)
theory XqPlans
  imports XqCells
begin

text \<open>
  Query plans, trees of the physical operators in \<^verbatim>\<open>kernel/tr/executor/xqops\<close>. A value of type \<open>pp\<close> is a tree as it
  is constructed, a value of type \<open>plan\<close> a tree that was opened, with the fields of the operators. The functions
  here are \<^verbatim>\<open>do_open\<close> and \<^verbatim>\<open>do_reopen\<close> of the operators; \<^verbatim>\<open>do_next\<close> is in \<open>XqSequenceOps\<close>, \<open>XqNodeOps\<close> and
  \<open>XqBindings\<close>. The table with a flag for each consumer of a variable is kept at the consumers: an opened variable
  has the number of the variable and its flag.
\<close>

section \<open>Fields of operators\<close>

record merge_state =
  tug_first :: bool
  tug_second :: bool
  tc1 :: "tuple_cell option"
  tc2 :: "tuple_cell option"

record range_state =
  rs_first_time :: bool
  is_emp :: bool
  rs_cur :: int
  rs_end :: int

record subseq_state =
  ss_first_time :: bool
  need_reopen :: bool
  start_pos :: xs_double
  ss_length :: xs_double
  ss_current_pos :: int

record insert_state =
  is_first_time :: bool
  inserted :: bool
  is_eos_reached :: bool
  insert_pos :: int
  is_current_pos :: int

datatype check_mode = CHECK_NODE | CHECK_MIX

section \<open>Plans\<close>

datatype pp =
    PPNil
  | PPConst tuple_cell
  | PPSequence "pp list"
  | PPSpaceSequence bool "pp list"
  | PPUnion bool pp pp
  | PPIntersect bool pp pp
  | PPExcept bool pp pp
  | PPIf pp pp pp
  | PPRange pp pp
  | PPFnEmpty pp
  | PPFnExists pp
  | PPFnItemAt pp pp
  | PPFnIndexOf pp pp
  | PPFnReverse pp
  | PPFnSubsequence pp pp "pp option"
  | PPFnRemove pp pp
  | PPFnInsertBefore pp pp pp
  | PPFnZeroOrOne pp
  | PPFnOneOrMore pp
  | PPFnExactlyOne pp
  | PPFnCount pp
  | PPFnSumAvg bool pp "pp option"
  | PPFnNot pp
  | PPFnBoolean pp
  | PPNodeComparison int pp pp
  | PPSeqChecker check_mode pp
  | PPVariable nat
  | PPReturn "nat list" "nat option" "nat option" pp pp
  | PPSelect "nat list" "nat option" pp pp

datatype 'v plan_of =
    OpNil
  | OpConst tuple_cell bool
  | OpSequence "'v plan_of list" nat
  | OpSpaceSequence bool "'v plan_of list" nat bool "xqp_tuple option"
  | OpUnion bool "'v plan_of" "'v plan_of" merge_state
  | OpIntersect bool "'v plan_of" "'v plan_of" merge_state bool bool
  | OpExcept bool "'v plan_of" "'v plan_of" merge_state bool
  | OpIf "'v plan_of" "'v plan_of" "'v plan_of" "bool option" bool
  | OpRange "'v plan_of" "'v plan_of" range_state
  | OpFnEmpty "'v plan_of" bool bool
  | OpFnExists "'v plan_of" bool bool
  | OpFnItemAt "'v plan_of" "'v plan_of" bool
  | OpFnIndexOf "'v plan_of" "'v plan_of" bool atomic int
  | OpFnReverse "'v plan_of" bool "xqp_tuple list" int
  | OpFnSubsequence "'v plan_of" "'v plan_of" "'v plan_of option" subseq_state
  | OpFnRemove "'v plan_of" "'v plan_of" bool int int
  | OpFnInsertBefore "'v plan_of" "'v plan_of" "'v plan_of" insert_state
  | OpFnZeroOrOne "'v plan_of" bool
  | OpFnOneOrMore "'v plan_of" bool
  | OpFnExactlyOne "'v plan_of" bool
  | OpFnCount "'v plan_of" bool
  | OpFnSumAvg bool "'v plan_of" "'v plan_of option" bool
  | OpFnNot "'v plan_of" bool bool
  | OpFnBoolean "'v plan_of" bool bool
  | OpNodeComparison int "'v plan_of" "'v plan_of" bool
  | OpSeqChecker check_mode "'v plan_of" int bool
  | OpVariable 'v
  | OpReturn "nat list" "nat option" "nat option" "'v plan_of" "'v plan_of" bool int xqp_tuple
  | OpSelect "nat list" "nat option" "'v plan_of" "'v plan_of" bool bool

type_synonym plan = "(nat \<times> bool) plan_of"

text \<open>\<^verbatim>\<open>reinit_consumer_table\<close>: every consumer of the variables starts again.\<close>

definition reinit_consumer_table :: "nat list \<Rightarrow> plan \<Rightarrow> plan" where
  "reinit_consumer_table dscs = map_plan_of (\<lambda>(dsc, svc). (dsc, svc \<or> dsc \<in> set dscs))"

section \<open>Opening\<close>

text \<open>
  Each function gives an operator its first state, from children that were opened. Where \<^verbatim>\<open>do_open\<close> and
  \<^verbatim>\<open>do_reopen\<close> differ in what they call on the children only, the function stands for both.
\<close>

definition PPNil_open :: plan where
  "PPNil_open = OpNil"

definition PPConst_open :: "tuple_cell \<Rightarrow> plan" where
  "PPConst_open c = OpConst c True"

definition PPSequence_open :: "plan list \<Rightarrow> plan" where
  "PPSequence_open ch_arr = OpSequence ch_arr 0"

definition PPSpaceSequence_open :: "bool \<Rightarrow> plan list \<Rightarrow> plan" where
  "PPSpaceSequence_open isAtomized ch_arr = OpSpaceSequence isAtomized ch_arr 0 False None"

text \<open>The fields of the cells are those of the cells before; they are not read before they are written.\<close>

definition merge_open :: merge_state where
  "merge_open = \<lparr>tug_first = True, tug_second = True, tc1 = None, tc2 = None\<rparr>"

definition PPUnion_open :: "bool \<Rightarrow> plan \<Rightarrow> plan \<Rightarrow> plan" where
  "PPUnion_open doc_order child1 child2 = OpUnion doc_order child1 child2 merge_open"

definition PPIntersect_open :: "bool \<Rightarrow> plan \<Rightarrow> plan \<Rightarrow> plan" where
  "PPIntersect_open doc_order child1 child2 = OpIntersect doc_order child1 child2 merge_open False False"

definition PPExcept_open :: "bool \<Rightarrow> plan \<Rightarrow> plan \<Rightarrow> plan" where
  "PPExcept_open doc_order child1 child2 = OpExcept doc_order child1 child2 merge_open False"

definition PPIf_open :: "plan \<Rightarrow> plan \<Rightarrow> plan \<Rightarrow> plan" where
  "PPIf_open if_child then_child else_child = OpIf if_child then_child else_child None False"

definition PPRange_open :: "plan \<Rightarrow> plan \<Rightarrow> plan" where
  "PPRange_open start_op end_op = OpRange start_op end_op \<lparr>rs_first_time = True, is_emp = False, rs_cur = 0, rs_end = 0\<rparr>"

definition PPFnEmpty_open :: "plan \<Rightarrow> plan" where
  "PPFnEmpty_open ch = OpFnEmpty ch True True"

definition PPFnExists_open :: "plan \<Rightarrow> plan" where
  "PPFnExists_open ch = OpFnExists ch True True"

definition PPFnItemAt_open :: "plan \<Rightarrow> plan \<Rightarrow> plan" where
  "PPFnItemAt_open seq_child pos_child = OpFnItemAt seq_child pos_child True"

definition PPFnIndexOf_open :: "plan \<Rightarrow> plan \<Rightarrow> plan" where
  "PPFnIndexOf_open seq_child srch_child = OpFnIndexOf seq_child srch_child False (Xs_integer 0) 0"

definition PPFnReverse_open :: "plan \<Rightarrow> plan" where
  "PPFnReverse_open ch = OpFnReverse ch True [] 0"

definition PPFnSubsequence_open :: "plan \<Rightarrow> plan \<Rightarrow> plan option \<Rightarrow> plan" where
  "PPFnSubsequence_open seq_child start_child length_child =
     OpFnSubsequence seq_child start_child length_child
       \<lparr>ss_first_time = True, need_reopen = False, start_pos = Whole 0, ss_length = Whole 0, ss_current_pos = 0\<rparr>"

definition PPFnRemove_open :: "plan \<Rightarrow> plan \<Rightarrow> plan" where
  "PPFnRemove_open seq_child pos_child = OpFnRemove seq_child pos_child True 0 0"

definition PPFnInsertBefore_open :: "plan \<Rightarrow> plan \<Rightarrow> plan \<Rightarrow> plan" where
  "PPFnInsertBefore_open seq_child pos_child ins_child =
     OpFnInsertBefore seq_child pos_child ins_child
       \<lparr>is_first_time = True, inserted = False, is_eos_reached = False, insert_pos = 0, is_current_pos = 0\<rparr>"

definition PPFnZeroOrOne_open :: "plan \<Rightarrow> plan" where
  "PPFnZeroOrOne_open ch = OpFnZeroOrOne ch True"

definition PPFnOneOrMore_open :: "plan \<Rightarrow> plan" where
  "PPFnOneOrMore_open ch = OpFnOneOrMore ch True"

definition PPFnExactlyOne_open :: "plan \<Rightarrow> plan" where
  "PPFnExactlyOne_open ch = OpFnExactlyOne ch True"

definition PPFnCount_open :: "plan \<Rightarrow> plan" where
  "PPFnCount_open ch = OpFnCount ch True"

definition PPFnSumAvg_open :: "bool \<Rightarrow> plan \<Rightarrow> plan option \<Rightarrow> plan" where
  "PPFnSumAvg_open i ch zero = OpFnSumAvg i ch zero True"

definition PPFnNot_open :: "plan \<Rightarrow> plan" where
  "PPFnNot_open ch = OpFnNot ch True True"

definition PPFnBoolean_open :: "plan \<Rightarrow> plan" where
  "PPFnBoolean_open ch = OpFnBoolean ch True True"

definition PPNodeComparison_open :: "int \<Rightarrow> plan \<Rightarrow> plan \<Rightarrow> plan" where
  "PPNodeComparison_open type seq1 seq2 = OpNodeComparison type seq1 seq2 True"

definition PPSeqChecker_open :: "check_mode \<Rightarrow> plan \<Rightarrow> plan" where
  "PPSeqChecker_open mode ch = OpSeqChecker mode ch 0 False"

definition PPVariable_open :: "nat \<Rightarrow> plan" where
  "PPVariable_open dsc = OpVariable (dsc, True)"

definition PPReturn_open :: "nat list \<Rightarrow> nat option \<Rightarrow> nat option \<Rightarrow> plan \<Rightarrow> plan \<Rightarrow> plan" where
  "PPReturn_open var_dscs pos_dsc st source_child data_child = OpReturn var_dscs pos_dsc st source_child data_child True 0 []"

definition PPSelect_open :: "nat list \<Rightarrow> nat option \<Rightarrow> plan \<Rightarrow> plan \<Rightarrow> plan" where
  "PPSelect_open var_dscs st source_child data_child = OpSelect var_dscs st source_child data_child True True"

primrec open_plan :: "pp \<Rightarrow> plan" where
  "open_plan PPNil = PPNil_open"
| "open_plan (PPConst c) = PPConst_open c"
| "open_plan (PPSequence es) = PPSequence_open (map open_plan es)"
| "open_plan (PPSpaceSequence a es) = PPSpaceSequence_open a (map open_plan es)"
| "open_plan (PPUnion d e1 e2) = PPUnion_open d (open_plan e1) (open_plan e2)"
| "open_plan (PPIntersect d e1 e2) = PPIntersect_open d (open_plan e1) (open_plan e2)"
| "open_plan (PPExcept d e1 e2) = PPExcept_open d (open_plan e1) (open_plan e2)"
| "open_plan (PPIf e1 e2 e3) = PPIf_open (open_plan e1) (open_plan e2) (open_plan e3)"
| "open_plan (PPRange e1 e2) = PPRange_open (open_plan e1) (open_plan e2)"
| "open_plan (PPFnEmpty e) = PPFnEmpty_open (open_plan e)"
| "open_plan (PPFnExists e) = PPFnExists_open (open_plan e)"
| "open_plan (PPFnItemAt e1 e2) = PPFnItemAt_open (open_plan e1) (open_plan e2)"
| "open_plan (PPFnIndexOf e1 e2) = PPFnIndexOf_open (open_plan e1) (open_plan e2)"
| "open_plan (PPFnReverse e) = PPFnReverse_open (open_plan e)"
| "open_plan (PPFnSubsequence e1 e2 e3) = PPFnSubsequence_open (open_plan e1) (open_plan e2) (map_option open_plan e3)"
| "open_plan (PPFnRemove e1 e2) = PPFnRemove_open (open_plan e1) (open_plan e2)"
| "open_plan (PPFnInsertBefore e1 e2 e3) = PPFnInsertBefore_open (open_plan e1) (open_plan e2) (open_plan e3)"
| "open_plan (PPFnZeroOrOne e) = PPFnZeroOrOne_open (open_plan e)"
| "open_plan (PPFnOneOrMore e) = PPFnOneOrMore_open (open_plan e)"
| "open_plan (PPFnExactlyOne e) = PPFnExactlyOne_open (open_plan e)"
| "open_plan (PPFnCount e) = PPFnCount_open (open_plan e)"
| "open_plan (PPFnSumAvg i e z) = PPFnSumAvg_open i (open_plan e) (map_option open_plan z)"
| "open_plan (PPFnNot e) = PPFnNot_open (open_plan e)"
| "open_plan (PPFnBoolean e) = PPFnBoolean_open (open_plan e)"
| "open_plan (PPNodeComparison k e1 e2) = PPNodeComparison_open k (open_plan e1) (open_plan e2)"
| "open_plan (PPSeqChecker m e) = PPSeqChecker_open m (open_plan e)"
| "open_plan (PPVariable d) = PPVariable_open d"
| "open_plan (PPReturn ds pd st e1 e2) = PPReturn_open ds pd st (open_plan e1) (open_plan e2)"
| "open_plan (PPSelect ds st e1 e2) = PPSelect_open ds st (open_plan e1) (open_plan e2)"

section \<open>Opening again\<close>

text \<open>
  The operators whose \<^verbatim>\<open>do_reopen\<close> is not \<^verbatim>\<open>do_open\<close> on children that are opened again: a conditional opens again
  only what was used, the reversal leaves its child alone, the sequence with spaces keeps the tuple it holds back,
  and a selection opens its source only.
\<close>

definition PPIf_reopen :: "plan \<Rightarrow> plan \<Rightarrow> plan \<Rightarrow> bool option \<Rightarrow> bool \<Rightarrow> plan \<Rightarrow> plan \<Rightarrow> plan \<Rightarrow> plan" where
  "PPIf_reopen if_child then_child else_child data_child eos_reached if_reopened then_reopened else_reopened =
     (case data_child of
        None \<Rightarrow> OpIf if_child then_child else_child None eos_reached
      | Some b \<Rightarrow> OpIf (if eos_reached then if_child else if_reopened)
                    (if b then then_reopened else then_child) (if b then else_child else else_reopened) None eos_reached)"

definition PPFnReverse_reopen :: "plan \<Rightarrow> int \<Rightarrow> plan" where
  "PPFnReverse_reopen ch pos = OpFnReverse ch True [] pos"

definition PPSpaceSequence_reopen :: "bool \<Rightarrow> plan list \<Rightarrow> bool \<Rightarrow> xqp_tuple option \<Rightarrow> plan" where
  "PPSpaceSequence_reopen isAtomized ch_arr space int_tup = OpSpaceSequence isAtomized ch_arr 0 space int_tup"

definition PPSelect_reopen :: "nat list \<Rightarrow> nat option \<Rightarrow> plan \<Rightarrow> plan \<Rightarrow> bool \<Rightarrow> bool \<Rightarrow> plan" where
  "PPSelect_reopen var_dscs st source_child data_child first_time eos_reached =
     OpSelect var_dscs st source_child data_child first_time eos_reached"

definition PPReturn_reopen :: "nat list \<Rightarrow> nat option \<Rightarrow> nat option \<Rightarrow> plan \<Rightarrow> plan \<Rightarrow> xqp_tuple \<Rightarrow> plan" where
  "PPReturn_reopen var_dscs pos_dsc st source_child data_child source =
     OpReturn var_dscs pos_dsc st source_child
       (reinit_consumer_table (var_dscs @ (case pos_dsc of None \<Rightarrow> [] | Some d \<Rightarrow> [d])) data_child) True 0 source"

definition PPVariable_reopen :: "nat \<times> bool \<Rightarrow> plan" where
  "PPVariable_reopen v = OpVariable (fst v, True)"

primrec reopen :: "plan \<Rightarrow> plan" where
  "reopen OpNil = PPNil_open"
| "reopen (OpConst c b) = PPConst_open c"
| "reopen (OpSequence ps it) = PPSequence_open (map reopen ps)"
| "reopen (OpSpaceSequence a ps it sp tup) = PPSpaceSequence_reopen a (map reopen ps) sp tup"
| "reopen (OpUnion d p q m) = PPUnion_open d (reopen p) (reopen q)"
| "reopen (OpIntersect d p q m b1 b2) = PPIntersect_open d (reopen p) (reopen q)"
| "reopen (OpExcept d p q m b) = PPExcept_open d (reopen p) (reopen q)"
| "reopen (OpIf p q r dc e) = PPIf_reopen p q r dc e (reopen p) (reopen q) (reopen r)"
| "reopen (OpRange p q m) = PPRange_open (reopen p) (reopen q)"
| "reopen (OpFnEmpty p f e) = PPFnEmpty_open (reopen p)"
| "reopen (OpFnExists p f e) = PPFnExists_open (reopen p)"
| "reopen (OpFnItemAt p q f) = PPFnItemAt_open (reopen p) (reopen q)"
| "reopen (OpFnIndexOf p q h sp pos) = PPFnIndexOf_open (reopen p) (reopen q)"
| "reopen (OpFnReverse p f s pos) = PPFnReverse_reopen p pos"
| "reopen (OpFnSubsequence p q r m) = PPFnSubsequence_open (reopen p) (reopen q) (map_option reopen r)"
| "reopen (OpFnRemove p q f rp cp) = PPFnRemove_open (reopen p) (reopen q)"
| "reopen (OpFnInsertBefore p q r m) = PPFnInsertBefore_open (reopen p) (reopen q) (reopen r)"
| "reopen (OpFnZeroOrOne p f) = PPFnZeroOrOne_open (reopen p)"
| "reopen (OpFnOneOrMore p f) = PPFnOneOrMore_open (reopen p)"
| "reopen (OpFnExactlyOne p f) = PPFnExactlyOne_open (reopen p)"
| "reopen (OpFnCount p f) = PPFnCount_open (reopen p)"
| "reopen (OpFnSumAvg i p z f) = PPFnSumAvg_open i (reopen p) (map_option reopen z)"
| "reopen (OpFnNot p f e) = PPFnNot_open (reopen p)"
| "reopen (OpFnBoolean p f e) = PPFnBoolean_open (reopen p)"
| "reopen (OpNodeComparison k p q f) = PPNodeComparison_open k (reopen p) (reopen q)"
| "reopen (OpSeqChecker m p pos x) = PPSeqChecker_open m (reopen p)"
| "reopen (OpVariable v) = PPVariable_reopen v"
| "reopen (OpReturn ds pd st p q f pos s) = PPReturn_reopen ds pd st (reopen p) (reopen q) s"
| "reopen (OpSelect ds st p q f e) = PPSelect_reopen ds st (reopen p) q f e"

section \<open>Steps\<close>

text \<open>
  A call of \<^verbatim>\<open>next\<close> gives an error, or a tuple or the end of the sequence, with the operator after the call. Nothing
  is the result of a call that has not enough fuel.
\<close>

type_synonym env = "nat \<Rightarrow> tuple_cell"

type_synonym 'r run = "(xq_error + 'r) option"

type_synonym pull = "xqp_tuple option \<times> plan"

definition ret :: "'r \<Rightarrow> 'r run" where
  "ret x = Some (Inr x)"

definition raise :: "xq_error \<Rightarrow> 'r run" where
  "raise e = Some (Inl e)"

definition bnd :: "'a run \<Rightarrow> ('a \<Rightarrow> 'b run) \<Rightarrow> 'b run" where
  "bnd r f = (case r of None \<Rightarrow> None | Some (Inl e) \<Rightarrow> Some (Inl e) | Some (Inr x) \<Rightarrow> f x)"

text \<open>A loop that reads a child to its end.\<close>

primrec until_eos :: "nat \<Rightarrow> (plan \<Rightarrow> pull run) \<Rightarrow> ('s \<Rightarrow> xqp_tuple \<Rightarrow> xq_error + 's) \<Rightarrow> 's \<Rightarrow> plan \<Rightarrow> ('s \<times> plan) run" where
  "until_eos 0 nx body s p = None"
| "until_eos (Suc k) nx body s p =
     bnd (nx p) (\<lambda>(t, p).
       case t of
         None \<Rightarrow> ret (s, p)
       | Some t \<Rightarrow> bnd (Some (body s t)) (\<lambda>s. until_eos k nx body s p))"

text \<open>An argument that has to be one item; the value is taken from the item before the end is looked for.\<close>

definition single_argument :: "(plan \<Rightarrow> pull run) \<Rightarrow> (tuple_cell \<Rightarrow> xq_error + 'v) \<Rightarrow> plan \<Rightarrow> ('v \<times> plan) run" where
  "single_argument nx value p =
     bnd (nx p) (\<lambda>(t, p).
       case t of
         None \<Rightarrow> raise XPTY0004
       | Some t \<Rightarrow> bnd (Some (value (get t))) (\<lambda>v.
           bnd (nx p) (\<lambda>(t2, p). if t2 = None then ret (v, p) else raise XPTY0004)))"

definition integer_argument :: "xq_context \<Rightarrow> atomic \<Rightarrow> xq_error + int" where
  "integer_argument cx a =
     (case a of Xs_untypedAtomic s \<Rightarrow> cast_integer cx a | Xs_integer i \<Rightarrow> Inr i | _ \<Rightarrow> Inl XPTY0004)"

text \<open>The effective boolean value of a child, whether its end was reached, and the child.\<close>

definition effective_boolean_value :: "xq_context \<Rightarrow> (plan \<Rightarrow> pull run) \<Rightarrow> plan \<Rightarrow> (bool \<times> bool \<times> plan) run" where
  "effective_boolean_value cx nx p =
     bnd (nx p) (\<lambda>(t, p).
       case t of
         None \<Rightarrow> ret (False, True, p)
       | Some t \<Rightarrow>
           (case get t of
              NodeCell l x \<Rightarrow> ret (True, False, p)
            | AtomicCell a \<Rightarrow>
                bnd (nx p) (\<lambda>(t2, p).
                  if t2 = None then bnd (Some (atomic_boolean_value cx a)) (\<lambda>b. ret (b, True, p)) else raise FORG0006)
            | EosCell \<Rightarrow> raise Impossible_case))"

end
