(* ===== verification/XqSequenceOps.thy ===== *)
theory XqSequenceOps
  imports XqPlans
begin

text \<open>
  \<^verbatim>\<open>do_next\<close> of the operators on sequences, \<^verbatim>\<open>kernel/tr/executor/xqops/PPSequenceOps.cpp\<close>, \<^verbatim>\<open>PPSequence.cpp\<close>,
  \<^verbatim>\<open>PPAggrFuncs.cpp\<close>, \<^verbatim>\<open>PPBooleanOps.cpp\<close>, \<^verbatim>\<open>PPIf.cpp\<close> and others. \<open>nx\<close> is \<^verbatim>\<open>next\<close> of children. A loop whose body
  leaves the fields so that a new call of \<^verbatim>\<open>do_next\<close> starts with the body is written as that call.
\<close>

section \<open>Constants and sequences\<close>

definition PPNil_next :: "pull run" where
  "PPNil_next = ret (None, OpNil)"

definition PPConst_next :: "tuple_cell \<Rightarrow> bool \<Rightarrow> pull run" where
  "PPConst_next c first_time = (if first_time then ret (Some [c], OpConst c False) else ret (None, OpConst c True))"

definition PPSequence_next :: "(plan \<Rightarrow> pull run) \<Rightarrow> plan list \<Rightarrow> nat \<Rightarrow> pull run" where
  "PPSequence_next nx ch_arr it =
     (if it < length ch_arr then
        bnd (nx (ch_arr ! it)) (\<lambda>(t, p).
          case t of
            None \<Rightarrow> nx (OpSequence (ch_arr[it := p]) (it + 1))
          | Some t \<Rightarrow> ret (Some t, OpSequence (ch_arr[it := p]) it))
      else ret (None, OpSequence ch_arr 0))"

definition space_tup :: tuple_cell where
  "space_tup = AtomicCell (Xs_string '' '')"

definition PPSpaceSequence_next :: "(plan \<Rightarrow> pull run) \<Rightarrow> bool \<Rightarrow> plan list \<Rightarrow> nat \<Rightarrow> bool \<Rightarrow> xqp_tuple option \<Rightarrow> pull run" where
  "PPSpaceSequence_next nx isAtomized ch_arr it space int_tup =
     (case int_tup of
        Some u \<Rightarrow> ret (Some u, OpSpaceSequence isAtomized ch_arr it (is_atomic (get u) \<or> isAtomized) None)
      | None \<Rightarrow>
          if it < length ch_arr then
            bnd (nx (ch_arr ! it)) (\<lambda>(t, p).
              case t of
                None \<Rightarrow> nx (OpSpaceSequence isAtomized (ch_arr[it := p]) (it + 1) space None)
              | Some u \<Rightarrow>
                  if space \<and> (is_atomic (get u) \<or> isAtomized)
                  then ret (Some [space_tup], OpSpaceSequence isAtomized (ch_arr[it := p]) it False (Some u))
                  else ret (Some u, OpSpaceSequence isAtomized (ch_arr[it := p]) it (is_atomic (get u) \<or> isAtomized) None))
          else ret (None, OpSpaceSequence isAtomized ch_arr 0 False None))"

section \<open>Conditional and range\<close>

definition PPIf_next :: "xq_context \<Rightarrow> (plan \<Rightarrow> pull run) \<Rightarrow> plan \<Rightarrow> plan \<Rightarrow> plan \<Rightarrow> bool option \<Rightarrow> bool \<Rightarrow> pull run" where
  "PPIf_next cx nx if_child then_child else_child data_child eos_reached =
     bnd (case data_child of
            None \<Rightarrow> effective_boolean_value cx nx if_child
          | Some b \<Rightarrow> ret (b, eos_reached, if_child))
       (\<lambda>(b, eos_reached, if_child).
         bnd (nx (if b then then_child else else_child)) (\<lambda>(t, p).
           case t of
             None \<Rightarrow> ret (None, OpIf (if eos_reached then if_child else reopen if_child)
                              (if b then p else then_child) (if b then else_child else p) None eos_reached)
           | Some t \<Rightarrow> ret (Some t, OpIf if_child (if b then p else then_child) (if b then else_child else p) (Some b) eos_reached)))"

definition getIntFromOp :: "xq_context \<Rightarrow> (plan \<Rightarrow> pull run) \<Rightarrow> bool \<Rightarrow> plan \<Rightarrow> (int \<times> bool \<times> plan) run" where
  "getIntFromOp cx nx emp p =
     bnd (nx p) (\<lambda>(t, p).
       case t of
         None \<Rightarrow> ret (0, True, p)
       | Some t \<Rightarrow> bnd (Some (atomize cx (get t))) (\<lambda>res.
           bnd (nx p) (\<lambda>(t2, p).
             if t2 \<noteq> None then raise XPTY0004
             else bnd (Some (integer_argument cx res)) (\<lambda>i. ret (i, emp, p)))))"

definition INT64_MAX :: int where
  "INT64_MAX = 2 ^ 63 - 1"

text \<open>Behind the last number the counter is increased once more, which overflows after the greatest one.\<close>

definition PPRange_next :: "xq_context \<Rightarrow> (plan \<Rightarrow> pull run) \<Rightarrow> plan \<Rightarrow> plan \<Rightarrow> range_state \<Rightarrow> pull run" where
  "PPRange_next cx nx start_op end_op m =
     bnd (if rs_first_time m then
            bnd (getIntFromOp cx nx (is_emp m) start_op) (\<lambda>(i, emp, start_op).
              bnd (getIntFromOp cx nx emp end_op) (\<lambda>(j, emp, end_op).
                ret (start_op, end_op, \<lparr>rs_first_time = False, is_emp = emp, rs_cur = i, rs_end = j\<rparr>)))
          else ret (start_op, end_op, m))
       (\<lambda>(start_op, end_op, m).
         if is_emp m \<or> rs_cur m > rs_end m
         then ret (None, OpRange start_op end_op (m\<lparr>rs_first_time := True, is_emp := False\<rparr>))
         else if rs_cur m \<ge> INT64_MAX then raise Signed_overflow
         else ret (Some [AtomicCell (Xs_integer (rs_cur m))], OpRange start_op end_op (m\<lparr>rs_cur := rs_cur m + 1\<rparr>)))"

section \<open>Tests\<close>

definition PPFnEmpty_next :: "(plan \<Rightarrow> pull run) \<Rightarrow> plan \<Rightarrow> bool \<Rightarrow> bool \<Rightarrow> pull run" where
  "PPFnEmpty_next nx p first_time eos_reached =
     (if first_time then
        bnd (nx (if eos_reached then p else reopen p)) (\<lambda>(t, p).
          ret (Some [AtomicCell (Xs_boolean (t = None))], OpFnEmpty p False (t = None)))
      else ret (None, OpFnEmpty p True eos_reached))"

definition PPFnExists_next :: "(plan \<Rightarrow> pull run) \<Rightarrow> plan \<Rightarrow> bool \<Rightarrow> bool \<Rightarrow> pull run" where
  "PPFnExists_next nx p first_time eos_reached =
     (if first_time then
        bnd (nx (if eos_reached then p else reopen p)) (\<lambda>(t, p).
          ret (Some [AtomicCell (Xs_boolean (t \<noteq> None))], OpFnExists p False (t = None)))
      else ret (None, OpFnExists p True eos_reached))"

definition PPFnNot_next :: "xq_context \<Rightarrow> (plan \<Rightarrow> pull run) \<Rightarrow> plan \<Rightarrow> bool \<Rightarrow> bool \<Rightarrow> pull run" where
  "PPFnNot_next cx nx p first_time eos_reached =
     (if first_time then
        bnd (effective_boolean_value cx nx (if eos_reached then p else reopen p)) (\<lambda>(b, eos_reached, p).
          ret (Some [AtomicCell (Xs_boolean (\<not> b))], OpFnNot p False eos_reached))
      else ret (None, OpFnNot p True eos_reached))"

definition PPFnBoolean_next :: "xq_context \<Rightarrow> (plan \<Rightarrow> pull run) \<Rightarrow> plan \<Rightarrow> bool \<Rightarrow> bool \<Rightarrow> pull run" where
  "PPFnBoolean_next cx nx p first_time eos_reached =
     (if first_time then
        bnd (effective_boolean_value cx nx (if eos_reached then p else reopen p)) (\<lambda>(b, eos_reached, p).
          ret (Some [AtomicCell (Xs_boolean b)], OpFnBoolean p False eos_reached))
      else ret (None, OpFnBoolean p True eos_reached))"

section \<open>Cardinality\<close>

definition PPFnZeroOrOne_next :: "(plan \<Rightarrow> pull run) \<Rightarrow> plan \<Rightarrow> bool \<Rightarrow> pull run" where
  "PPFnZeroOrOne_next nx p first_time =
     (if first_time then
        bnd (nx p) (\<lambda>(t, p).
          case t of
            None \<Rightarrow> ret (None, OpFnZeroOrOne p True)
          | Some t \<Rightarrow> bnd (nx p) (\<lambda>(t2, p). if t2 \<noteq> None then raise FORG0003 else ret (Some t, OpFnZeroOrOne p False)))
      else ret (None, OpFnZeroOrOne p True))"

definition PPFnOneOrMore_next :: "(plan \<Rightarrow> pull run) \<Rightarrow> plan \<Rightarrow> bool \<Rightarrow> pull run" where
  "PPFnOneOrMore_next nx p first_time =
     bnd (nx p) (\<lambda>(t, p).
       case t of
         None \<Rightarrow> if first_time then raise FORG0004 else ret (None, OpFnOneOrMore p True)
       | Some t \<Rightarrow> ret (Some t, OpFnOneOrMore p False))"

definition PPFnExactlyOne_next :: "(plan \<Rightarrow> pull run) \<Rightarrow> plan \<Rightarrow> bool \<Rightarrow> pull run" where
  "PPFnExactlyOne_next nx p first_time =
     (if first_time then
        bnd (nx p) (\<lambda>(t, p).
          case t of
            None \<Rightarrow> raise FORG0005
          | Some t \<Rightarrow> bnd (nx p) (\<lambda>(t2, p). if t2 \<noteq> None then raise FORG0005 else ret (Some t, OpFnExactlyOne p False)))
      else ret (None, OpFnExactlyOne p True))"

section \<open>Positions\<close>

text \<open>The loop of \<^verbatim>\<open>fn:item-at\<close>; the end is the result only when it comes first.\<close>

primrec item_loop :: "(plan \<Rightarrow> pull run) \<Rightarrow> nat \<Rightarrow> bool \<Rightarrow> plan \<Rightarrow> pull run" where
  "item_loop nx 0 first p = raise Impossible_case"
| "item_loop nx (Suc k) first p =
     bnd (nx p) (\<lambda>(t, p).
       case t of
         None \<Rightarrow> if first then ret (None, p) else raise SE1007
       | Some t \<Rightarrow> if k = 0 then ret (Some t, p) else item_loop nx k False p)"

definition PPFnItemAt_next :: "xq_context \<Rightarrow> (plan \<Rightarrow> pull run) \<Rightarrow> plan \<Rightarrow> plan \<Rightarrow> bool \<Rightarrow> pull run" where
  "PPFnItemAt_next cx nx seq_child pos_child first_time =
     (if first_time then
        bnd (single_argument nx (\<lambda>c. case c of AtomicCell a \<Rightarrow> cast_integer cx a | _ \<Rightarrow> Inl Impossible_case) pos_child) (\<lambda>(pos, pos_child).
          if pos < 1 then raise SE1007
          else bnd (item_loop nx (nat pos) True seq_child) (\<lambda>(t, seq_child).
                 ret (t, OpFnItemAt seq_child pos_child (t = None))))
      else ret (None, OpFnItemAt (reopen seq_child) pos_child True))"

text \<open>The function with two arguments; errors of the comparison are passed over.\<close>

definition PPFnIndexOf_next :: "xq_context \<Rightarrow> (plan \<Rightarrow> pull run) \<Rightarrow> plan \<Rightarrow> plan \<Rightarrow> bool \<Rightarrow> atomic \<Rightarrow> int \<Rightarrow> pull run" where
  "PPFnIndexOf_next cx nx seq_child srch_child handler search_param pos =
     bnd (if handler then ret (search_param, srch_child) else single_argument nx (atomize cx) srch_child) (\<lambda>(search_param, srch_child).
       bnd (nx seq_child) (\<lambda>(t, seq_child).
         case t of
           None \<Rightarrow> ret (None, OpFnIndexOf seq_child srch_child False search_param 0)
         | Some t \<Rightarrow> bnd (Some (atomize cx (get t))) (\<lambda>a.
             if op_eq cx a search_param = Inr True
             then ret (Some [AtomicCell (Xs_integer (pos + 1))], OpFnIndexOf seq_child srch_child True search_param (pos + 1))
             else nx (OpFnIndexOf seq_child srch_child True search_param (pos + 1)))))"

definition PPFnReverse_next :: "nat \<Rightarrow> (plan \<Rightarrow> pull run) \<Rightarrow> plan \<Rightarrow> bool \<Rightarrow> xqp_tuple list \<Rightarrow> int \<Rightarrow> pull run" where
  "PPFnReverse_next k nx p first_time s pos =
     bnd (if first_time then until_eos k nx (\<lambda>(s, pos) t. Inr (s @ [t], pos + 1)) (s, -1) p else ret ((s, pos), p))
       (\<lambda>((s, pos), p).
         if pos \<ge> 0 then ret (Some (s ! nat pos), OpFnReverse p False s (pos - 1)) else ret (None, OpFnReverse p True [] pos))"

definition double_argument :: "xq_context \<Rightarrow> tuple_cell \<Rightarrow> xq_error + xs_double" where
  "double_argument cx c =
     (case atomize cx c of
        Inl e \<Rightarrow> Inl e
      | Inr a \<Rightarrow> if is_numeric_type a \<or> (case a of Xs_untypedAtomic s \<Rightarrow> True | _ \<Rightarrow> False) then round_double cx a else Inl XPTY0004)"

definition PPFnSubsequence_next :: "xq_context \<Rightarrow> (plan \<Rightarrow> pull run) \<Rightarrow> plan \<Rightarrow> plan \<Rightarrow> plan option \<Rightarrow> subseq_state \<Rightarrow> pull run" where
  "PPFnSubsequence_next cx nx seq_child start_child length_child m =
     bnd (if ss_first_time m then
            bnd (single_argument nx (double_argument cx) start_child) (\<lambda>(st, start_child).
              bnd (case length_child of
                     None \<Rightarrow> ret (ss_length m, None)
                   | Some lc \<Rightarrow> bnd (single_argument nx (double_argument cx) lc) (\<lambda>(len, lc). ret (len, Some lc)))
                (\<lambda>(len, length_child).
                  ret (start_child, length_child, m\<lparr>ss_first_time := False, start_pos := st, ss_length := len, ss_current_pos := 0\<rparr>)))
          else ret (start_child, length_child, m))
       (\<lambda>(start_child, length_child, m).
         let seq_child = (if need_reopen m then reopen seq_child else seq_child);
             m = m\<lparr>need_reopen := False\<rparr>;
             done = m\<lparr>ss_first_time := True\<rparr>
         in if length_child = None \<or> double_gt (ss_length m) 0 then
              bnd (nx seq_child) (\<lambda>(t, seq_child).
                let pos = ss_current_pos m + 1;
                    length_check = (length_child = None \<or> double_gt (double_add (start_pos m) (ss_length m)) pos)
                in case t of
                     None \<Rightarrow> ret (None, OpFnSubsequence seq_child start_child length_child (done\<lparr>ss_current_pos := pos\<rparr>))
                   | Some t \<Rightarrow>
                       if \<not> length_check
                       then ret (None, OpFnSubsequence seq_child start_child length_child (done\<lparr>need_reopen := True, ss_current_pos := pos\<rparr>))
                       else if double_le (start_pos m) pos
                       then ret (Some t, OpFnSubsequence seq_child start_child length_child (m\<lparr>ss_current_pos := pos\<rparr>))
                       else nx (OpFnSubsequence seq_child start_child length_child (m\<lparr>ss_current_pos := pos\<rparr>)))
            else ret (None, OpFnSubsequence seq_child start_child length_child done))"

definition integer_of_cell :: "xq_context \<Rightarrow> tuple_cell \<Rightarrow> xq_error + int" where
  "integer_of_cell cx c = (case atomize cx c of Inl e \<Rightarrow> Inl e | Inr a \<Rightarrow> integer_argument cx a)"

definition PPFnRemove_next :: "xq_context \<Rightarrow> (plan \<Rightarrow> pull run) \<Rightarrow> plan \<Rightarrow> plan \<Rightarrow> bool \<Rightarrow> int \<Rightarrow> int \<Rightarrow> pull run" where
  "PPFnRemove_next cx nx seq_child pos_child first_time remove_pos current_pos =
     bnd (if first_time then bnd (single_argument nx (integer_of_cell cx) pos_child) (\<lambda>(i, pos_child). ret (i, 0, pos_child))
          else ret (remove_pos, current_pos, pos_child))
       (\<lambda>(remove_pos, current_pos, pos_child).
         bnd (nx seq_child) (\<lambda>(t, seq_child).
           if t \<noteq> None \<and> current_pos + 1 = remove_pos
           then bnd (nx seq_child) (\<lambda>(t, seq_child).
                  ret (t, OpFnRemove seq_child pos_child (t = None) remove_pos (current_pos + 2)))
           else ret (t, OpFnRemove seq_child pos_child (t = None) remove_pos (current_pos + 1))))"

text \<open>
  The three parts of \<^verbatim>\<open>fn:insert-before\<close> after its argument is known: the inserted sequence at its place, the next item
  of the sequence, the inserted sequence behind the end.
\<close>

definition insert_tail :: "(plan \<Rightarrow> pull run) \<Rightarrow> plan \<Rightarrow> plan \<Rightarrow> plan \<Rightarrow> insert_state \<Rightarrow> pull run" where
  "insert_tail nx seq_child pos_child ins_child m =
     bnd (if is_eos_reached m then ret (None, seq_child, m)
          else bnd (nx seq_child) (\<lambda>(t, seq_child). ret (t, seq_child, m\<lparr>is_current_pos := is_current_pos m + 1, is_eos_reached := (t = None)\<rparr>)))
       (\<lambda>(t, seq_child, m).
         if \<not> inserted m \<and> is_eos_reached m then
           bnd (nx ins_child) (\<lambda>(t, ins_child).
             ret (t, OpFnInsertBefore seq_child pos_child ins_child (if t = None then m\<lparr>inserted := True, is_first_time := True\<rparr> else m)))
         else ret (t, OpFnInsertBefore seq_child pos_child ins_child (if inserted m \<and> is_eos_reached m then m\<lparr>is_first_time := True\<rparr> else m)))"

definition PPFnInsertBefore_next :: "xq_context \<Rightarrow> (plan \<Rightarrow> pull run) \<Rightarrow> plan \<Rightarrow> plan \<Rightarrow> plan \<Rightarrow> insert_state \<Rightarrow> pull run" where
  "PPFnInsertBefore_next cx nx seq_child pos_child ins_child m =
     bnd (if is_first_time m then
            bnd (single_argument nx (integer_of_cell cx) pos_child) (\<lambda>(i, pos_child).
              ret (pos_child, \<lparr>is_first_time = False, inserted = False, is_eos_reached = False, insert_pos = i, is_current_pos = 1\<rparr>))
          else ret (pos_child, m))
       (\<lambda>(pos_child, m).
         if \<not> inserted m \<and> (is_current_pos m = insert_pos m \<or> insert_pos m < 1) then
           bnd (nx ins_child) (\<lambda>(t, ins_child).
             case t of
               None \<Rightarrow> insert_tail nx seq_child pos_child ins_child (m\<lparr>inserted := True\<rparr>)
             | Some t \<Rightarrow> ret (Some t, OpFnInsertBefore seq_child pos_child ins_child m))
         else insert_tail nx seq_child pos_child ins_child m)"

section \<open>Aggregates\<close>

definition PPFnCount_next :: "nat \<Rightarrow> (plan \<Rightarrow> pull run) \<Rightarrow> plan \<Rightarrow> bool \<Rightarrow> pull run" where
  "PPFnCount_next k nx p first_time =
     (if first_time then
        bnd (until_eos k nx (\<lambda>n t. Inr (n + 1)) 0 p) (\<lambda>(n, p). ret (Some [AtomicCell (Xs_integer n)], OpFnCount p False))
      else ret (None, OpFnCount p True))"

definition sum_item :: "xq_context \<Rightarrow> atomic option \<times> int \<Rightarrow> xqp_tuple \<Rightarrow> xq_error + atomic option \<times> int" where
  "sum_item cx s t =
     (case atomize cx (get t) of
        Inl e \<Rightarrow> Inl e
      | Inr a \<Rightarrow>
          (case (case a of Xs_untypedAtomic u \<Rightarrow> cast_double cx a | _ \<Rightarrow> Inr a) of
             Inl e \<Rightarrow> Inl e
           | Inr tca \<Rightarrow>
               if \<not> is_numeric_type tca \<and> (case tca of Xs_other ty v \<Rightarrow> ty \<notin> {''xs:yearMonthDuration'', ''xs:dayTimeDuration''} | _ \<Rightarrow> True)
               then Inl FORG0006
               else (case fst s of
                       None \<Rightarrow> Inr (Some tca, snd s + 1)
                     | Some res \<Rightarrow> (case op_add cx tca res of Inl e \<Rightarrow> Inl FORG0006 | Inr r \<Rightarrow> Inr (Some r, snd s + 1)))))"

text \<open>\<open>i\<close> is true for the average.\<close>

definition PPFnSumAvg_next :: "xq_context \<Rightarrow> nat \<Rightarrow> (plan \<Rightarrow> pull run) \<Rightarrow> bool \<Rightarrow> plan \<Rightarrow> plan option \<Rightarrow> bool \<Rightarrow> pull run" where
  "PPFnSumAvg_next cx k nx i p zero first_time =
     (if first_time then
        bnd (until_eos k nx (sum_item cx) (None, 0) p) (\<lambda>((res, n), p).
          case res of
            Some r \<Rightarrow>
              bnd (Some (if i then op_div cx r (Xs_integer n) else Inr r)) (\<lambda>r. ret (Some [AtomicCell r], OpFnSumAvg i p zero False))
          | None \<Rightarrow>
              (case zero of
                 None \<Rightarrow> if i then ret (None, OpFnSumAvg i p zero False)
                        else ret (Some [AtomicCell (Xs_integer 0)], OpFnSumAvg i p zero False)
               | Some z \<Rightarrow>
                   bnd (nx z) (\<lambda>(t, z).
                     case t of
                       None \<Rightarrow> ret (None, OpFnSumAvg i p (Some z) True)
                     | Some t \<Rightarrow> bnd (Some (atomize cx (get t))) (\<lambda>a.
                         bnd (nx z) (\<lambda>(t2, z).
                           if t2 \<noteq> None then raise XPTY0004 else ret (Some [AtomicCell a], OpFnSumAvg i p (Some z) False))))))
      else ret (None, OpFnSumAvg i p zero True))"

end
