(* ===== verification/XqNodeOps.thy ===== *)
theory XqNodeOps
  imports XqPlans
begin

text \<open>
  \<^verbatim>\<open>do_next\<close> of the operators on sequences of nodes: union, intersection and difference of sequences in document order,
  \<^verbatim>\<open>PPUnion.cpp\<close>, \<^verbatim>\<open>PPIntersect.cpp\<close>, \<^verbatim>\<open>PPExcept.cpp\<close>, the comparison of two nodes, \<^verbatim>\<open>PPNodeComparison.cpp\<close>, and the
  check of a step's result, \<^verbatim>\<open>PPSeqChecker.cpp\<close>, all in \<^verbatim>\<open>kernel/tr/executor/xqops\<close>.
\<close>

section \<open>Set operations\<close>

text \<open>The next cell of a child, if it is asked for.\<close>

definition tug :: "(plan \<Rightarrow> pull run) \<Rightarrow> bool \<Rightarrow> tuple_cell option \<Rightarrow> plan \<Rightarrow> (tuple_cell option \<times> plan) run" where
  "tug nx wanted tc p =
     (if wanted then
        bnd (nx p) (\<lambda>(t, p).
          case t of
            None \<Rightarrow> ret (None, p)
          | Some t \<Rightarrow> if is_node (get t) then ret (Some (get t), p) else raise XPTY0004)
      else ret (tc, p))"

definition PPUnion_next :: "(plan \<Rightarrow> pull run) \<Rightarrow> bool \<Rightarrow> plan \<Rightarrow> plan \<Rightarrow> merge_state \<Rightarrow> pull run" where
  "PPUnion_next nx doc_order child1 child2 m =
     bnd (tug nx (tug_first m) (tc1 m) child1) (\<lambda>(c1, child1).
       bnd (tug nx (tug_second m) (tc2 m) child2) (\<lambda>(c2, child2).
         let k = cell_compare doc_order c1 c2
         in if k = -1 then
              ret (map_option (\<lambda>c. [c]) c1, OpUnion doc_order child1 child2 \<lparr>tug_first = True, tug_second = False, tc1 = c1, tc2 = c2\<rparr>)
            else if k = 0 then
              ret (map_option (\<lambda>c. [c]) c1, OpUnion doc_order child1 child2 \<lparr>tug_first = True, tug_second = True, tc1 = c1, tc2 = c2\<rparr>)
            else if k = 1 then
              ret (map_option (\<lambda>c. [c]) c2, OpUnion doc_order child1 child2 \<lparr>tug_first = False, tug_second = True, tc1 = c1, tc2 = c2\<rparr>)
            else raise Impossible_case))"

definition PPIntersect_next :: "(plan \<Rightarrow> pull run) \<Rightarrow> bool \<Rightarrow> plan \<Rightarrow> plan \<Rightarrow> merge_state \<Rightarrow> bool \<Rightarrow> bool \<Rightarrow> pull run" where
  "PPIntersect_next nx doc_order child1 child2 m need_reopen_first need_reopen_second =
     bnd (tug nx (tug_first m) (tc1 m) (if need_reopen_first then reopen child1 else child1)) (\<lambda>(c1, child1).
       bnd (tug nx (tug_second m) (tc2 m) (if need_reopen_second then reopen child2 else child2)) (\<lambda>(c2, child2).
         let k = cell_compare doc_order c1 c2;
             both = \<lparr>tug_first = True, tug_second = True, tc1 = c1, tc2 = c2\<rparr>
         in if k = -1 then
              (if c2 = None then ret (None, OpIntersect doc_order child1 child2 both True False)
               else nx (OpIntersect doc_order child1 child2 (both\<lparr>tug_second := False\<rparr>) False False))
            else if k = 0 then
              ret (map_option (\<lambda>c. [c]) c1, OpIntersect doc_order child1 child2 both False False)
            else if k = 1 then
              (if c1 = None then ret (None, OpIntersect doc_order child1 child2 both False True)
               else nx (OpIntersect doc_order child1 child2 (both\<lparr>tug_first := False\<rparr>) False False))
            else raise Impossible_case))"

definition PPExcept_next :: "(plan \<Rightarrow> pull run) \<Rightarrow> bool \<Rightarrow> plan \<Rightarrow> plan \<Rightarrow> merge_state \<Rightarrow> bool \<Rightarrow> pull run" where
  "PPExcept_next nx doc_order child1 child2 m need_reopen_second =
     bnd (tug nx (tug_first m) (tc1 m) child1) (\<lambda>(c1, child1).
       bnd (tug nx (tug_second m) (tc2 m) (if need_reopen_second then reopen child2 else child2)) (\<lambda>(c2, child2).
         let k = cell_compare doc_order c1 c2;
             both = \<lparr>tug_first = True, tug_second = True, tc1 = c1, tc2 = c2\<rparr>
         in if k = -1 then
              ret (map_option (\<lambda>c. [c]) c1, OpExcept doc_order child1 child2 (both\<lparr>tug_second := False\<rparr>) False)
            else if k = 0 then
              (if c1 = None then ret (None, OpExcept doc_order child1 child2 both False)
               else nx (OpExcept doc_order child1 child2 both False))
            else if k = 1 then
              (if c1 = None then ret (None, OpExcept doc_order child1 child2 both True)
               else nx (OpExcept doc_order child1 child2 (both\<lparr>tug_first := False\<rparr>) False))
            else raise Impossible_case))"

section \<open>Comparison of two nodes\<close>

text \<open>Type -1 is \<^verbatim>\<open><<\<close>, 0 is \<^verbatim>\<open>is\<close>, 1 is \<^verbatim>\<open>>>\<close>, and 2 asks for an ancestor.\<close>

definition compare_nodes :: "int \<Rightarrow> tuple_cell \<Rightarrow> tuple_cell \<Rightarrow> xq_error + bool" where
  "compare_nodes type c1 c2 =
     (case (c1, c2) of
        (NodeCell l x, NodeCell m y) \<Rightarrow>
          if type = -1 then Inr (nid_cmp l m < 0)
          else if type = 0 then Inr (l = m)
          else if type = 1 then Inr (nid_cmp l m > 0)
          else if type = 2 then Inr (nid_cmp_effective l m = Inr (-2))
          else Inl Impossible_case
      | _ \<Rightarrow> Inl XPTY0004)"

definition finish_child :: "(plan \<Rightarrow> pull run) \<Rightarrow> xqp_tuple option \<Rightarrow> plan \<Rightarrow> plan run" where
  "finish_child nx t p =
     (if t = None then ret p else bnd (nx p) (\<lambda>(t2, p). if t2 \<noteq> None then raise XPTY0004 else ret p))"

definition node_or_eos :: "xqp_tuple option \<Rightarrow> bool" where
  "node_or_eos t = (case t of None \<Rightarrow> True | Some t \<Rightarrow> is_node (get t))"

definition PPNodeComparison_next :: "(plan \<Rightarrow> pull run) \<Rightarrow> int \<Rightarrow> plan \<Rightarrow> plan \<Rightarrow> bool \<Rightarrow> pull run" where
  "PPNodeComparison_next nx type seq1 seq2 first_time =
     (if first_time then
        bnd (nx seq1) (\<lambda>(t1, seq1). bnd (nx seq2) (\<lambda>(t2, seq2).
          if \<not> (node_or_eos t1 \<and> node_or_eos t2) then raise XPTY0004
          else bnd (case (t1, t2) of
                      (Some u1, Some u2) \<Rightarrow> Some (map_sum id Some (compare_nodes type (get u1) (get u2)))
                    | _ \<Rightarrow> ret None) (\<lambda>b.
                 bnd (finish_child nx t1 seq1) (\<lambda>seq1. bnd (finish_child nx t2 seq2) (\<lambda>seq2.
                   ret (map_option (\<lambda>b. [AtomicCell (Xs_boolean b)]) b, OpNodeComparison type seq1 seq2 (b = None)))))))
      else ret (None, OpNodeComparison type seq1 seq2 True))"

section \<open>The result of a step\<close>

definition PPSeqChecker_next :: "(plan \<Rightarrow> pull run) \<Rightarrow> check_mode \<Rightarrow> plan \<Rightarrow> int \<Rightarrow> bool \<Rightarrow> pull run" where
  "PPSeqChecker_next nx mode p pos expect_nodes =
     bnd (nx p) (\<lambda>(t, p).
       case t of
         None \<Rightarrow> ret (None, OpSeqChecker mode p 0 expect_nodes)
       | Some t \<Rightarrow>
           if pos = 0 \<and> mode = CHECK_MIX then ret (Some t, OpSeqChecker mode p (pos + 1) (is_node (get t)))
           else if mode = CHECK_NODE then
             (if is_node (get t) then ret (Some t, OpSeqChecker mode p (pos + 1) expect_nodes) else raise XPTY0019)
           else if expect_nodes \<noteq> is_node (get t) then raise XPTY0018
           else ret (Some t, OpSeqChecker mode p (pos + 1) expect_nodes))"

end
