(* ===== verification/XqBindings.thy ===== *)
theory XqBindings
  imports XqSequenceOps XqNodeOps
begin

text \<open>
  \<^verbatim>\<open>do_next\<close> of the operators that bind variables and of variables, \<^verbatim>\<open>PPReturn.cpp\<close>, \<^verbatim>\<open>PPSelect.cpp\<close> and \<^verbatim>\<open>PPVariable.cpp\<close> of
  \<^verbatim>\<open>kernel/tr/executor/xqops\<close>, and \<^verbatim>\<open>next\<close> of a plan. A variable asks the operator that binds it for its value; here
  that operator hands the values to its children when it calls them.
\<close>

section \<open>Variables\<close>

definition bind_tuple :: "nat list \<Rightarrow> nat option \<Rightarrow> xqp_tuple \<Rightarrow> int \<Rightarrow> env \<Rightarrow> env" where
  "bind_tuple var_dscs pos_dsc source pos \<rho> dsc =
     (if pos_dsc = Some dsc then AtomicCell (Xs_integer pos)
      else case map_of (zip var_dscs source) dsc of Some c \<Rightarrow> c | None \<Rightarrow> \<rho> dsc)"

definition PPVariable_next :: "env \<Rightarrow> nat \<times> bool \<Rightarrow> pull run" where
  "PPVariable_next \<rho> v =
     (case v of (dsc, svc) \<Rightarrow> if svc then ret (Some [\<rho> dsc], OpVariable (dsc, False)) else ret (None, OpVariable (dsc, True)))"

section \<open>Iteration and selection\<close>

text \<open>
  The loop of \<^verbatim>\<open>PPReturn::do_next\<close> reads the source after the end of the data child; with \<^verbatim>\<open>first_time\<close> set, a call starts
  there, and without it with the data child.
\<close>

definition PPReturn_next ::
  "xq_context \<Rightarrow> (env \<Rightarrow> plan \<Rightarrow> pull run) \<Rightarrow> env \<Rightarrow> nat list \<Rightarrow> nat option \<Rightarrow> nat option \<Rightarrow> plan \<Rightarrow> plan \<Rightarrow> bool \<Rightarrow> int \<Rightarrow> xqp_tuple \<Rightarrow> pull run"
where
  "PPReturn_next cx nx \<rho> var_dscs pos_dsc st source_child data_child first_time pos source =
     (let table = var_dscs @ (case pos_dsc of None \<Rightarrow> [] | Some d \<Rightarrow> [d])
      in if first_time then
           bnd (nx \<rho> source_child) (\<lambda>(s, source_child).
             case s of
               None \<Rightarrow> ret (None, OpReturn var_dscs pos_dsc st source_child (reinit_consumer_table table data_child) True 0 source)
             | Some s \<Rightarrow>
                 if (case st of None \<Rightarrow> False | Some ty \<Rightarrow> \<not> type_matches_single cx ty (get s)) then raise XPTY0004
                 else nx \<rho> (OpReturn var_dscs pos_dsc st source_child (reinit_consumer_table table data_child) False (pos + 1) s))
         else
           bnd (nx (bind_tuple var_dscs pos_dsc source pos \<rho>) data_child) (\<lambda>(t, data_child).
             case t of
               None \<Rightarrow> nx \<rho> (OpReturn var_dscs pos_dsc st source_child data_child True pos source)
             | Some t \<Rightarrow> ret (Some t, OpReturn var_dscs pos_dsc st source_child data_child False pos source)))"

definition PPSelect_next ::
  "xq_context \<Rightarrow> (env \<Rightarrow> plan \<Rightarrow> pull run) \<Rightarrow> env \<Rightarrow> nat list \<Rightarrow> nat option \<Rightarrow> plan \<Rightarrow> plan \<Rightarrow> bool \<Rightarrow> bool \<Rightarrow> pull run"
where
  "PPSelect_next cx nx \<rho> var_dscs st source_child data_child first_time eos_reached =
     bnd (nx \<rho> source_child) (\<lambda>(s, source_child).
       case s of
         None \<Rightarrow> ret (None, OpSelect var_dscs st source_child data_child first_time eos_reached)
       | Some t \<Rightarrow>
           if (case st of None \<Rightarrow> False | Some ty \<Rightarrow> \<not> type_matches_single cx ty (get t)) then raise XPTY0004
           else
             let data_child = (if first_time then data_child
                               else let p = reinit_consumer_table var_dscs data_child in if eos_reached then p else reopen p)
             in bnd (effective_boolean_value cx (nx (bind_tuple var_dscs None t 0 \<rho>)) data_child) (\<lambda>(b, eos_reached, data_child).
                  if b then ret (Some t, OpSelect var_dscs st source_child data_child False eos_reached)
                  else nx \<rho> (OpSelect var_dscs st source_child data_child False eos_reached)))"

section \<open>Plans\<close>

primrec next_plan :: "xq_context \<Rightarrow> nat \<Rightarrow> env \<Rightarrow> plan \<Rightarrow> pull run" where
  "next_plan cx 0 = (\<lambda>\<rho> p. None)"
| "next_plan cx (Suc n) =
     (\<lambda>\<rho> p. case p of
        OpNil \<Rightarrow> PPNil_next
      | OpConst c f \<Rightarrow> PPConst_next c f
      | OpSequence ps it \<Rightarrow> PPSequence_next (next_plan cx n \<rho>) ps it
      | OpSpaceSequence a ps it sp tup \<Rightarrow> PPSpaceSequence_next (next_plan cx n \<rho>) a ps it sp tup
      | OpUnion d p q m \<Rightarrow> PPUnion_next (next_plan cx n \<rho>) d p q m
      | OpIntersect d p q m b1 b2 \<Rightarrow> PPIntersect_next (next_plan cx n \<rho>) d p q m b1 b2
      | OpExcept d p q m b \<Rightarrow> PPExcept_next (next_plan cx n \<rho>) d p q m b
      | OpIf p q r dc e \<Rightarrow> PPIf_next cx (next_plan cx n \<rho>) p q r dc e
      | OpRange p q m \<Rightarrow> PPRange_next cx (next_plan cx n \<rho>) p q m
      | OpFnEmpty p f e \<Rightarrow> PPFnEmpty_next (next_plan cx n \<rho>) p f e
      | OpFnExists p f e \<Rightarrow> PPFnExists_next (next_plan cx n \<rho>) p f e
      | OpFnItemAt p q f \<Rightarrow> PPFnItemAt_next cx (next_plan cx n \<rho>) p q f
      | OpFnIndexOf p q h sp pos \<Rightarrow> PPFnIndexOf_next cx (next_plan cx n \<rho>) p q h sp pos
      | OpFnReverse p f s pos \<Rightarrow> PPFnReverse_next n (next_plan cx n \<rho>) p f s pos
      | OpFnSubsequence p q r m \<Rightarrow> PPFnSubsequence_next cx (next_plan cx n \<rho>) p q r m
      | OpFnRemove p q f rp cp \<Rightarrow> PPFnRemove_next cx (next_plan cx n \<rho>) p q f rp cp
      | OpFnInsertBefore p q r m \<Rightarrow> PPFnInsertBefore_next cx (next_plan cx n \<rho>) p q r m
      | OpFnZeroOrOne p f \<Rightarrow> PPFnZeroOrOne_next (next_plan cx n \<rho>) p f
      | OpFnOneOrMore p f \<Rightarrow> PPFnOneOrMore_next (next_plan cx n \<rho>) p f
      | OpFnExactlyOne p f \<Rightarrow> PPFnExactlyOne_next (next_plan cx n \<rho>) p f
      | OpFnCount p f \<Rightarrow> PPFnCount_next n (next_plan cx n \<rho>) p f
      | OpFnSumAvg i p z f \<Rightarrow> PPFnSumAvg_next cx n (next_plan cx n \<rho>) i p z f
      | OpFnNot p f e \<Rightarrow> PPFnNot_next cx (next_plan cx n \<rho>) p f e
      | OpFnBoolean p f e \<Rightarrow> PPFnBoolean_next cx (next_plan cx n \<rho>) p f e
      | OpNodeComparison k p q f \<Rightarrow> PPNodeComparison_next (next_plan cx n \<rho>) k p q f
      | OpSeqChecker md p pos x \<Rightarrow> PPSeqChecker_next (next_plan cx n \<rho>) md p pos x
      | OpVariable v \<Rightarrow> PPVariable_next \<rho> v
      | OpReturn ds pd st p q f pos s \<Rightarrow> PPReturn_next cx (next_plan cx n) \<rho> ds pd st p q f pos s
      | OpSelect ds st p q f e \<Rightarrow> PPSelect_next cx (next_plan cx n) \<rho> ds st p q f e)"

end
