(* ===== verification/XqMeaning.thy ===== *)
theory XqMeaning
  imports XqBindings
begin

text \<open>
  The meaning of a plan, without operators that are called: the tuples it gives and the error that ends them, if
  one does. Evaluation is lazy, so an error counts only where a tuple behind the others is asked for.
\<close>

section \<open>Outcomes\<close>

type_synonym outcome = "xqp_tuple list \<times> xq_error option"

definition fails :: "xq_error \<Rightarrow> outcome" where
  "fails e = ([], Some e)"

definition one :: "tuple_cell \<Rightarrow> outcome" where
  "one c = ([[c]], None)"

definition bool_cell :: "bool \<Rightarrow> tuple_cell" where
  "bool_cell b = AtomicCell (Xs_boolean b)"

definition int_cell :: "int \<Rightarrow> tuple_cell" where
  "int_cell i = AtomicCell (Xs_integer i)"

definition o_cons :: "xqp_tuple \<Rightarrow> outcome \<Rightarrow> outcome" where
  "o_cons t r = (t # fst r, snd r)"

definition o_append :: "outcome \<Rightarrow> outcome \<Rightarrow> outcome" where
  "o_append r s = (if snd r = None then (fst r @ fst s, snd s) else r)"

definition after :: "outcome \<Rightarrow> outcome" where
  "after r = (tl (fst r), snd r)"

definition with_value :: "xq_error + 'a \<Rightarrow> ('a \<Rightarrow> outcome) \<Rightarrow> outcome" where
  "with_value v f = (case v of Inl e \<Rightarrow> fails e | Inr x \<Rightarrow> f x)"

section \<open>Arguments\<close>

definition o_single :: "(tuple_cell \<Rightarrow> xq_error + 'v) \<Rightarrow> outcome \<Rightarrow> xq_error + 'v" where
  "o_single value r =
     (case r of
        ([], None) \<Rightarrow> Inl XPTY0004
      | ([], Some e) \<Rightarrow> Inl e
      | (t # ts, e) \<Rightarrow>
          (case value (get t) of
             Inl x \<Rightarrow> Inl x
           | Inr v \<Rightarrow> (case (ts, e) of ([], None) \<Rightarrow> Inr v | ([], Some x) \<Rightarrow> Inl x | _ \<Rightarrow> Inl XPTY0004)))"

definition o_boolean :: "xq_context \<Rightarrow> outcome \<Rightarrow> xq_error + bool" where
  "o_boolean cx r =
     (case r of
        ([], None) \<Rightarrow> Inr False
      | ([], Some e) \<Rightarrow> Inl e
      | (t # ts, e) \<Rightarrow>
          (case get t of
             NodeCell l x \<Rightarrow> Inr True
           | AtomicCell a \<Rightarrow>
               (case (ts, e) of ([], None) \<Rightarrow> atomic_boolean_value cx a | ([], Some x) \<Rightarrow> Inl x | _ \<Rightarrow> Inl FORG0006)
           | EosCell \<Rightarrow> Inl Impossible_case))"

text \<open>An end of a range: a number, or nothing.\<close>

definition o_integer :: "xq_context \<Rightarrow> outcome \<Rightarrow> xq_error + int option" where
  "o_integer cx r =
     (case r of
        ([], None) \<Rightarrow> Inr None
      | ([], Some e) \<Rightarrow> Inl e
      | (t # ts, e) \<Rightarrow>
          (case atomize cx (get t) of
             Inl x \<Rightarrow> Inl x
           | Inr a \<Rightarrow>
               (case (ts, e) of
                  ([], None) \<Rightarrow> map_sum id Some (integer_argument cx a)
                | ([], Some x) \<Rightarrow> Inl x
                | _ \<Rightarrow> Inl XPTY0004)))"

section \<open>Sequences\<close>

definition d_sequence :: "outcome list \<Rightarrow> outcome" where
  "d_sequence rs = foldr o_append rs ([], None)"

fun spaced :: "bool \<Rightarrow> bool \<Rightarrow> xqp_tuple list \<Rightarrow> xqp_tuple list" where
  "spaced a sp [] = []"
| "spaced a sp (u # us) =
     (if sp \<and> (is_atomic (get u) \<or> a) then [[space_tup]] else []) @ u # spaced a (is_atomic (get u) \<or> a) us"

definition d_range :: "int option \<Rightarrow> int option \<Rightarrow> outcome" where
  "d_range i j =
     (case (i, j) of
        (Some i, Some j) \<Rightarrow>
          if j < INT64_MAX \<or> i > j then (map (\<lambda>k. [int_cell k]) [i..j], None)
          else (map (\<lambda>k. [int_cell k]) [i..INT64_MAX - 1], Some Signed_overflow)
      | _ \<Rightarrow> ([], None))"

definition d_empty :: "outcome \<Rightarrow> outcome" where
  "d_empty r = (case r of ([], Some e) \<Rightarrow> fails e | (ts, _) \<Rightarrow> one (bool_cell (ts = [])))"

definition d_exists :: "outcome \<Rightarrow> outcome" where
  "d_exists r = (case r of ([], Some e) \<Rightarrow> fails e | (ts, _) \<Rightarrow> one (bool_cell (ts \<noteq> [])))"

definition d_zero_or_one :: "outcome \<Rightarrow> outcome" where
  "d_zero_or_one r =
     (case r of ([], _) \<Rightarrow> r | ([t], None) \<Rightarrow> r | ([t], Some e) \<Rightarrow> fails e | _ \<Rightarrow> fails FORG0003)"

definition d_one_or_more :: "outcome \<Rightarrow> outcome" where
  "d_one_or_more r = (if r = ([], None) then fails FORG0004 else r)"

definition d_exactly_one :: "outcome \<Rightarrow> outcome" where
  "d_exactly_one r =
     (case r of ([], None) \<Rightarrow> fails FORG0005 | ([], Some e) \<Rightarrow> r | ([t], None) \<Rightarrow> r | ([t], Some e) \<Rightarrow> fails e | _ \<Rightarrow> fails FORG0005)"

definition d_item_at :: "int \<Rightarrow> outcome \<Rightarrow> outcome" where
  "d_item_at pos r =
     (if pos < 1 then fails SE1007
      else if nat pos \<le> length (fst r) then ([fst r ! (nat pos - 1)], None)
      else case snd r of Some e \<Rightarrow> fails e | None \<Rightarrow> if fst r = [] then ([], None) else fails SE1007)"

fun d_index_of :: "xq_context \<Rightarrow> atomic \<Rightarrow> int \<Rightarrow> xqp_tuple list \<Rightarrow> xq_error option \<Rightarrow> outcome" where
  "d_index_of cx a pos [] e = ([], e)"
| "d_index_of cx a pos (t # ts) e =
     with_value (atomize cx (get t)) (\<lambda>b.
       if op_eq cx b a = Inr True then o_cons [int_cell (pos + 1)] (d_index_of cx a (pos + 1) ts e)
       else d_index_of cx a (pos + 1) ts e)"

definition d_reverse :: "outcome \<Rightarrow> outcome" where
  "d_reverse r = (case snd r of None \<Rightarrow> (rev (fst r), None) | Some e \<Rightarrow> fails e)"

fun d_subsequence :: "xs_double \<Rightarrow> xs_double option \<Rightarrow> int \<Rightarrow> xqp_tuple list \<Rightarrow> xq_error option \<Rightarrow> outcome" where
  "d_subsequence st len pos [] e = ([], e)"
| "d_subsequence st len pos (t # ts) e =
     (if (case len of None \<Rightarrow> False | Some l \<Rightarrow> \<not> double_gt (double_add st l) (pos + 1)) then ([], None)
      else if double_le st (pos + 1) then o_cons t (d_subsequence st len (pos + 1) ts e)
      else d_subsequence st len (pos + 1) ts e)"

definition d_subsequence_all :: "xs_double \<Rightarrow> xs_double option \<Rightarrow> outcome \<Rightarrow> outcome" where
  "d_subsequence_all st len r =
     (if (case len of None \<Rightarrow> True | Some l \<Rightarrow> double_gt l 0) then d_subsequence st len 0 (fst r) (snd r) else ([], None))"

definition d_remove :: "int \<Rightarrow> outcome \<Rightarrow> outcome" where
  "d_remove pos r =
     (if 1 \<le> pos \<and> nat pos \<le> length (fst r) then (take (nat pos - 1) (fst r) @ drop (nat pos) (fst r), snd r) else r)"

definition d_insert :: "int \<Rightarrow> outcome \<Rightarrow> outcome \<Rightarrow> outcome" where
  "d_insert pos r ins =
     (let k = (if pos < 1 then 0 else nat pos - 1)
      in if k \<le> length (fst r) then o_append (take k (fst r), None) (o_append ins (drop k (fst r), snd r))
         else o_append r ins)"

section \<open>Aggregates\<close>

definition d_count :: "outcome \<Rightarrow> outcome" where
  "d_count r = (case snd r of None \<Rightarrow> one (int_cell (int (length (fst r)))) | Some e \<Rightarrow> fails e)"

fun d_fold :: "('s \<Rightarrow> xqp_tuple \<Rightarrow> xq_error + 's) \<Rightarrow> 's \<Rightarrow> xqp_tuple list \<Rightarrow> xq_error option \<Rightarrow> xq_error + 's" where
  "d_fold body s [] None = Inr s"
| "d_fold body s [] (Some e) = Inl e"
| "d_fold body s (t # ts) e = (case body s t of Inl x \<Rightarrow> Inl x | Inr s \<Rightarrow> d_fold body s ts e)"

definition d_sum_avg :: "xq_context \<Rightarrow> bool \<Rightarrow> outcome \<Rightarrow> outcome option \<Rightarrow> outcome" where
  "d_sum_avg cx i r zero =
     with_value (d_fold (sum_item cx) (None, 0) (fst r) (snd r)) (\<lambda>(res, n).
       case res of
         Some a \<Rightarrow> with_value (if i then op_div cx a (Xs_integer n) else Inr a) (\<lambda>a. one (AtomicCell a))
       | None \<Rightarrow>
           (case zero of
              None \<Rightarrow> if i then ([], None) else one (int_cell 0)
            | Some z \<Rightarrow> if z = ([], None) then z else with_value (o_single (atomize cx) z) (\<lambda>a. one (AtomicCell a))))"

section \<open>Sequences of nodes\<close>

text \<open>The next node of an outcome, nothing at the end, or the error that asking for it gives.\<close>

definition peek :: "outcome \<Rightarrow> xq_error + tuple_cell option" where
  "peek r =
     (case r of
        ([], None) \<Rightarrow> Inr None
      | ([], Some e) \<Rightarrow> Inl e
      | (t # ts, _) \<Rightarrow> if is_node (get t) then Inr (Some (get t)) else Inl XPTY0004)"

definition both_peek :: "outcome \<Rightarrow> outcome \<Rightarrow> xq_error + tuple_cell option \<times> tuple_cell option" where
  "both_peek r s = (case peek r of Inl e \<Rightarrow> Inl e | Inr c1 \<Rightarrow> (case peek s of Inl e \<Rightarrow> Inl e | Inr c2 \<Rightarrow> Inr (c1, c2)))"

function d_union :: "bool \<Rightarrow> outcome \<Rightarrow> outcome \<Rightarrow> outcome" where
  "d_union d r s =
     (case both_peek r s of
        Inl e \<Rightarrow> fails e
      | Inr (None, None) \<Rightarrow> ([], None)
      | Inr (Some c1, None) \<Rightarrow> o_cons [c1] (d_union d (after r) s)
      | Inr (None, Some c2) \<Rightarrow> o_cons [c2] (d_union d r (after s))
      | Inr (Some c1, Some c2) \<Rightarrow>
          if cell_compare d (Some c1) (Some c2) < 0 then o_cons [c1] (d_union d (after r) s)
          else if cell_compare d (Some c1) (Some c2) = 0 then o_cons [c1] (d_union d (after r) (after s))
          else o_cons [c2] (d_union d r (after s)))"
  by pat_completeness auto
termination
  by (relation "measure (\<lambda>(d, r, s). length (fst r) + length (fst s))") (auto simp: after_def both_peek_def peek_def split: sum.splits option.splits list.splits if_splits prod.splits)

function d_intersect :: "bool \<Rightarrow> outcome \<Rightarrow> outcome \<Rightarrow> outcome" where
  "d_intersect d r s =
     (case both_peek r s of
        Inl e \<Rightarrow> fails e
      | Inr (Some c1, Some c2) \<Rightarrow>
          if cell_compare d (Some c1) (Some c2) < 0 then d_intersect d (after r) s
          else if cell_compare d (Some c1) (Some c2) = 0 then o_cons [c1] (d_intersect d (after r) (after s))
          else d_intersect d r (after s)
      | Inr _ \<Rightarrow> ([], None))"
  by pat_completeness auto
termination
  by (relation "measure (\<lambda>(d, r, s). length (fst r) + length (fst s))") (auto simp: after_def both_peek_def peek_def split: sum.splits option.splits list.splits if_splits prod.splits)

function d_except :: "bool \<Rightarrow> outcome \<Rightarrow> outcome \<Rightarrow> outcome" where
  "d_except d r s =
     (case both_peek r s of
        Inl e \<Rightarrow> fails e
      | Inr (None, _) \<Rightarrow> ([], None)
      | Inr (Some c1, None) \<Rightarrow> o_cons [c1] (d_except d (after r) s)
      | Inr (Some c1, Some c2) \<Rightarrow>
          if cell_compare d (Some c1) (Some c2) < 0 then o_cons [c1] (d_except d (after r) s)
          else if cell_compare d (Some c1) (Some c2) = 0 then d_except d (after r) (after s)
          else d_except d r (after s))"
  by pat_completeness auto
termination
  by (relation "measure (\<lambda>(d, r, s). length (fst r) + length (fst s))") (auto simp: after_def both_peek_def peek_def split: sum.splits option.splits list.splits if_splits prod.splits)

declare d_union.simps [simp del] d_intersect.simps [simp del] d_except.simps [simp del]

text \<open>What is left of an operand of a comparison behind its first tuple.\<close>

definition finished :: "outcome \<Rightarrow> xq_error option" where
  "finished r = (case r of ([], _) \<Rightarrow> None | ([t], e) \<Rightarrow> e | _ \<Rightarrow> Some XPTY0004)"

definition first_tuple :: "outcome \<Rightarrow> xq_error + xqp_tuple option" where
  "first_tuple r = (case r of ([], None) \<Rightarrow> Inr None | ([], Some e) \<Rightarrow> Inl e | (t # ts, _) \<Rightarrow> Inr (Some t))"

definition d_node_comparison :: "int \<Rightarrow> outcome \<Rightarrow> outcome \<Rightarrow> outcome" where
  "d_node_comparison type r s =
     with_value (first_tuple r) (\<lambda>t1. with_value (first_tuple s) (\<lambda>t2.
       if \<not> (node_or_eos t1 \<and> node_or_eos t2) then fails XPTY0004
       else with_value (case (t1, t2) of
                          (Some u1, Some u2) \<Rightarrow> map_sum id Some (compare_nodes type (get u1) (get u2))
                        | _ \<Rightarrow> Inr None) (\<lambda>b.
              case finished r of
                Some e \<Rightarrow> fails e
              | None \<Rightarrow> (case finished s of
                           Some e \<Rightarrow> fails e
                         | None \<Rightarrow> (case b of None \<Rightarrow> ([], None) | Some b \<Rightarrow> one (bool_cell b))))))"

fun d_seq_checker :: "check_mode \<Rightarrow> bool option \<Rightarrow> xqp_tuple list \<Rightarrow> xq_error option \<Rightarrow> outcome" where
  "d_seq_checker mode x [] e = ([], e)"
| "d_seq_checker CHECK_NODE x (t # ts) e = (if is_node (get t) then o_cons t (d_seq_checker CHECK_NODE x ts e) else fails XPTY0019)"
| "d_seq_checker CHECK_MIX None (t # ts) e = o_cons t (d_seq_checker CHECK_MIX (Some (is_node (get t))) ts e)"
| "d_seq_checker CHECK_MIX (Some x) (t # ts) e =
     (if x = is_node (get t) then o_cons t (d_seq_checker CHECK_MIX (Some x) ts e) else fails XPTY0018)"

section \<open>Iteration and selection\<close>

definition type_error :: "xq_context \<Rightarrow> nat option \<Rightarrow> xqp_tuple \<Rightarrow> bool" where
  "type_error cx st t = (case st of None \<Rightarrow> False | Some ty \<Rightarrow> \<not> type_matches_single cx ty (get t))"

fun d_return :: "(xqp_tuple \<Rightarrow> bool) \<Rightarrow> (xqp_tuple \<Rightarrow> int \<Rightarrow> outcome) \<Rightarrow> int \<Rightarrow> xqp_tuple list \<Rightarrow> xq_error option \<Rightarrow> outcome" where
  "d_return bad body pos [] e = ([], e)"
| "d_return bad body pos (t # ts) e =
     (if bad t then fails XPTY0004 else o_append (body t (pos + 1)) (d_return bad body (pos + 1) ts e))"

fun d_select :: "(xqp_tuple \<Rightarrow> bool) \<Rightarrow> (xqp_tuple \<Rightarrow> xq_error + bool) \<Rightarrow> xqp_tuple list \<Rightarrow> xq_error option \<Rightarrow> outcome" where
  "d_select bad cond [] e = ([], e)"
| "d_select bad cond (t # ts) e =
     (if bad t then fails XPTY0004
      else with_value (cond t) (\<lambda>b. if b then o_cons t (d_select bad cond ts e) else d_select bad cond ts e))"

section \<open>Plans\<close>

primrec meaning :: "xq_context \<Rightarrow> pp \<Rightarrow> env \<Rightarrow> outcome" where
  "meaning cx PPNil \<rho> = ([], None)"
| "meaning cx (PPConst c) \<rho> = one c"
| "meaning cx (PPSequence es) \<rho> = d_sequence (map (\<lambda>f. f \<rho>) (map (meaning cx) es))"
| "meaning cx (PPSpaceSequence a es) \<rho> =
     (let r = d_sequence (map (\<lambda>f. f \<rho>) (map (meaning cx) es)) in (spaced a False (fst r), snd r))"
| "meaning cx (PPUnion d e1 e2) \<rho> = d_union d (meaning cx e1 \<rho>) (meaning cx e2 \<rho>)"
| "meaning cx (PPIntersect d e1 e2) \<rho> = d_intersect d (meaning cx e1 \<rho>) (meaning cx e2 \<rho>)"
| "meaning cx (PPExcept d e1 e2) \<rho> = d_except d (meaning cx e1 \<rho>) (meaning cx e2 \<rho>)"
| "meaning cx (PPIf e1 e2 e3) \<rho> =
     with_value (o_boolean cx (meaning cx e1 \<rho>)) (\<lambda>b. if b then meaning cx e2 \<rho> else meaning cx e3 \<rho>)"
| "meaning cx (PPRange e1 e2) \<rho> =
     with_value (o_integer cx (meaning cx e1 \<rho>)) (\<lambda>i. with_value (o_integer cx (meaning cx e2 \<rho>)) (\<lambda>j. d_range i j))"
| "meaning cx (PPFnEmpty e) \<rho> = d_empty (meaning cx e \<rho>)"
| "meaning cx (PPFnExists e) \<rho> = d_exists (meaning cx e \<rho>)"
| "meaning cx (PPFnItemAt e1 e2) \<rho> =
     with_value (o_single (\<lambda>c. case c of AtomicCell a \<Rightarrow> cast_integer cx a | _ \<Rightarrow> Inl Impossible_case) (meaning cx e2 \<rho>))
       (\<lambda>pos. d_item_at pos (meaning cx e1 \<rho>))"
| "meaning cx (PPFnIndexOf e1 e2) \<rho> =
     with_value (o_single (atomize cx) (meaning cx e2 \<rho>)) (\<lambda>a. d_index_of cx a 0 (fst (meaning cx e1 \<rho>)) (snd (meaning cx e1 \<rho>)))"
| "meaning cx (PPFnReverse e) \<rho> = d_reverse (meaning cx e \<rho>)"
| "meaning cx (PPFnSubsequence e1 e2 e3) \<rho> =
     with_value (o_single (double_argument cx) (meaning cx e2 \<rho>)) (\<lambda>st.
       case map_option (meaning cx) e3 of
         None \<Rightarrow> d_subsequence_all st None (meaning cx e1 \<rho>)
       | Some f \<Rightarrow> with_value (o_single (double_argument cx) (f \<rho>)) (\<lambda>len. d_subsequence_all st (Some len) (meaning cx e1 \<rho>)))"
| "meaning cx (PPFnRemove e1 e2) \<rho> = with_value (o_single (integer_of_cell cx) (meaning cx e2 \<rho>)) (\<lambda>pos. d_remove pos (meaning cx e1 \<rho>))"
| "meaning cx (PPFnInsertBefore e1 e2 e3) \<rho> =
     with_value (o_single (integer_of_cell cx) (meaning cx e2 \<rho>)) (\<lambda>pos. d_insert pos (meaning cx e1 \<rho>) (meaning cx e3 \<rho>))"
| "meaning cx (PPFnZeroOrOne e) \<rho> = d_zero_or_one (meaning cx e \<rho>)"
| "meaning cx (PPFnOneOrMore e) \<rho> = d_one_or_more (meaning cx e \<rho>)"
| "meaning cx (PPFnExactlyOne e) \<rho> = d_exactly_one (meaning cx e \<rho>)"
| "meaning cx (PPFnCount e) \<rho> = d_count (meaning cx e \<rho>)"
| "meaning cx (PPFnSumAvg i e z) \<rho> = d_sum_avg cx i (meaning cx e \<rho>) (map_option (\<lambda>f. f \<rho>) (map_option (meaning cx) z))"
| "meaning cx (PPFnNot e) \<rho> = with_value (o_boolean cx (meaning cx e \<rho>)) (\<lambda>b. one (bool_cell (\<not> b)))"
| "meaning cx (PPFnBoolean e) \<rho> = with_value (o_boolean cx (meaning cx e \<rho>)) (\<lambda>b. one (bool_cell b))"
| "meaning cx (PPNodeComparison k e1 e2) \<rho> = d_node_comparison k (meaning cx e1 \<rho>) (meaning cx e2 \<rho>)"
| "meaning cx (PPSeqChecker m e) \<rho> = d_seq_checker m None (fst (meaning cx e \<rho>)) (snd (meaning cx e \<rho>))"
| "meaning cx (PPVariable d) \<rho> = one (\<rho> d)"
| "meaning cx (PPReturn ds pd st e1 e2) \<rho> =
     d_return (type_error cx st) (\<lambda>t pos. meaning cx e2 (bind_tuple ds pd t pos \<rho>)) 0 (fst (meaning cx e1 \<rho>)) (snd (meaning cx e1 \<rho>))"
| "meaning cx (PPSelect ds st e1 e2) \<rho> =
     d_select (type_error cx st) (\<lambda>t. o_boolean cx (meaning cx e2 (bind_tuple ds None t 0 \<rho>))) (fst (meaning cx e1 \<rho>)) (snd (meaning cx e1 \<rho>))"

text \<open>
  The plans whose operators start over after the end and when they are opened again: a sequence with spaces does
  not, nor does an average for which no value for the empty sequence is given.
\<close>

primrec restarts :: "pp \<Rightarrow> bool" where
  "restarts PPNil = True"
| "restarts (PPConst c) = True"
| "restarts (PPSequence es) = list_all (\<lambda>b. b) (map restarts es)"
| "restarts (PPSpaceSequence a es) = False"
| "restarts (PPUnion d e1 e2) = (restarts e1 \<and> restarts e2)"
| "restarts (PPIntersect d e1 e2) = (restarts e1 \<and> restarts e2)"
| "restarts (PPExcept d e1 e2) = (restarts e1 \<and> restarts e2)"
| "restarts (PPIf e1 e2 e3) = (restarts e1 \<and> restarts e2 \<and> restarts e3)"
| "restarts (PPRange e1 e2) = (restarts e1 \<and> restarts e2)"
| "restarts (PPFnEmpty e) = restarts e"
| "restarts (PPFnExists e) = restarts e"
| "restarts (PPFnItemAt e1 e2) = (restarts e1 \<and> restarts e2)"
| "restarts (PPFnIndexOf e1 e2) = (restarts e1 \<and> restarts e2)"
| "restarts (PPFnReverse e) = restarts e"
| "restarts (PPFnSubsequence e1 e2 e3) = (restarts e1 \<and> restarts e2 \<and> (case map_option restarts e3 of None \<Rightarrow> True | Some b \<Rightarrow> b))"
| "restarts (PPFnRemove e1 e2) = (restarts e1 \<and> restarts e2)"
| "restarts (PPFnInsertBefore e1 e2 e3) = (restarts e1 \<and> restarts e2 \<and> restarts e3)"
| "restarts (PPFnZeroOrOne e) = restarts e"
| "restarts (PPFnOneOrMore e) = restarts e"
| "restarts (PPFnExactlyOne e) = restarts e"
| "restarts (PPFnCount e) = restarts e"
| "restarts (PPFnSumAvg i e z) = (restarts e \<and> (case map_option restarts z of None \<Rightarrow> \<not> i | Some b \<Rightarrow> b))"
| "restarts (PPFnNot e) = restarts e"
| "restarts (PPFnBoolean e) = restarts e"
| "restarts (PPNodeComparison k e1 e2) = (restarts e1 \<and> restarts e2)"
| "restarts (PPSeqChecker m e) = restarts e"
| "restarts (PPVariable d) = True"
| "restarts (PPReturn ds pd st e1 e2) = (restarts e1 \<and> restarts e2)"
| "restarts (PPSelect ds st e1 e2) = (restarts e1 \<and> restarts e2)"

end
