(* ===== verification/XqContract.thy ===== *)
theory XqContract
  imports XqMeaning
begin

text \<open>
  What the operators promise each other. An operator serves a meaning when its calls of \<^verbatim>\<open>next\<close> give the tuples of the
  meaning one by one and then the end or the error; after the end it starts over, under whatever values the variables
  have by then; and opened again at any time it starts over.
\<close>

section \<open>Enough fuel\<close>

definition settles :: "(nat \<Rightarrow> 'a option) \<Rightarrow> 'a \<Rightarrow> bool" where
  "settles g x \<longleftrightarrow> (\<exists>n. \<forall>m\<ge>n. g m = Some x)"

text \<open>The same for a loop, which has fuel of its own.\<close>

definition settles_loop :: "(nat \<Rightarrow> nat \<Rightarrow> 'a option) \<Rightarrow> 'a \<Rightarrow> bool" where
  "settles_loop g x \<longleftrightarrow> (\<exists>n. \<forall>m\<ge>n. \<forall>k\<ge>n. g k m = Some x)"

abbreviation gives :: "xq_context \<Rightarrow> env \<Rightarrow> plan \<Rightarrow> xq_error + pull \<Rightarrow> bool" where
  "gives cx \<rho> p r \<equiv> settles (\<lambda>n. next_plan cx n \<rho> p) r"

section \<open>The contract\<close>

text \<open>An operator is fresh at the start of a sequence, running within one, and stale when it has to be opened again.\<close>

datatype mode = Fresh | Stale | Running env outcome

coinductive serves :: "xq_context \<Rightarrow> (env \<Rightarrow> outcome) \<Rightarrow> mode \<Rightarrow> plan \<Rightarrow> bool" for cx D where
  fresh: "(\<And>\<rho>. serves cx D (Running \<rho> (D \<rho>)) p) \<Longrightarrow> (\<And>vs. serves cx D Fresh (reinit_consumer_table vs p)) \<Longrightarrow> serves cx D Fresh p"
| stale: "serves cx D Fresh (reopen p) \<Longrightarrow> (\<And>vs. serves cx D Stale (reinit_consumer_table vs p)) \<Longrightarrow> serves cx D Stale p"
| item: "gives cx \<rho> p (Inr (Some t, p')) \<Longrightarrow> serves cx D (Running \<rho> (ts, e)) p' \<Longrightarrow> serves cx D Stale p
         \<Longrightarrow> serves cx D (Running \<rho> (t # ts, e)) p"
| eos: "gives cx \<rho> p (Inr (None, p')) \<Longrightarrow> serves cx D Fresh p' \<Longrightarrow> serves cx D Stale p \<Longrightarrow> serves cx D (Running \<rho> ([], None)) p"
| err: "gives cx \<rho> p (Inl x) \<Longrightarrow> serves cx D Stale p \<Longrightarrow> serves cx D (Running \<rho> ([], Some x)) p"

text \<open>One call of a running operator; \<open>X\<close> holds of the mode and the operator after it.\<close>

definition steps :: "xq_context \<Rightarrow> env \<Rightarrow> plan \<Rightarrow> outcome \<Rightarrow> (mode \<Rightarrow> plan \<Rightarrow> bool) \<Rightarrow> bool" where
  "steps cx \<rho> p r X \<longleftrightarrow>
     (case r of
        ([], None) \<Rightarrow> \<exists>p'. gives cx \<rho> p (Inr (None, p')) \<and> X Fresh p'
      | ([], Some e) \<Rightarrow> gives cx \<rho> p (Inl e)
      | (t # ts, e) \<Rightarrow> \<exists>p'. gives cx \<rho> p (Inr (Some t, p')) \<and> X (Running \<rho> (ts, e)) p')"

section \<open>Lemmas on fuel\<close>

named_theorems settling

lemma settles_Some [settling]: "settles (\<lambda>n. Some x) x"
  by (simp add: settles_def)

lemma settles_ret [settling]: "settles (\<lambda>n. ret x) (Inr x)"
  by (simp add: settles_def ret_def)

lemma settles_raise [settling]: "settles (\<lambda>n. raise e) (Inl e)"
  by (simp add: settles_def raise_def)

lemma settles_Suc: "settles (\<lambda>n. g (Suc n)) x \<Longrightarrow> settles g x"
  unfolding settles_def by (metis Suc_le_D Suc_le_mono)

lemma settles_bnd: "settles g (Inr x) \<Longrightarrow> settles (\<lambda>n. f n x) y \<Longrightarrow> settles (\<lambda>n. bnd (g n) (f n)) y"
proof -
  assume "settles g (Inr x)" "settles (\<lambda>n. f n x) y"
  then obtain a b where "\<forall>m\<ge>a. g m = Some (Inr x)" "\<forall>m\<ge>b. f m x = Some y" by (auto simp: settles_def)
  then have "\<forall>m\<ge>max a b. bnd (g m) (f m) = Some y" by (simp add: bnd_def)
  then show ?thesis unfolding settles_def by blast
qed

lemma settles_bnd_error: "settles g (Inl e) \<Longrightarrow> settles (\<lambda>n. bnd (g n) (f n)) (Inl e)"
  unfolding settles_def bnd_def by fastforce

lemma bnd_Some [simp]: "bnd (Some (Inr x)) f = f x" "bnd (Some (Inl e)) f = Some (Inl e)" "bnd (ret x) f = f x" "bnd (raise e) f = raise e"
  by (simp_all add: bnd_def ret_def raise_def)

lemma settles_loop_diagonal: "settles_loop g x \<Longrightarrow> settles (\<lambda>n. g n n) x"
  unfolding settles_loop_def settles_def by blast

lemma settles_loop_Suc: "settles_loop (\<lambda>k. g (Suc k)) x \<Longrightarrow> settles_loop g x"
  unfolding settles_loop_def by (metis Suc_le_D Suc_leD Suc_le_mono)

lemma settles_loop_bnd: "settles g (Inr x) \<Longrightarrow> settles_loop (\<lambda>k n. f k n x) y \<Longrightarrow> settles_loop (\<lambda>k n. bnd (g n) (f k n)) y"
proof -
  assume "settles g (Inr x)" "settles_loop (\<lambda>k n. f k n x) y"
  then obtain a b where "\<forall>m\<ge>a. g m = Some (Inr x)" "\<forall>m\<ge>b. \<forall>k\<ge>b. f k m x = Some y" by (auto simp: settles_def settles_loop_def)
  then have "\<forall>m\<ge>max a b. \<forall>k\<ge>max a b. bnd (g m) (f k m) = Some y" by (simp add: bnd_def)
  then show ?thesis unfolding settles_loop_def by blast
qed

lemma settles_loop_bnd_error: "settles g (Inl e) \<Longrightarrow> settles_loop (\<lambda>k n. bnd (g n) (f k n)) (Inl e)"
  unfolding settles_def settles_loop_def bnd_def by fastforce

lemma settles_loop_const: "settles_loop (\<lambda>k n. Some x) x" "settles_loop (\<lambda>k n. ret y) (Inr y)"
  by (simp_all add: settles_loop_def ret_def)

section \<open>Lemmas on the contract\<close>

inductive_cases serves_freshE: "serves cx D Fresh p"
inductive_cases serves_staleE: "serves cx D Stale p"
inductive_cases serves_runningE: "serves cx D (Running \<rho> r) p"

lemma serves_running: "serves cx D Fresh p \<Longrightarrow> serves cx D (Running \<rho> (D \<rho>)) p"
  by (erule serves_freshE) simp

lemma serves_reinit [intro]: "serves cx D Fresh p \<Longrightarrow> serves cx D Fresh (reinit_consumer_table vs p)"
  by (erule serves_freshE) simp

lemma running_stale: "serves cx D (Running \<rho> r) p \<Longrightarrow> serves cx D Stale p"
  by (erule serves_runningE) auto

lemma fresh_stale [intro]: "serves cx D Fresh p \<Longrightarrow> serves cx D Stale p"
  by (rule running_stale) (rule serves_running)

lemma stale_reopen [intro]: "serves cx D Stale p \<Longrightarrow> serves cx D Fresh (reopen p)"
  by (erule serves_staleE) simp

lemma stale_reinit [intro]: "serves cx D Stale p \<Longrightarrow> serves cx D Stale (reinit_consumer_table vs p)"
  by (erule serves_staleE) simp

lemma serves_steps: "serves cx D (Running \<rho> r) p \<Longrightarrow> steps cx \<rho> p r (serves cx D)"
  by (erule serves_runningE) (auto simp: steps_def)

lemma serves_coinduct:
  assumes X: "X m p"
    and fr: "\<And>p \<rho>. X Fresh p \<Longrightarrow> X (Running \<rho> (D \<rho>)) p" "\<And>p vs. X Fresh p \<Longrightarrow> X Fresh (reinit_consumer_table vs p)"
    and st: "\<And>p. X Stale p \<Longrightarrow> X Fresh (reopen p)" "\<And>p vs. X Stale p \<Longrightarrow> X Stale (reinit_consumer_table vs p)"
    and run: "\<And>\<rho> r p. X (Running \<rho> r) p \<Longrightarrow> X Stale p" "\<And>\<rho> r p. X (Running \<rho> r) p \<Longrightarrow> steps cx \<rho> p r X"
  shows "serves cx D m p"
  using X
proof (coinduction arbitrary: m p rule: serves.coinduct)
  case (serves m p)
  show ?case
  proof (cases m)
    case Fresh
    then show ?thesis using fr serves by auto
  next
    case Stale
    then show ?thesis using st serves by auto
  next
    case (Running \<rho> r)
    then have "steps cx \<rho> p r X" "X Stale p" using run serves by auto
    then show ?thesis unfolding Running by (cases r; cases "fst r"; cases "snd r") (auto simp: steps_def)
  qed
qed

end
