(* ===== verification/XqServes.thy ===== *)
theory XqServes
  imports XqContract
begin

text \<open>
  Rules for operators with one result, which they compute in the first call, give, and follow with the end in the second
  call; arguments and loops that read a child; leaves and tests keep the contract.
\<close>

section \<open>Definitions\<close>

text \<open>A child that is opened again before it is used unless its end was reached.\<close>

definition ready :: "xq_context \<Rightarrow> (env \<Rightarrow> outcome) \<Rightarrow> bool \<Rightarrow> plan \<Rightarrow> bool" where
  "ready cx D eos p \<longleftrightarrow> serves cx D (if eos then Fresh else Stale) p"

text \<open>A computation gives the error or, with a state for which \<open>Q\<close> holds, the value of the specification.\<close>

definition answers :: "(nat \<Rightarrow> ('v \<times> 'q) run) \<Rightarrow> xq_error + 'v \<Rightarrow> ('v \<Rightarrow> 'q \<Rightarrow> bool) \<Rightarrow> bool" where
  "answers g V Q \<longleftrightarrow> (case V of Inl e \<Rightarrow> settles g (Inl e) | Inr v \<Rightarrow> \<exists>q. settles g (Inr (v, q)) \<and> Q v q)"

definition then_value :: "xq_error + 'a \<Rightarrow> ('a \<Rightarrow> xq_error + 'b) \<Rightarrow> xq_error + 'b" where
  "then_value v f = (case v of Inl e \<Rightarrow> Inl e | Inr x \<Rightarrow> f x)"

section \<open>Rules\<close>

lemma reinit_simps [simp]:
  "reinit_consumer_table vs OpNil = OpNil"
  "reinit_consumer_table vs (OpConst c b) = OpConst c b"
  "reinit_consumer_table vs (OpSequence ps it) = OpSequence (map (reinit_consumer_table vs) ps) it"
  "reinit_consumer_table vs (OpUnion d p q m) = OpUnion d (reinit_consumer_table vs p) (reinit_consumer_table vs q) m"
  "reinit_consumer_table vs (OpIntersect d p q m b1 b2) = OpIntersect d (reinit_consumer_table vs p) (reinit_consumer_table vs q) m b1 b2"
  "reinit_consumer_table vs (OpExcept d p q m b) = OpExcept d (reinit_consumer_table vs p) (reinit_consumer_table vs q) m b"
  "reinit_consumer_table vs (OpIf p q r dc e) = OpIf (reinit_consumer_table vs p) (reinit_consumer_table vs q) (reinit_consumer_table vs r) dc e"
  "reinit_consumer_table vs (OpRange p q rm) = OpRange (reinit_consumer_table vs p) (reinit_consumer_table vs q) rm"
  "reinit_consumer_table vs (OpFnEmpty p f e) = OpFnEmpty (reinit_consumer_table vs p) f e"
  "reinit_consumer_table vs (OpFnExists p f e) = OpFnExists (reinit_consumer_table vs p) f e"
  "reinit_consumer_table vs (OpFnItemAt p q f) = OpFnItemAt (reinit_consumer_table vs p) (reinit_consumer_table vs q) f"
  "reinit_consumer_table vs (OpFnIndexOf p q h sp pos) = OpFnIndexOf (reinit_consumer_table vs p) (reinit_consumer_table vs q) h sp pos"
  "reinit_consumer_table vs (OpFnReverse p f s pos) = OpFnReverse (reinit_consumer_table vs p) f s pos"
  "reinit_consumer_table vs (OpFnSubsequence p q z sm) = OpFnSubsequence (reinit_consumer_table vs p) (reinit_consumer_table vs q) (map_option (reinit_consumer_table vs) z) sm"
  "reinit_consumer_table vs (OpFnRemove p q f rp cp) = OpFnRemove (reinit_consumer_table vs p) (reinit_consumer_table vs q) f rp cp"
  "reinit_consumer_table vs (OpFnInsertBefore p q r im) = OpFnInsertBefore (reinit_consumer_table vs p) (reinit_consumer_table vs q) (reinit_consumer_table vs r) im"
  "reinit_consumer_table vs (OpFnZeroOrOne p f) = OpFnZeroOrOne (reinit_consumer_table vs p) f"
  "reinit_consumer_table vs (OpFnOneOrMore p f) = OpFnOneOrMore (reinit_consumer_table vs p) f"
  "reinit_consumer_table vs (OpFnExactlyOne p f) = OpFnExactlyOne (reinit_consumer_table vs p) f"
  "reinit_consumer_table vs (OpFnCount p f) = OpFnCount (reinit_consumer_table vs p) f"
  "reinit_consumer_table vs (OpFnSumAvg i p z f) = OpFnSumAvg i (reinit_consumer_table vs p) (map_option (reinit_consumer_table vs) z) f"
  "reinit_consumer_table vs (OpFnNot p f e) = OpFnNot (reinit_consumer_table vs p) f e"
  "reinit_consumer_table vs (OpFnBoolean p f e) = OpFnBoolean (reinit_consumer_table vs p) f e"
  "reinit_consumer_table vs (OpNodeComparison k p q f) = OpNodeComparison k (reinit_consumer_table vs p) (reinit_consumer_table vs q) f"
  "reinit_consumer_table vs (OpSeqChecker md p pos x) = OpSeqChecker md (reinit_consumer_table vs p) pos x"
  "reinit_consumer_table vs (OpVariable v) = OpVariable (fst v, snd v \<or> fst v \<in> set vs)"
  "reinit_consumer_table vs (OpReturn ds pd st p q f pos tup) = OpReturn ds pd st (reinit_consumer_table vs p) (reinit_consumer_table vs q) f pos tup"
  "reinit_consumer_table vs (OpSelect ds st p q f e) = OpSelect ds st (reinit_consumer_table vs p) (reinit_consumer_table vs q) f e"
  by (simp_all add: reinit_consumer_table_def split: prod.splits)

lemma next_simps [simp]:
  "next_plan cx (Suc n) \<rho> OpNil = PPNil_next"
  "next_plan cx (Suc n) \<rho> (OpConst c f) = PPConst_next c f"
  "next_plan cx (Suc n) \<rho> (OpSequence ps it) = PPSequence_next (next_plan cx n \<rho>) ps it"
  "next_plan cx (Suc n) \<rho> (OpSpaceSequence a ps it space held) = PPSpaceSequence_next (next_plan cx n \<rho>) a ps it space held"
  "next_plan cx (Suc n) \<rho> (OpUnion d p q m) = PPUnion_next (next_plan cx n \<rho>) d p q m"
  "next_plan cx (Suc n) \<rho> (OpIntersect d p q m b1 b2) = PPIntersect_next (next_plan cx n \<rho>) d p q m b1 b2"
  "next_plan cx (Suc n) \<rho> (OpExcept d p q m b) = PPExcept_next (next_plan cx n \<rho>) d p q m b"
  "next_plan cx (Suc n) \<rho> (OpIf p q r dc e) = PPIf_next cx (next_plan cx n \<rho>) p q r dc e"
  "next_plan cx (Suc n) \<rho> (OpRange p q rm) = PPRange_next cx (next_plan cx n \<rho>) p q rm"
  "next_plan cx (Suc n) \<rho> (OpFnEmpty p f e) = PPFnEmpty_next (next_plan cx n \<rho>) p f e"
  "next_plan cx (Suc n) \<rho> (OpFnExists p f e) = PPFnExists_next (next_plan cx n \<rho>) p f e"
  "next_plan cx (Suc n) \<rho> (OpFnItemAt p q f) = PPFnItemAt_next cx (next_plan cx n \<rho>) p q f"
  "next_plan cx (Suc n) \<rho> (OpFnIndexOf p q h param pos) = PPFnIndexOf_next cx (next_plan cx n \<rho>) p q h param pos"
  "next_plan cx (Suc n) \<rho> (OpFnReverse p f s pos) = PPFnReverse_next n (next_plan cx n \<rho>) p f s pos"
  "next_plan cx (Suc n) \<rho> (OpFnSubsequence p q z sm) = PPFnSubsequence_next cx (next_plan cx n \<rho>) p q z sm"
  "next_plan cx (Suc n) \<rho> (OpFnRemove p q f rp cp) = PPFnRemove_next cx (next_plan cx n \<rho>) p q f rp cp"
  "next_plan cx (Suc n) \<rho> (OpFnInsertBefore p q r im) = PPFnInsertBefore_next cx (next_plan cx n \<rho>) p q r im"
  "next_plan cx (Suc n) \<rho> (OpFnZeroOrOne p f) = PPFnZeroOrOne_next (next_plan cx n \<rho>) p f"
  "next_plan cx (Suc n) \<rho> (OpFnOneOrMore p f) = PPFnOneOrMore_next (next_plan cx n \<rho>) p f"
  "next_plan cx (Suc n) \<rho> (OpFnExactlyOne p f) = PPFnExactlyOne_next (next_plan cx n \<rho>) p f"
  "next_plan cx (Suc n) \<rho> (OpFnCount p f) = PPFnCount_next n (next_plan cx n \<rho>) p f"
  "next_plan cx (Suc n) \<rho> (OpFnSumAvg i p z f) = PPFnSumAvg_next cx n (next_plan cx n \<rho>) i p z f"
  "next_plan cx (Suc n) \<rho> (OpFnNot p f e) = PPFnNot_next cx (next_plan cx n \<rho>) p f e"
  "next_plan cx (Suc n) \<rho> (OpFnBoolean p f e) = PPFnBoolean_next cx (next_plan cx n \<rho>) p f e"
  "next_plan cx (Suc n) \<rho> (OpNodeComparison k p q f) = PPNodeComparison_next (next_plan cx n \<rho>) k p q f"
  "next_plan cx (Suc n) \<rho> (OpSeqChecker md p pos x) = PPSeqChecker_next (next_plan cx n \<rho>) md p pos x"
  "next_plan cx (Suc n) \<rho> (OpVariable v) = PPVariable_next \<rho> v"
  "next_plan cx (Suc n) \<rho> (OpReturn ds pd st p q f pos tup) = PPReturn_next cx (next_plan cx n) \<rho> ds pd st p q f pos tup"
  "next_plan cx (Suc n) \<rho> (OpSelect ds st p q f e) = PPSelect_next cx (next_plan cx n) \<rho> ds st p q f e"
  by simp_all

declare next_plan.simps(2) [simp del]

lemmas open_defs =
  PPNil_open_def PPConst_open_def PPSequence_open_def PPUnion_open_def PPIntersect_open_def PPExcept_open_def PPIf_open_def PPRange_open_def
  PPFnEmpty_open_def PPFnExists_open_def PPFnItemAt_open_def PPFnIndexOf_open_def PPFnReverse_open_def PPFnSubsequence_open_def
  PPFnRemove_open_def PPFnInsertBefore_open_def PPFnZeroOrOne_open_def PPFnOneOrMore_open_def PPFnExactlyOne_open_def PPFnCount_open_def
  PPFnSumAvg_open_def PPFnNot_open_def PPFnBoolean_open_def PPNodeComparison_open_def PPSeqChecker_open_def PPVariable_open_def
  PPReturn_open_def PPSelect_open_def PPIf_reopen_def PPFnReverse_reopen_def PPSelect_reopen_def PPReturn_reopen_def PPVariable_reopen_def

lemma running_cases:
  assumes "serves cx D (Running \<rho> r) p"
  obtains (item) t ts e p' where "r = (t # ts, e)" "gives cx \<rho> p (Inr (Some t, p'))" "serves cx D (Running \<rho> (ts, e)) p'"
  | (eos) p' where "r = ([], None)" "gives cx \<rho> p (Inr (None, p'))" "serves cx D Fresh p'"
  | (err) x where "r = ([], Some x)" "gives cx \<rho> p (Inl x)"
  using assms by (rule serves_runningE) blast+

lemma gives_Suc: "settles (\<lambda>n. next_plan cx (Suc n) \<rho> p) r \<Longrightarrow> gives cx \<rho> p r"
  by (rule settles_Suc)

lemma ready_simps:
  "ready cx D eos p \<Longrightarrow> serves cx D Fresh (if eos then p else reopen p)"
  "ready cx D eos p \<Longrightarrow> ready cx D eos (reinit_consumer_table vs p)"
  "ready cx D eos p \<Longrightarrow> serves cx D Stale p"
  "ready cx D True p = serves cx D Fresh p"
  "ready cx D False p = serves cx D Stale p"
  by (auto simp: ready_def split: if_splits)

lemma serves_one_shot:
  assumes R: "R p"
    and call: "\<And>p \<rho>. R p \<Longrightarrow>
      (case D \<rho> of
         ([], None) \<Rightarrow> \<exists>p'. gives cx \<rho> p (Inr (None, p')) \<and> R p'
       | ([], Some e) \<Rightarrow> gives cx \<rho> p (Inl e)
       | ([t], None) \<Rightarrow> \<exists>p'. gives cx \<rho> p (Inr (Some t, p')) \<and> W p'
       | _ \<Rightarrow> False)"
    and again: "\<And>p \<rho>. W p \<Longrightarrow> \<exists>p'. gives cx \<rho> p (Inr (None, p')) \<and> R p'"
    and reinit: "\<And>p vs. R p \<Longrightarrow> R (reinit_consumer_table vs p)" "\<And>p vs. W p \<Longrightarrow> R (reinit_consumer_table vs p) \<or> W (reinit_consumer_table vs p)"
    and reopen: "\<And>p. R p \<Longrightarrow> R (reopen p)" "\<And>p. W p \<Longrightarrow> R (reopen p)"
  shows "serves cx D Fresh p"
proof (rule serves_coinduct[where X = "\<lambda>m p. case m of Fresh \<Rightarrow> R p | Stale \<Rightarrow> R p \<or> W p
    | Running \<rho> r \<Rightarrow> R p \<and> r = D \<rho> \<or> W p \<and> r = ([], None)"])
  fix \<rho> r p assume a: "case Running \<rho> r of Fresh \<Rightarrow> R p | Stale \<Rightarrow> R p \<or> W p | Running \<rho> r \<Rightarrow> R p \<and> r = D \<rho> \<or> W p \<and> r = ([], None)"
  show "steps cx \<rho> p r (\<lambda>m p. case m of Fresh \<Rightarrow> R p | Stale \<Rightarrow> R p \<or> W p | Running \<rho> r \<Rightarrow> R p \<and> r = D \<rho> \<or> W p \<and> r = ([], None))"
  proof (cases "W p \<and> r = ([], None)")
    case True
    then show ?thesis using again[of p \<rho>] by (simp add: steps_def)
  next
    case False
    then have "R p" "r = D \<rho>" using a by auto
    then show ?thesis using call[of p \<rho>] by (auto simp: steps_def split: prod.splits list.splits option.splits)
  qed
qed (use R reinit reopen in \<open>simp; blast\<close>)+

section \<open>Arguments\<close>

lemma single_argument_settles:
  assumes "serves cx D Fresh q"
  shows "case o_single v (D \<rho>) of
           Inl e \<Rightarrow> settles (\<lambda>n. single_argument (next_plan cx n \<rho>) v q) (Inl e)
         | Inr x \<Rightarrow> \<exists>q'. settles (\<lambda>n. single_argument (next_plan cx n \<rho>) v q) (Inr (x, q')) \<and> serves cx D Fresh q'"
  using serves_running[OF assms, of \<rho>]
proof (cases rule: running_cases)
  case (item t ts e q1)
  show ?thesis
  proof (cases "v (get t)")
    case (Inl x)
    then show ?thesis using item(1) unfolding single_argument_def o_single_def by (auto intro!: settles_bnd[OF item(2)] settling)
  next
    case (Inr x)
    show ?thesis using item(3)
    proof (cases rule: running_cases)
      case (item u us e2 q2)
      then show ?thesis using Inr item(1) \<open>D \<rho> = (t # ts, e)\<close> unfolding single_argument_def o_single_def
        by (auto intro!: settles_bnd[OF \<open>gives cx \<rho> q (Inr (Some t, q1))\<close>] settles_bnd[OF item(2)] settling)
    next
      case (eos q2)
      have "settles (\<lambda>n. single_argument (next_plan cx n \<rho>) v q) (Inr (x, q2))" unfolding single_argument_def
        by (rule settles_bnd[OF item(2)]) (simp add: Inr, rule settles_bnd[OF eos(2)], simp add: settling)
      then show ?thesis using Inr item(1) eos unfolding o_single_def by auto
    next
      case (err y)
      have "settles (\<lambda>n. single_argument (next_plan cx n \<rho>) v q) (Inl y)" unfolding single_argument_def
        by (rule settles_bnd[OF item(2)]) (simp add: Inr, rule settles_bnd_error[OF err(2)])
      then show ?thesis using Inr item(1) err unfolding o_single_def by auto
    qed
  qed
next
  case (eos q')
  then show ?thesis unfolding single_argument_def o_single_def by (auto intro!: settles_bnd[OF eos(2)] settling)
next
  case (err x)
  then show ?thesis unfolding single_argument_def o_single_def by (auto intro!: settles_bnd_error)
qed

lemma boolean_settles:
  assumes "serves cx D Fresh q"
  shows "case o_boolean cx (D \<rho>) of
           Inl e \<Rightarrow> settles (\<lambda>n. effective_boolean_value cx (next_plan cx n \<rho>) q) (Inl e)
         | Inr b \<Rightarrow> \<exists>eos q'. settles (\<lambda>n. effective_boolean_value cx (next_plan cx n \<rho>) q) (Inr (b, eos, q')) \<and> ready cx D eos q'"
  using serves_running[OF assms, of \<rho>]
proof (cases rule: running_cases)
  case (item t ts e q1)
  note first = item
  show ?thesis
  proof (cases "get t")
    case (NodeCell l x)
    have "settles (\<lambda>n. effective_boolean_value cx (next_plan cx n \<rho>) q) (Inr (True, False, q1))" unfolding effective_boolean_value_def
      by (rule settles_bnd[OF first(2)]) (simp add: NodeCell settling)
    moreover have "o_boolean cx (D \<rho>) = Inr True" using first(1) NodeCell by (simp add: o_boolean_def)
    ultimately show ?thesis using running_stale[OF first(3)] by (auto simp: ready_simps(5) intro!: exI[of _ False])
  next
    case EosCell
    then show ?thesis using first(1) unfolding effective_boolean_value_def o_boolean_def by (auto intro!: settles_bnd[OF first(2)] settling)
  next
    case (AtomicCell a)
    show ?thesis using first(3)
    proof (cases rule: running_cases)
      case (item u us e2 q2)
      have "settles (\<lambda>n. effective_boolean_value cx (next_plan cx n \<rho>) q) (Inl FORG0006)" unfolding effective_boolean_value_def
        by (rule settles_bnd[OF first(2)]) (simp add: AtomicCell, rule settles_bnd[OF item(2)], simp add: settling)
      then show ?thesis using AtomicCell first(1) item(1) unfolding o_boolean_def by auto
    next
      case (eos q2)
      have "settles (\<lambda>n. effective_boolean_value cx (next_plan cx n \<rho>) q) (map_sum id (\<lambda>b. (b, True, q2)) (atomic_boolean_value cx a))"
        unfolding effective_boolean_value_def
        by (rule settles_bnd[OF first(2)]) (simp add: AtomicCell, rule settles_bnd[OF eos(2)], cases "atomic_boolean_value cx a", simp_all add: settling)
      then show ?thesis using AtomicCell first(1) eos unfolding o_boolean_def
        by (cases "atomic_boolean_value cx a") (auto simp: ready_simps(4) intro!: exI[of _ True])
    next
      case (err y)
      have "settles (\<lambda>n. effective_boolean_value cx (next_plan cx n \<rho>) q) (Inl y)" unfolding effective_boolean_value_def
        by (rule settles_bnd[OF first(2)]) (simp add: AtomicCell, rule settles_bnd_error[OF err(2)])
      then show ?thesis using AtomicCell first(1) err unfolding o_boolean_def by auto
    qed
  qed
next
  case (eos q')
  have "settles (\<lambda>n. effective_boolean_value cx (next_plan cx n \<rho>) q) (Inr (False, True, q'))" unfolding effective_boolean_value_def
    by (rule settles_bnd[OF eos(2)]) (simp add: settling)
  then show ?thesis using eos unfolding o_boolean_def by (auto simp: ready_simps(4) intro!: exI[of _ True])
next
  case (err x)
  then show ?thesis unfolding effective_boolean_value_def o_boolean_def by (auto intro!: settles_bnd_error)
qed

lemma until_eos_settles:
  "serves cx D (Running \<rho> (ts, e)) p \<Longrightarrow>
   (case d_fold body s ts e of
      Inl x \<Rightarrow> settles_loop (\<lambda>k n. until_eos k (next_plan cx n \<rho>) body s p) (Inl x)
    | Inr s' \<Rightarrow> \<exists>p'. settles_loop (\<lambda>k n. until_eos k (next_plan cx n \<rho>) body s p) (Inr (s', p')) \<and> serves cx D Fresh p')"
proof (induction ts arbitrary: s p)
  case Nil
  from Nil.prems show ?case
  proof (cases rule: running_cases)
    case (eos p')
    have "settles_loop (\<lambda>k n. until_eos k (next_plan cx n \<rho>) body s p) (Inr (s, p'))"
      by (rule settles_loop_Suc) (simp, rule settles_loop_bnd[OF eos(2)], simp add: settles_loop_const)
    then show ?thesis using eos by auto
  next
    case (err x)
    have "settles_loop (\<lambda>k n. until_eos k (next_plan cx n \<rho>) body s p) (Inl x)"
      by (rule settles_loop_Suc) (simp, rule settles_loop_bnd_error[OF err(2)])
    then show ?thesis using err by auto
  qed simp
next
  case (Cons t ts)
  from Cons.prems show ?case
  proof (cases rule: running_cases)
    case (item t' ts' e' p')
    show ?thesis
    proof (cases "body s t")
      case (Inl x)
      have "settles_loop (\<lambda>k n. until_eos k (next_plan cx n \<rho>) body s p) (Inl x)"
        using item(1) Inl by - (rule settles_loop_Suc, simp, rule settles_loop_bnd[OF item(2)], simp add: settles_loop_const)
      then show ?thesis using Inl by simp
    next
      case (Inr s1)
      have *: "settles_loop (\<lambda>k n. until_eos k (next_plan cx n \<rho>) body s p) y"
        if "settles_loop (\<lambda>k n. until_eos k (next_plan cx n \<rho>) body s1 p') y" for y
        using item(1) Inr that by - (rule settles_loop_Suc, simp, rule settles_loop_bnd[OF item(2)], simp)
      show ?thesis using Cons.IH[of p' s1] item Inr by (auto split: sum.splits intro: *)
    qed
  qed auto
qed

section \<open>Answers\<close>

lemma then_value_simps [simp]: "then_value (Inl e) f = Inl e" "then_value (Inr x) f = f x"
  by (simp_all add: then_value_def)

lemma with_then_value: "with_value (then_value v f) h = with_value v (\<lambda>x. with_value (f x) h)"
  by (cases v) (simp_all add: with_value_def)

lemma answers_ret: "Q v q \<Longrightarrow> answers (\<lambda>n. ret (v, q)) (Inr v) Q"
  by (auto simp: answers_def intro: settling)

lemma answers_raise: "answers (\<lambda>n. raise e) (Inl e) Q"
  by (auto simp: answers_def intro: settling)

lemma answers_bnd:
  assumes "answers g V Q" "\<And>v q. V = Inr v \<Longrightarrow> Q v q \<Longrightarrow> answers (\<lambda>n. f n (v, q)) (E v) P"
  shows "answers (\<lambda>n. bnd (g n) (f n)) (then_value V E) P"
proof (cases V)
  case (Inl e)
  then show ?thesis using assms(1) by (auto simp: answers_def intro: settles_bnd_error)
next
  case (Inr v)
  then obtain q where q: "settles g (Inr (v, q))" "Q v q" using assms(1) by (auto simp: answers_def)
  then show ?thesis using assms(2)[OF Inr q(2)] Inr by (auto simp: answers_def split: sum.splits intro: settles_bnd[OF q(1)])
qed

lemma answers_value: "(\<And>v. V = Inr v \<Longrightarrow> answers (\<lambda>n. f n v) (E v) P) \<Longrightarrow> answers (\<lambda>n. bnd (Some V) (f n)) (then_value V E) P"
  by (cases V) (auto simp: answers_def settling)

lemma answers_mono: "answers g V Q \<Longrightarrow> (\<And>v q. Q v q \<Longrightarrow> P v q) \<Longrightarrow> answers g V P"
  by (auto simp: answers_def split: sum.splits)

lemma answers_settled: "settles g (Inr x) \<Longrightarrow> answers (\<lambda>n. f n x) V Q \<Longrightarrow> answers (\<lambda>n. bnd (g n) (f n)) V Q"
  by (cases V) (auto simp: answers_def intro: settles_bnd)

lemma answers_error: "settles g (Inl e) \<Longrightarrow> answers (\<lambda>n. bnd (g n) (f n)) (Inl e) Q"
  by (auto simp: answers_def intro: settles_bnd_error)

lemma then_value_Inr: "then_value v Inr = v"
  by (cases v) simp_all

lemma answers_map: "answers g V Q \<Longrightarrow> (\<And>v q. Q v q \<Longrightarrow> P v (h q)) \<Longrightarrow> answers (\<lambda>n. bnd (g n) (\<lambda>(v, q). ret (v, h q))) V P"
  using answers_bnd[of g V Q "\<lambda>n (v, q). ret (v, h q)" Inr P] by (simp add: answers_ret then_value_Inr)

lemma answers_pull:
  assumes "serves cx D (Running \<rho> r) q"
    and "\<And>t ts e q. r = (t # ts, e) \<Longrightarrow> serves cx D (Running \<rho> (ts, e)) q \<Longrightarrow> answers (\<lambda>n. f n (Some t, q)) V Q"
    and "\<And>q. r = ([], None) \<Longrightarrow> serves cx D Fresh q \<Longrightarrow> answers (\<lambda>n. f n (None, q)) V Q"
    and "\<And>x. r = ([], Some x) \<Longrightarrow> V = Inl x"
  shows "answers (\<lambda>n. bnd (next_plan cx n \<rho> q) (f n)) V Q"
  using assms(1)
proof (cases rule: running_cases)
  case (item t ts e q')
  then show ?thesis by (intro answers_settled[OF item(2)] assms(2))
next
  case (eos q')
  then show ?thesis by (intro answers_settled[OF eos(2)] assms(3))
next
  case (err x)
  then show ?thesis using assms(4) by (simp add: answers_error)
qed

lemma single_argument_answers:
  "serves cx D Fresh q \<Longrightarrow> answers (\<lambda>n. single_argument (next_plan cx n \<rho>) val q) (o_single val (D \<rho>)) (\<lambda>v. serves cx D Fresh)"
  using single_argument_settles[where v = val and \<rho> = \<rho>] by (simp add: answers_def)

lemma loop_answers:
  "serves cx D Fresh p \<Longrightarrow> answers (\<lambda>n. until_eos n (next_plan cx n \<rho>) body s p) (d_fold body s (fst (D \<rho>)) (snd (D \<rho>))) (\<lambda>v. serves cx D Fresh)"
  using until_eos_settles[of cx D \<rho> "fst (D \<rho>)" "snd (D \<rho>)" p body s] serves_running[of cx D p \<rho>]
  by (auto simp: answers_def split: sum.splits dest: settles_loop_diagonal)

section \<open>Leaves\<close>

lemma serves_Nil: "serves cx (\<lambda>\<rho>. ([], None)) Fresh (PPNil_open)"
  by (rule serves_one_shot[where R = "\<lambda>p. p = OpNil" and W = "\<lambda>p. False"])
    (auto simp: open_defs PPNil_next_def intro!: gives_Suc settling)

lemma serves_Const: "serves cx (\<lambda>\<rho>. one c) Fresh (PPConst_open c)"
  by (rule serves_one_shot[where R = "\<lambda>p. p = OpConst c True" and W = "\<lambda>p. p = OpConst c False"])
    (auto simp: open_defs one_def PPConst_next_def intro!: gives_Suc settling)

lemma serves_Variable: "serves cx (\<lambda>\<rho>. one (\<rho> d)) Fresh (PPVariable_open d)"
  by (rule serves_one_shot[where R = "\<lambda>p. p = OpVariable (d, True)" and W = "\<lambda>p. p = OpVariable (d, False)"])
    (auto simp: open_defs one_def PPVariable_next_def intro!: gives_Suc settling)

section \<open>Tests\<close>

lemma serves_test:
  assumes q: "serves cx D Fresh q"
    and call: "\<And>q \<rho>. serves cx D Fresh q \<Longrightarrow>
      (case v (D \<rho>) of
         Inl x \<Rightarrow> settles (\<lambda>n. g n \<rho> q) (Inl x)
       | Inr b \<Rightarrow> \<exists>eos q'. settles (\<lambda>n. g n \<rho> q) (Inr (b, eos, q')) \<and> ready cx D eos q')"
    and F: "\<And>n \<rho> q e. next_plan cx (Suc n) \<rho> (F q True e) = bnd (g n \<rho> (if e then q else reopen q)) (\<lambda>(b, e, q). ret (Some [bool_cell b], F q False e))"
      "\<And>n \<rho> q e. next_plan cx (Suc n) \<rho> (F q False e) = ret (None, F q True e)"
      "\<And>vs q f e. reinit_consumer_table vs (F q f e) = F (reinit_consumer_table vs q) f e"
      "\<And>q f e. reopen (F q f e) = F (reopen q) True True"
  shows "serves cx (\<lambda>\<rho>. with_value (v (D \<rho>)) (\<lambda>b. one (bool_cell b))) Fresh (F q True True)"
proof (rule serves_one_shot[where R = "\<lambda>p. \<exists>q e. p = F q True e \<and> ready cx D e q" and W = "\<lambda>p. \<exists>q e. p = F q False e \<and> ready cx D e q"])
  fix p \<rho> assume "\<exists>q e. p = F q True e \<and> ready cx D e q"
  then obtain q e where p: "p = F q True e" and r: "ready cx D e q" by blast
  show "case with_value (v (D \<rho>)) (\<lambda>b. one (bool_cell b)) of ([], None) \<Rightarrow> \<exists>p'. gives cx \<rho> p (Inr (None, p')) \<and> (\<exists>q e. p' = F q True e \<and> ready cx D e q)
    | ([], Some e) \<Rightarrow> gives cx \<rho> p (Inl e) | ([t], None) \<Rightarrow> \<exists>p'. gives cx \<rho> p (Inr (Some t, p')) \<and> (\<exists>q e. p' = F q False e \<and> ready cx D e q) | _ \<Rightarrow> False"
  proof (cases "v (D \<rho>)")
    case (Inl x)
    then have "gives cx \<rho> p (Inl x)" using call[OF ready_simps(1)[OF r], of \<rho>] unfolding p
      by (intro gives_Suc) (simp only: F(1), simp add: settles_bnd_error)
    then show ?thesis using Inl by (simp add: with_value_def fails_def)
  next
    case (Inr b)
    then obtain eos q' where q': "settles (\<lambda>n. g n \<rho> (if e then q else reopen q)) (Inr (b, eos, q'))" "ready cx D eos q'"
      using call[OF ready_simps(1)[OF r], of \<rho>] by auto
    have "gives cx \<rho> p (Inr (Some [bool_cell b], F q' False eos))" unfolding p
      by (rule gives_Suc) (simp only: F(1), rule settles_bnd[OF q'(1)], simp add: settling)
    then show ?thesis using Inr q'(2) by (auto simp: with_value_def one_def)
  qed
next
  fix p \<rho> assume "\<exists>q e. p = F q False e \<and> ready cx D e q"
  then obtain q e where p: "p = F q False e" and r: "ready cx D e q" by blast
  have "gives cx \<rho> p (Inr (None, F q True e))" unfolding p by (rule gives_Suc) (simp add: F(2) settling)
  then show "\<exists>p'. gives cx \<rho> p (Inr (None, p')) \<and> (\<exists>q e. p' = F q True e \<and> ready cx D e q)" using r by blast
next
  show "\<exists>q' e. F q True True = F q' True e \<and> ready cx D e q'" using q ready_simps(4) by blast
  fix p assume "\<exists>q e. p = F q True e \<and> ready cx D e q"
  then show "\<exists>q e. reopen p = F q True e \<and> ready cx D e q" using F(4) ready_simps(3,4) by (metis stale_reopen)
next
  fix p assume "\<exists>q e. p = F q False e \<and> ready cx D e q"
  then show "\<exists>q e. reopen p = F q True e \<and> ready cx D e q" using F(4) ready_simps(3,4) by (metis stale_reopen)
qed (use F(3) ready_simps(2) in blast)+

lemma first_call_settles:
  assumes "serves cx D Fresh q"
  shows "case first_tuple (D \<rho>) of
           Inl x \<Rightarrow> gives cx \<rho> q (Inl x)
         | Inr t \<Rightarrow> \<exists>q'. gives cx \<rho> q (Inr (t, q')) \<and> ready cx D (t = None) q'
             \<and> (t \<noteq> None \<longrightarrow> serves cx D (Running \<rho> (after (D \<rho>))) q')"
  using serves_running[OF assms, of \<rho>]
  by (cases rule: running_cases) (auto simp: first_tuple_def ready_simps after_def intro: running_stale)

lemma first_answers:
  "serves cx D Fresh q \<Longrightarrow> answers (\<lambda>n. next_plan cx n \<rho> q) (first_tuple (D \<rho>))
     (\<lambda>t q. if t = None then serves cx D Fresh q else serves cx D (Running \<rho> (after (D \<rho>))) q)"
  using first_call_settles[of cx D q \<rho>] by (fastforce simp: answers_def ready_simps split: sum.splits)

lemma first_call_test:
  assumes "serves cx D Fresh q"
  shows "case map_sum id f (first_tuple (D \<rho>)) of
           Inl x \<Rightarrow> settles (\<lambda>n. bnd (next_plan cx n \<rho> q) (\<lambda>(t, q). ret (f t, t = None, q))) (Inl x)
         | Inr b \<Rightarrow> \<exists>eos q'. settles (\<lambda>n. bnd (next_plan cx n \<rho> q) (\<lambda>(t, q). ret (f t, t = None, q))) (Inr (b, eos, q')) \<and> ready cx D eos q'"
proof (cases "first_tuple (D \<rho>)")
  case (Inl x)
  then show ?thesis using first_call_settles[OF assms, of \<rho>] by (auto intro: settles_bnd_error)
next
  case (Inr t)
  then obtain q' where q': "gives cx \<rho> q (Inr (t, q'))" "ready cx D (t = None) q'" using first_call_settles[OF assms, of \<rho>] by auto
  have "settles (\<lambda>n. bnd (next_plan cx n \<rho> q) (\<lambda>(t, q). ret (f t, t = None, q))) (Inr (f t, t = None, q'))"
    by (rule settles_bnd[OF q'(1)]) (simp add: settling)
  then show ?thesis using Inr q'(2) by auto
qed

lemma serves_FnEmpty:
  assumes "serves cx D Fresh q"
  shows "serves cx (\<lambda>\<rho>. d_empty (D \<rho>)) Fresh (PPFnEmpty_open q)"
proof -
  have d: "d_empty r = with_value (map_sum id (\<lambda>t. t = None) (first_tuple r)) (\<lambda>b. one (bool_cell b))" for r
    by (cases r; cases "fst r"; cases "snd r") (auto simp: d_empty_def first_tuple_def with_value_def)
  show ?thesis unfolding d PPFnEmpty_open_def
  proof (rule serves_test[where F = OpFnEmpty and g = "\<lambda>n \<rho> q. bnd (next_plan cx n \<rho> q) (\<lambda>(t, q). ret (t = None, t = None, q))", OF assms])
    fix q \<rho> assume "serves cx D Fresh q"
    then show "case map_sum id (\<lambda>t. t = None) (first_tuple (D \<rho>)) of Inl x \<Rightarrow> settles (\<lambda>n. bnd (next_plan cx n \<rho> q) (\<lambda>(t, q). ret (t = None, t = None, q))) (Inl x)
      | Inr b \<Rightarrow> \<exists>eos q'. settles (\<lambda>n. bnd (next_plan cx n \<rho> q) (\<lambda>(t, q). ret (t = None, t = None, q))) (Inr (b, eos, q')) \<and> ready cx D eos q'"
      by (rule first_call_test)
  qed (auto simp: PPFnEmpty_next_def bnd_def bool_cell_def ret_def PPFnEmpty_open_def split: option.splits sum.splits)
qed

lemma serves_FnExists:
  assumes "serves cx D Fresh q"
  shows "serves cx (\<lambda>\<rho>. d_exists (D \<rho>)) Fresh (PPFnExists_open q)"
proof -
  have d: "d_exists r = with_value (map_sum id (\<lambda>t. t \<noteq> None) (first_tuple r)) (\<lambda>b. one (bool_cell b))" for r
    by (cases r; cases "fst r"; cases "snd r") (auto simp: d_exists_def first_tuple_def with_value_def)
  show ?thesis unfolding d PPFnExists_open_def
    by (rule serves_test[where F = OpFnExists and g = "\<lambda>n \<rho> q. bnd (next_plan cx n \<rho> q) (\<lambda>(t, q). ret (t \<noteq> None, t = None, q))", OF assms first_call_test])
      (auto simp: PPFnExists_next_def bnd_def bool_cell_def ret_def PPFnExists_open_def split: option.splits sum.splits)
qed

lemma serves_FnBoolean:
  assumes "serves cx D Fresh q"
  shows "serves cx (\<lambda>\<rho>. with_value (o_boolean cx (D \<rho>)) (\<lambda>b. one (bool_cell b))) Fresh (PPFnBoolean_open q)"
  unfolding PPFnBoolean_open_def
  by (rule serves_test[where F = OpFnBoolean and g = "\<lambda>n \<rho> q. effective_boolean_value cx (next_plan cx n \<rho>) q", OF assms boolean_settles])
    (auto simp: PPFnBoolean_next_def bool_cell_def PPFnBoolean_open_def)

lemma serves_FnNot:
  assumes "serves cx D Fresh q"
  shows "serves cx (\<lambda>\<rho>. with_value (o_boolean cx (D \<rho>)) (\<lambda>b. one (bool_cell (\<not> b)))) Fresh (PPFnNot_open q)"
proof -
  let ?g = "\<lambda>n \<rho> q. bnd (effective_boolean_value cx (next_plan cx n \<rho>) q) (\<lambda>(b, e, q). ret (\<not> b, e, q))"
  have call: "case map_sum id Not (o_boolean cx (D \<rho>)) of Inl x \<Rightarrow> settles (\<lambda>n. ?g n \<rho> q) (Inl x)
       | Inr b \<Rightarrow> \<exists>eos q'. settles (\<lambda>n. ?g n \<rho> q) (Inr (b, eos, q')) \<and> ready cx D eos q'" if q: "serves cx D Fresh q" for q \<rho>
  proof (cases "o_boolean cx (D \<rho>)")
    case (Inl x)
    then show ?thesis using boolean_settles[OF q, of \<rho>] by (auto intro: settles_bnd_error)
  next
    case (Inr b)
    then obtain eos q' where q': "settles (\<lambda>n. effective_boolean_value cx (next_plan cx n \<rho>) q) (Inr (b, eos, q'))" "ready cx D eos q'"
      using boolean_settles[OF q, of \<rho>] by auto
    have "settles (\<lambda>n. ?g n \<rho> q) (Inr (\<not> b, eos, q'))" by (rule settles_bnd[OF q'(1)]) (simp add: settling)
    then show ?thesis using Inr q'(2) by auto
  qed
  have d: "with_value v (\<lambda>b. one (bool_cell (\<not> b))) = with_value (map_sum id Not v) (\<lambda>b. one (bool_cell b))" for v
    by (cases v) (auto simp: with_value_def)
  show ?thesis unfolding d PPFnNot_open_def
    by (rule serves_test[where F = OpFnNot and g = ?g, OF assms call])
      (auto simp: PPFnNot_next_def bnd_def ret_def bool_cell_def PPFnNot_open_def split: option.splits sum.splits)
qed

section \<open>Operators that read their children in the first call\<close>

lemma serves_whole:
  fixes F :: "'c \<Rightarrow> bool \<Rightarrow> plan"
  assumes c: "A c"
    and call: "\<And>c \<rho>. A c \<Longrightarrow> answers (\<lambda>n. g n \<rho> c) (E \<rho>) (\<lambda>t c. if t = None then A c else B c)"
    and F: "\<And>n \<rho> c. A c \<Longrightarrow> next_plan cx (Suc n) \<rho> (F c True) = bnd (g n \<rho> c) (\<lambda>(t, c). ret (t, F c (t = None)))"
      "\<And>n \<rho> c. next_plan cx (Suc n) \<rho> (F c False) = ret (None, F (w c) True)"
      "\<And>vs c f. reinit_consumer_table vs (F c f) = F (rc vs c) f"
      "\<And>c f. reopen (F c f) = F (ro c) True"
    and ch: "\<And>c. B c \<Longrightarrow> A (w c)" "\<And>c. A c \<Longrightarrow> A (ro c)" "\<And>c. B c \<Longrightarrow> A (ro c)" "\<And>vs c. A c \<Longrightarrow> A (rc vs c)" "\<And>vs c. B c \<Longrightarrow> B (rc vs c)"
  shows "serves cx (\<lambda>\<rho>. with_value (E \<rho>) (\<lambda>t. (case t of None \<Rightarrow> [] | Some t \<Rightarrow> [t], None))) Fresh (F c True)"
proof (rule serves_one_shot[where R = "\<lambda>p. \<exists>c. p = F c True \<and> A c" and W = "\<lambda>p. \<exists>c. p = F c False \<and> B c"])
  fix p \<rho> assume "\<exists>c. p = F c True \<and> A c"
  then obtain c where p: "p = F c True" and a: "A c" by blast
  show "case with_value (E \<rho>) (\<lambda>t. (case t of None \<Rightarrow> [] | Some t \<Rightarrow> [t], None)) of ([], None) \<Rightarrow> \<exists>p'. gives cx \<rho> p (Inr (None, p')) \<and> (\<exists>c. p' = F c True \<and> A c)
    | ([], Some e) \<Rightarrow> gives cx \<rho> p (Inl e) | ([t], None) \<Rightarrow> \<exists>p'. gives cx \<rho> p (Inr (Some t, p')) \<and> (\<exists>c. p' = F c False \<and> B c) | _ \<Rightarrow> False"
  proof (cases "E \<rho>")
    case (Inl x)
    then have "gives cx \<rho> p (Inl x)" using call[OF a, of \<rho>] unfolding p answers_def
      by (intro gives_Suc) (simp only: F(1)[OF a], simp add: settles_bnd_error)
    then show ?thesis using Inl by (simp add: with_value_def fails_def)
  next
    case (Inr t)
    then obtain c' where c': "settles (\<lambda>n. g n \<rho> c) (Inr (t, c'))" "if t = None then A c' else B c'" using call[OF a, of \<rho>] by (auto simp: answers_def)
    have "gives cx \<rho> p (Inr (t, F c' (t = None)))" unfolding p
      by (rule gives_Suc) (simp only: F(1)[OF a], rule settles_bnd[OF c'(1)], simp add: settling)
    then show ?thesis using Inr c'(2) by (cases t) (auto simp: with_value_def)
  qed
next
  fix p \<rho> assume "\<exists>c. p = F c False \<and> B c"
  then obtain c where p: "p = F c False" and b: "B c" by blast
  have "gives cx \<rho> p (Inr (None, F (w c) True))" unfolding p by (rule gives_Suc) (simp add: F(2) settling)
  then show "\<exists>p'. gives cx \<rho> p (Inr (None, p')) \<and> (\<exists>c. p' = F c True \<and> A c)" using ch(1)[OF b] by blast
qed (use c F(3,4) ch in blast)+

end
