(* ===== verification/XqWhole.thy ===== *)
theory XqWhole
  imports XqServes
begin

text \<open>
  More operators with one result: cardinality, counting, sums, items at a position and the comparison of nodes.
\<close>

section \<open>Definitions\<close>

text \<open>The call that finds out whether a child has more than one tuple.\<close>

definition o_end :: "xq_error \<Rightarrow> outcome \<Rightarrow> 'v \<Rightarrow> xq_error + 'v" where
  "o_end x r v = (case r of ([], None) \<Rightarrow> Inr v | ([], Some e) \<Rightarrow> Inl e | _ \<Rightarrow> Inl x)"

text \<open>The first tuple, if there is one, and the end behind it; \<open>none\<close> is the error for the empty sequence, if it is one.\<close>

definition o_one :: "xq_error option \<Rightarrow> xq_error \<Rightarrow> outcome \<Rightarrow> xq_error + xqp_tuple option" where
  "o_one none x r =
     then_value (first_tuple r) (\<lambda>t.
       case t of None \<Rightarrow> (case none of None \<Rightarrow> Inr None | Some e \<Rightarrow> Inl e) | Some t \<Rightarrow> o_end x (after r) (Some t))"

definition take_one :: "xq_context \<Rightarrow> xq_error option \<Rightarrow> xq_error \<Rightarrow> nat \<Rightarrow> env \<Rightarrow> plan \<Rightarrow> pull run" where
  "take_one cx none x n \<rho> q =
     bnd (next_plan cx n \<rho> q) (\<lambda>(t, q).
       case t of
         None \<Rightarrow> (case none of None \<Rightarrow> ret (None, q) | Some e \<Rightarrow> raise e)
       | Some t \<Rightarrow> bnd (next_plan cx n \<rho> q) (\<lambda>(t2, q). if t2 = None then ret (Some t, q) else raise x))"

text \<open>An argument that may be missing.\<close>

definition optional_argument :: "xq_context \<Rightarrow> nat \<Rightarrow> env \<Rightarrow> plan \<Rightarrow> (atomic option \<times> plan) run" where
  "optional_argument cx n \<rho> z =
     bnd (next_plan cx n \<rho> z) (\<lambda>(t, z).
       case t of
         None \<Rightarrow> ret (None, z)
       | Some t \<Rightarrow> bnd (Some (atomize cx (get t))) (\<lambda>a.
           bnd (next_plan cx n \<rho> z) (\<lambda>(t2, z). if t2 = None then ret (Some a, z) else raise XPTY0004)))"

definition o_optional :: "xq_context \<Rightarrow> outcome \<Rightarrow> xq_error + atomic option" where
  "o_optional cx r =
     then_value (first_tuple r) (\<lambda>t.
       case t of None \<Rightarrow> Inr None | Some t \<Rightarrow> then_value (atomize cx (get t)) (\<lambda>a. o_end XPTY0004 (after r) (Some a)))"

text \<open>The part of \<^verbatim>\<open>PPFnSumAvg::do_next\<close> behind the loop, for a sum or where a value for the empty sequence is given.\<close>

definition sum_result :: "xq_context \<Rightarrow> bool \<Rightarrow> nat \<Rightarrow> env \<Rightarrow> plan option \<Rightarrow> atomic option \<times> int \<Rightarrow> (xqp_tuple option \<times> plan option) run" where
  "sum_result cx i n \<rho> zero s =
     (case fst s of
        Some r \<Rightarrow> bnd (Some (if i then op_div cx r (Xs_integer (snd s)) else Inr r)) (\<lambda>r. ret (Some [AtomicCell r], zero))
      | None \<Rightarrow>
          (case zero of
             None \<Rightarrow> ret (Some [int_cell 0], None)
           | Some z \<Rightarrow> bnd (optional_argument cx n \<rho> z) (\<lambda>(a, z). ret (map_option (\<lambda>a. [AtomicCell a]) a, Some z))))"

definition o_sum :: "xq_context \<Rightarrow> bool \<Rightarrow> outcome option \<Rightarrow> atomic option \<times> int \<Rightarrow> xq_error + xqp_tuple option" where
  "o_sum cx i zero s =
     (case fst s of
        Some r \<Rightarrow> then_value (if i then op_div cx r (Xs_integer (snd s)) else Inr r) (\<lambda>r. Inr (Some [AtomicCell r]))
      | None \<Rightarrow>
          (case zero of
             None \<Rightarrow> Inr (Some [int_cell 0])
           | Some z \<Rightarrow> then_value (o_optional cx z) (\<lambda>a. Inr (map_option (\<lambda>a. [AtomicCell a]) a))))"

definition o_item :: "int \<Rightarrow> outcome \<Rightarrow> xq_error + xqp_tuple option" where
  "o_item pos r =
     (if pos < 1 then Inl SE1007
      else if nat pos \<le> length (fst r) then Inr (Some (fst r ! (nat pos - 1)))
      else case snd r of Some e \<Rightarrow> Inl e | None \<Rightarrow> if fst r = [] then Inr None else Inl SE1007)"

abbreviation at_most_one :: "xqp_tuple option \<Rightarrow> outcome" where
  "at_most_one t \<equiv> (case t of None \<Rightarrow> [] | Some t \<Rightarrow> [t], None)"

text \<open>The comparison of two nodes, with the ends of both operands.\<close>

definition o_compare :: "int \<Rightarrow> xqp_tuple option \<Rightarrow> xqp_tuple option \<Rightarrow> xq_error + bool option" where
  "o_compare type t1 t2 =
     (if \<not> (node_or_eos t1 \<and> node_or_eos t2) then Inl XPTY0004
      else case (t1, t2) of (Some u1, Some u2) \<Rightarrow> map_sum id Some (compare_nodes type (get u1) (get u2)) | _ \<Rightarrow> Inr None)"

definition o_node_comparison :: "int \<Rightarrow> outcome \<Rightarrow> outcome \<Rightarrow> xq_error + xqp_tuple option" where
  "o_node_comparison type r s =
     then_value (first_tuple r) (\<lambda>t1. then_value (first_tuple s) (\<lambda>t2. then_value (o_compare type t1 t2) (\<lambda>b.
       case finished r of
         Some e \<Rightarrow> Inl e
       | None \<Rightarrow> (case finished s of Some e \<Rightarrow> Inl e | None \<Rightarrow> Inr (map_option (\<lambda>b. [bool_cell b]) b)))))"

definition comparison_call :: "xq_context \<Rightarrow> int \<Rightarrow> nat \<Rightarrow> env \<Rightarrow> plan \<times> plan \<Rightarrow> (xqp_tuple option \<times> plan \<times> plan) run" where
  "comparison_call cx type n \<rho> c =
     bnd (next_plan cx n \<rho> (fst c)) (\<lambda>(t1, p). bnd (next_plan cx n \<rho> (snd c)) (\<lambda>(t2, q). bnd (Some (o_compare type t1 t2)) (\<lambda>b.
       bnd (finish_child (next_plan cx n \<rho>) t1 p) (\<lambda>p. bnd (finish_child (next_plan cx n \<rho>) t2 q) (\<lambda>q.
         ret (map_option (\<lambda>b. [bool_cell b]) b, (p, q)))))))"

section \<open>Cardinality\<close>

lemma end_answers:
  assumes "serves cx D (Running \<rho> r) q"
  shows "answers (\<lambda>n. bnd (next_plan cx n \<rho> q) (\<lambda>(t, q). if t = None then ret (v, q) else raise x)) (o_end x r v) (\<lambda>v. serves cx D Fresh)"
  using assms
proof (cases rule: running_cases)
  case (item t ts e q')
  then show ?thesis by (auto simp: o_end_def answers_def intro!: settles_bnd[OF item(2)] settling)
next
  case (eos q')
  have "settles (\<lambda>n. bnd (next_plan cx n \<rho> q) (\<lambda>(t, q). if t = None then ret (v, q) else raise x)) (Inr (v, q'))"
    by (rule settles_bnd[OF eos(2)]) (simp add: settling)
  then show ?thesis using eos by (auto simp: o_end_def answers_def)
next
  case (err y)
  then show ?thesis by (auto simp: o_end_def answers_def intro!: settles_bnd_error)
qed

lemma one_answers:
  assumes "serves cx D Fresh q"
  shows "answers (\<lambda>n. take_one cx none x n \<rho> q) (o_one none x (D \<rho>)) (\<lambda>t. serves cx D Fresh)"
  unfolding take_one_def o_one_def
  by (rule answers_bnd[OF first_answers[OF assms]]) (auto simp: answers_ret answers_raise end_answers split: option.splits)

lemma serves_take_one:
  assumes "serves cx D Fresh q"
    and F: "\<And>n \<rho> q. next_plan cx (Suc n) \<rho> (F q True) = bnd (take_one cx none x n \<rho> q) (\<lambda>(t, q). ret (t, F q (t = None)))"
      "\<And>n \<rho> q. next_plan cx (Suc n) \<rho> (F q False) = ret (None, F q True)"
      "\<And>vs q f. reinit_consumer_table vs (F q f) = F (reinit_consumer_table vs q) f"
      "\<And>q f. reopen (F q f) = F (reopen q) True"
  shows "serves cx (\<lambda>\<rho>. with_value (o_one none x (D \<rho>)) at_most_one) Fresh (F q True)"
  by (rule serves_whole[where F = F and A = "serves cx D Fresh" and B = "serves cx D Fresh" and w = "\<lambda>c. c" and g = "take_one cx none x"
      and rc = reinit_consumer_table and ro = reopen, OF assms(1) _ F]) (auto simp: one_answers if_cancel)

lemma serves_FnZeroOrOne:
  assumes "serves cx D Fresh q"
  shows "serves cx (\<lambda>\<rho>. d_zero_or_one (D \<rho>)) Fresh (PPFnZeroOrOne_open q)"
proof -
  have d: "d_zero_or_one r = with_value (o_one None FORG0003 r) at_most_one" for r
    by (auto simp: d_zero_or_one_def o_one_def first_tuple_def o_end_def after_def with_value_def fails_def split: list.splits option.splits prod.splits)
  show ?thesis unfolding d PPFnZeroOrOne_open_def
    by (rule serves_take_one[where F = OpFnZeroOrOne, OF assms])
      (auto simp: PPFnZeroOrOne_next_def take_one_def PPFnZeroOrOne_open_def bnd_def ret_def raise_def split: option.splits sum.splits)
qed

lemma serves_FnExactlyOne:
  assumes "serves cx D Fresh q"
  shows "serves cx (\<lambda>\<rho>. d_exactly_one (D \<rho>)) Fresh (PPFnExactlyOne_open q)"
proof -
  have d: "d_exactly_one r = with_value (o_one (Some FORG0005) FORG0005 r) at_most_one" for r
    by (auto simp: d_exactly_one_def o_one_def first_tuple_def o_end_def after_def with_value_def fails_def split: list.splits option.splits prod.splits)
  show ?thesis unfolding d PPFnExactlyOne_open_def
    by (rule serves_take_one[where F = OpFnExactlyOne, OF assms])
      (auto simp: PPFnExactlyOne_next_def take_one_def PPFnExactlyOne_open_def bnd_def ret_def raise_def split: option.splits sum.splits)
qed

section \<open>Aggregates\<close>

lemma count_fold: "d_fold (\<lambda>n t. Inr (n + 1)) k ts e = (case e of None \<Rightarrow> Inr (k + int (length ts)) | Some x \<Rightarrow> Inl x)"
  by (induction ts arbitrary: k) (auto split: option.splits)

lemma serves_FnCount:
  assumes "serves cx D Fresh q"
  shows "serves cx (\<lambda>\<rho>. d_count (D \<rho>)) Fresh (PPFnCount_open q)"
proof -
  let ?E = "\<lambda>\<rho>. then_value (d_fold (\<lambda>n t. Inr (n + 1)) 0 (fst (D \<rho>)) (snd (D \<rho>))) (\<lambda>n. Inr (Some [int_cell n]))"
  let ?g = "\<lambda>n \<rho> q. bnd (until_eos n (next_plan cx n \<rho>) (\<lambda>n t. Inr (n + 1)) 0 q) (\<lambda>(n, p). ret (Some [int_cell n], p))"
  have call: "answers (\<lambda>n. ?g n \<rho> q) (?E \<rho>) (\<lambda>t. serves cx D Fresh)" if "serves cx D Fresh q" for q \<rho>
    by (rule answers_bnd[OF loop_answers[OF that]]) (simp add: answers_ret)
  have d: "d_count (D \<rho>) = with_value (?E \<rho>) at_most_one" for \<rho>
    by (auto simp: d_count_def with_value_def one_def count_fold split: option.splits)
  show ?thesis unfolding d PPFnCount_open_def
    by (rule serves_whole[where F = OpFnCount and A = "serves cx D Fresh" and B = "serves cx D Fresh" and w = "\<lambda>c. c" and g = ?g
          and rc = reinit_consumer_table and ro = reopen, OF assms])
      (use call in \<open>auto simp: if_cancel PPFnCount_next_def int_cell_def PPFnCount_open_def bnd_def ret_def split: option.splits sum.splits\<close>)
qed

lemma optional_answers:
  assumes "serves cx D Fresh q"
  shows "answers (\<lambda>n. optional_argument cx n \<rho> q) (o_optional cx (D \<rho>)) (\<lambda>a. serves cx D Fresh)"
  unfolding optional_argument_def o_optional_def
  by (rule answers_bnd[OF first_answers[OF assms]]) (auto simp: answers_ret answers_value end_answers split: option.splits)

lemma sum_result_answers:
  assumes "rel_option (\<lambda>D z. serves cx D Fresh z) Dz zero"
  shows "answers (\<lambda>n. sum_result cx i n \<rho> zero s) (o_sum cx i (map_option (\<lambda>D. D \<rho>) Dz) s) (\<lambda>t zero. rel_option (\<lambda>D z. serves cx D Fresh z) Dz zero)"
proof (cases "fst s")
  case (Some r)
  then show ?thesis unfolding sum_result_def o_sum_def by (simp add: answers_value answers_ret assms)
next
  case None
  show ?thesis
  proof (cases zero)
    case (Some z)
    then obtain D where D: "Dz = Some D" "serves cx D Fresh z" using assms by (cases Dz) auto
    have "answers (\<lambda>n. bnd (optional_argument cx n \<rho> z) (\<lambda>(a, z). ret (map_option (\<lambda>a. [AtomicCell a]) a, Some z)))
        (then_value (o_optional cx (D \<rho>)) (\<lambda>a. Inr (map_option (\<lambda>a. [AtomicCell a]) a))) (\<lambda>t zero. rel_option (\<lambda>D z. serves cx D Fresh z) Dz zero)"
      by (rule answers_bnd[OF optional_answers[OF D(2)]]) (simp add: answers_ret D(1))
    then show ?thesis unfolding sum_result_def o_sum_def using None Some D(1) by simp
  qed (use None assms in \<open>auto simp: o_sum_def sum_result_def answers_ret\<close>)
qed

lemma o_optional_single: "o_optional cx z = (if z = ([], None) then Inr None else map_sum id Some (o_single (atomize cx) z))"
  by (auto simp: o_optional_def o_single_def first_tuple_def o_end_def after_def split: list.splits option.splits prod.splits sum.splits)

lemma fresh_option:
  assumes "rel_option (\<lambda>D z. serves cx D Fresh z) Dz z"
  shows "rel_option (\<lambda>D z. serves cx D Fresh z) Dz (map_option reopen z)" "rel_option (\<lambda>D z. serves cx D Fresh z) Dz (map_option (reinit_consumer_table vs) z)"
  using assms by (cases Dz; cases z; auto)+

lemma d_sum_avg_value:
  assumes "i \<Longrightarrow> zero \<noteq> None"
  shows "d_sum_avg cx i r zero = with_value (then_value (d_fold (sum_item cx) (None, 0) (fst r) (snd r)) (o_sum cx i zero)) at_most_one"
proof (cases "d_fold (sum_item cx) (None, 0) (fst r) (snd r)")
  case (Inr s)
  show ?thesis
  proof (cases "fst s")
    case None
    have "(if z = ([], None) then z else with_value (o_single (atomize cx) z) (\<lambda>a. one (AtomicCell a)))
        = with_value (then_value (o_optional cx z) (\<lambda>a. Inr (map_option (\<lambda>a. [AtomicCell a]) a))) at_most_one" for z
      by (cases "o_single (atomize cx) z") (auto simp: o_optional_single with_value_def one_def)
    then show ?thesis using assms Inr None by (cases zero; cases s) (auto simp: d_sum_avg_def o_sum_def with_value_def[of "Inr x" for x] one_def)
  next
    case (Some a)
    then show ?thesis using Inr by (cases "if i then op_div cx a (Xs_integer (snd s)) else Inr a"; cases s) (auto simp: d_sum_avg_def o_sum_def with_value_def one_def)
  qed
qed (simp add: d_sum_avg_def with_value_def)

lemma sum_avg_next:
  assumes "i \<Longrightarrow> zero \<noteq> None"
  shows "PPFnSumAvg_next cx n (next_plan cx n \<rho>) i p zero True =
    bnd (bnd (until_eos n (next_plan cx n \<rho>) (sum_item cx) (None, 0) p) (\<lambda>(s, p). bnd (sum_result cx i n \<rho> zero s) (\<lambda>(t, z). ret (t, (p, z)))))
      (\<lambda>(t, c). ret (t, OpFnSumAvg i (fst c) (snd c) (t = None)))"
proof -
  have "(case res of
          Some r \<Rightarrow> bnd (Some (if i then op_div cx r (Xs_integer m) else Inr r)) (\<lambda>r. ret (Some [AtomicCell r], OpFnSumAvg i p zero False))
        | None \<Rightarrow>
            (case zero of
               None \<Rightarrow> if i then ret (None, OpFnSumAvg i p zero False) else ret (Some [AtomicCell (Xs_integer 0)], OpFnSumAvg i p zero False)
             | Some z \<Rightarrow>
                 bnd (next_plan cx n \<rho> z) (\<lambda>(t, z).
                   case t of
                     None \<Rightarrow> ret (None, OpFnSumAvg i p (Some z) True)
                   | Some t \<Rightarrow> bnd (Some (atomize cx (get t))) (\<lambda>a.
                       bnd (next_plan cx n \<rho> z) (\<lambda>(t2, z).
                         if t2 \<noteq> None then raise XPTY0004 else ret (Some [AtomicCell a], OpFnSumAvg i p (Some z) False))))))
      = bnd (sum_result cx i n \<rho> zero (res, m)) (\<lambda>(t, z). ret (t, OpFnSumAvg i p z (t = None)))" for res m p
    using assms by (cases res; cases zero) (auto simp: sum_result_def optional_argument_def bnd_def ret_def raise_def int_cell_def split: option.splits sum.splits)
  then show ?thesis by (auto simp: PPFnSumAvg_next_def bnd_def ret_def split: option.splits sum.splits)
qed

lemma serves_FnSumAvg:
  assumes q: "serves cx D Fresh q" and z: "rel_option (\<lambda>D z. serves cx D Fresh z) Dz z" and i: "i \<Longrightarrow> Dz \<noteq> None"
  shows "serves cx (\<lambda>\<rho>. d_sum_avg cx i (D \<rho>) (map_option (\<lambda>f. f \<rho>) Dz)) Fresh (PPFnSumAvg_open i q z)"
proof -
  let ?A = "\<lambda>c. serves cx D Fresh (fst c) \<and> rel_option (\<lambda>D z. serves cx D Fresh z) Dz (snd c)"
  let ?E = "\<lambda>\<rho>. then_value (d_fold (sum_item cx) (None, 0) (fst (D \<rho>)) (snd (D \<rho>))) (o_sum cx i (map_option (\<lambda>f. f \<rho>) Dz))"
  let ?g = "\<lambda>n \<rho> c. bnd (until_eos n (next_plan cx n \<rho>) (sum_item cx) (None, 0) (fst c))
    (\<lambda>(s, p). bnd (sum_result cx i n \<rho> (snd c) s) (\<lambda>(t, z). ret (t, (p, z))))"
  let ?F = "\<lambda>c. OpFnSumAvg i (fst c) (snd c)"
  have call: "answers (\<lambda>n. ?g n \<rho> c) (?E \<rho>) (\<lambda>t. ?A)" if "?A c" for c \<rho>
    by (rule answers_bnd[OF loop_answers[OF conjunct1[OF that]]])
      (auto intro!: answers_map[OF sum_result_answers[OF conjunct2[OF that]]])
  have d: "d_sum_avg cx i (D \<rho>) (map_option (\<lambda>f. f \<rho>) Dz) = with_value (?E \<rho>) at_most_one" for \<rho>
    using i by (intro d_sum_avg_value) auto
  have n: "next_plan cx (Suc n) \<rho> (?F c True) = bnd (?g n \<rho> c) (\<lambda>(t, c). ret (t, ?F c (t = None)))" if "?A c" for n \<rho> c
  proof -
    have "i \<Longrightarrow> snd c \<noteq> None" using i that by (cases "snd c") auto
    then show ?thesis unfolding next_simps by (rule sum_avg_next)
  qed
  have "serves cx (\<lambda>\<rho>. with_value (?E \<rho>) at_most_one) Fresh (?F (q, z) True)"
  proof (rule serves_whole[where F = ?F and A = ?A and B = ?A and w = "\<lambda>c. c" and g = ?g
      and rc = "\<lambda>vs. map_prod (reinit_consumer_table vs) (map_option (reinit_consumer_table vs))" and ro = "map_prod reopen (map_option reopen)"], goal_cases)
    case (2 c \<rho>)
    then show ?case using call[of c \<rho>] by (simp only: if_cancel)
  next
    case (3 n \<rho> c)
    then show ?case by (rule n)
  qed (use q z in \<open>simp_all add: PPFnSumAvg_next_def PPFnSumAvg_open_def fresh_option serves_reinit stale_reopen fresh_stale del: option.rel_map\<close>)
  then show ?thesis by (simp only: d PPFnSumAvg_open_def fst_conv snd_conv)
qed

section \<open>Items at a position\<close>

lemma item_loop_answers:
  assumes "serves cx D (Running \<rho> r) q"
  shows "answers (\<lambda>n. item_loop (next_plan cx n \<rho>) (Suc k) first q)
    (if k < length (fst r) then Inr (Some (fst r ! k)) else case snd r of Some e \<Rightarrow> Inl e | None \<Rightarrow> if first \<and> fst r = [] then Inr None else Inl SE1007)
    (\<lambda>t. serves cx D (if t = None then Fresh else Stale))"
  using assms
proof (induction k arbitrary: r q first)
  case 0
  show ?case unfolding item_loop.simps by (rule answers_pull[OF 0]) (auto intro!: answers_ret answers_raise running_stale)
next
  case (Suc k)
  show ?case unfolding item_loop.simps(2)[of _ "Suc k"]
  proof (rule answers_pull[OF Suc.prems], goal_cases)
    case (1 t ts e q)
    then show ?case using Suc.IH[of "(ts, e)" q False] by (simp del: item_loop.simps split del: if_split cong: if_cong option.case_cong)
  qed (auto intro!: answers_ret answers_raise)
qed
lemma item_answers:
  assumes q: "serves cx D Fresh q" and p: "serves cx Dp Fresh p"
  shows "answers (\<lambda>n. if pos < 1 then raise SE1007 else bnd (item_loop (next_plan cx n \<rho>) (nat pos) True q) (\<lambda>(t, q). ret (t, (q, p))))
    (o_item pos (D \<rho>)) (\<lambda>t c. serves cx D (if t = None then Fresh else Stale) (fst c) \<and> serves cx Dp Fresh (snd c))"
proof (cases "pos < 1")
  case True
  then show ?thesis by (simp add: o_item_def answers_raise)
next
  case False
  then have "o_item pos (D \<rho>) = (if nat (pos - 1) < length (fst (D \<rho>)) then Inr (Some (fst (D \<rho>) ! nat (pos - 1)))
      else case snd (D \<rho>) of Some e \<Rightarrow> Inl e | None \<Rightarrow> if True \<and> fst (D \<rho>) = [] then Inr None else Inl SE1007)" "nat pos = Suc (nat (pos - 1))"
    by (auto simp: o_item_def nat_diff_distrib split: option.splits)
  then show ?thesis using False
    by (simp only: if_False) (rule answers_map[OF item_loop_answers[OF serves_running[OF q]]], use p in \<open>auto split: if_splits\<close>)
qed

lemma serves_FnItemAt:
  assumes q: "serves cx D Fresh q" and p: "serves cx Dp Fresh p"
  shows "serves cx (\<lambda>\<rho>. with_value (o_single (\<lambda>c. case c of AtomicCell a \<Rightarrow> cast_integer cx a | _ \<Rightarrow> Inl Impossible_case) (Dp \<rho>))
    (\<lambda>pos. d_item_at pos (D \<rho>))) Fresh (PPFnItemAt_open q p)"
proof -
  let ?v = "\<lambda>c. case c of AtomicCell a \<Rightarrow> cast_integer cx a | _ \<Rightarrow> Inl Impossible_case"
  let ?A = "\<lambda>m c. serves cx D m (fst c) \<and> serves cx Dp Fresh (snd c)"
  let ?E = "\<lambda>\<rho>. then_value (o_single ?v (Dp \<rho>)) (\<lambda>pos. o_item pos (D \<rho>))"
  let ?g = "\<lambda>n \<rho> c. bnd (single_argument (next_plan cx n \<rho>) ?v (snd c)) (\<lambda>(pos, p).
    if pos < 1 then raise SE1007 else bnd (item_loop (next_plan cx n \<rho>) (nat pos) True (fst c)) (\<lambda>(t, q). ret (t, (q, p))))"
  let ?F = "\<lambda>c. OpFnItemAt (fst c) (snd c)"
  have call: "answers (\<lambda>n. ?g n \<rho> c) (?E \<rho>) (\<lambda>t. ?A (if t = None then Fresh else Stale))" if "?A Fresh c" for c \<rho>
    by (rule answers_bnd[OF single_argument_answers[OF conjunct2[OF that]]]) (simp only: prod.case, rule item_answers[OF conjunct1[OF that]])
  have d: "with_value (o_single ?v (Dp \<rho>)) (\<lambda>pos. d_item_at pos (D \<rho>)) = with_value (?E \<rho>) at_most_one" for \<rho>
    by (auto simp: d_item_at_def o_item_def with_value_def fails_def then_value_def split: sum.splits option.splits)
  have n: "next_plan cx (Suc n) \<rho> (?F c True) = bnd (?g n \<rho> c) (\<lambda>(t, c). ret (t, ?F c (t = None)))" for n \<rho> c
    unfolding next_simps PPFnItemAt_next_def by (auto simp: bnd_def ret_def raise_def split: option.splits sum.splits)
  have "serves cx (\<lambda>\<rho>. with_value (?E \<rho>) at_most_one) Fresh (?F (q, p) True)"
    by (rule serves_whole[where F = ?F and A = "?A Fresh" and B = "?A Stale" and w = "\<lambda>c. (reopen (fst c), snd c)" and g = ?g
          and rc = "\<lambda>vs. map_prod (reinit_consumer_table vs) (reinit_consumer_table vs)" and ro = "map_prod reopen reopen", OF _ answers_mono[OF call] n])
      (use q p in \<open>auto simp: PPFnItemAt_next_def PPFnItemAt_open_def\<close>)
  then show ?thesis by (simp only: d PPFnItemAt_open_def fst_conv snd_conv)
qed

section \<open>Comparison of nodes\<close>

lemma finish_answers:
  assumes "first_tuple r = Inr t" "if t = None then serves cx D Fresh q else serves cx D (Running \<rho> (after r)) q"
    and "\<And>q. finished r = None \<Longrightarrow> serves cx D Fresh q \<Longrightarrow> answers (\<lambda>n. f n q) V Q" "\<And>e. finished r = Some e \<Longrightarrow> V = Inl e"
  shows "answers (\<lambda>n. bnd (finish_child (next_plan cx n \<rho>) t q) (f n)) V Q"
proof (cases t)
  case None
  then have "r = ([], None)" using assms(1) by (auto simp: first_tuple_def split: list.splits option.splits prod.splits)
  then show ?thesis using assms None by (simp add: finish_child_def finished_def)
next
  case (Some u)
  then obtain ts e where r: "r = (u # ts, e)" using assms(1) by (auto simp: first_tuple_def split: list.splits option.splits prod.splits)
  have run: "serves cx D (Running \<rho> (ts, e)) q" using assms(2) Some r by (simp add: after_def)
  have b: "bnd (finish_child nx t q) h = bnd (nx q) (\<lambda>(t2, q). if t2 \<noteq> None then raise XPTY0004 else h q)" for nx h
    using Some by (auto simp: finish_child_def bnd_def ret_def raise_def split: option.splits sum.splits)
  show ?thesis unfolding b
    by (rule answers_pull[OF run]) (use assms(3,4) r in \<open>auto simp: finished_def intro: answers_raise\<close>)
qed

lemma comparison_answers:
  assumes "serves cx D Fresh p" "serves cx E Fresh q"
  shows "answers (\<lambda>n. comparison_call cx type n \<rho> (p, q)) (o_node_comparison type (D \<rho>) (E \<rho>))
    (\<lambda>t c. serves cx D Fresh (fst c) \<and> serves cx E Fresh (snd c))"
  unfolding comparison_call_def o_node_comparison_def fst_conv snd_conv
proof (rule answers_bnd[OF first_answers[OF assms(1)]], unfold prod.case, rule answers_bnd[OF first_answers[OF assms(2)]], unfold prod.case, rule answers_value, goal_cases)
  case (1 t1 p t2 q b)
  show ?case
  proof (rule finish_answers[OF 1(1,2)])
    fix p' assume "finished (D \<rho>) = None" and p': "serves cx D Fresh p'"
    then show "answers (\<lambda>n. bnd (finish_child (next_plan cx n \<rho>) t2 q) (\<lambda>q. ret (map_option (\<lambda>b. [bool_cell b]) b, (p', q))))
      (case finished (D \<rho>) of Some e \<Rightarrow> Inl e | None \<Rightarrow> (case finished (E \<rho>) of Some e \<Rightarrow> Inl e | None \<Rightarrow> Inr (map_option (\<lambda>b. [bool_cell b]) b)))
      (\<lambda>t c. serves cx D Fresh (fst c) \<and> serves cx E Fresh (snd c))"
      by (intro finish_answers[OF 1(3,4)]) (auto intro!: answers_ret)
  qed simp
qed

lemma serves_NodeComparison:
  assumes "serves cx D Fresh p" "serves cx E Fresh q"
  shows "serves cx (\<lambda>\<rho>. d_node_comparison type (D \<rho>) (E \<rho>)) Fresh (PPNodeComparison_open type p q)"
proof -
  let ?A = "\<lambda>c. serves cx D Fresh (fst c) \<and> serves cx E Fresh (snd c)"
  let ?F = "\<lambda>c. OpNodeComparison type (fst c) (snd c)"
  have d: "d_node_comparison type r s = with_value (o_node_comparison type r s) at_most_one" for r s
    by (auto simp: d_node_comparison_def o_node_comparison_def o_compare_def with_value_def fails_def then_value_def one_def split: sum.splits option.splits)
  have n: "next_plan cx (Suc n) \<rho> (?F c True) = bnd (comparison_call cx type n \<rho> c) (\<lambda>(t, c). ret (t, ?F c (t = None)))" for n \<rho> c
    unfolding next_simps PPNodeComparison_next_def comparison_call_def o_compare_def bool_cell_def
    by (auto simp: bnd_def ret_def raise_def split: option.splits sum.splits)
  have "serves cx (\<lambda>\<rho>. with_value (o_node_comparison type (D \<rho>) (E \<rho>)) at_most_one) Fresh (?F (p, q) True)"
  proof (rule serves_whole[where F = ?F and A = ?A and B = ?A and w = "\<lambda>c. c" and g = "comparison_call cx type"
      and rc = "\<lambda>vs. map_prod (reinit_consumer_table vs) (reinit_consumer_table vs)" and ro = "map_prod reopen reopen"], goal_cases)
    case (2 c \<rho>)
    then show ?case using comparison_answers[of cx D "fst c" E "snd c" type \<rho>] by (simp only: if_cancel) simp
  next
    case (3 n \<rho> c)
    show ?case by (rule n)
  qed (use assms in \<open>simp_all add: PPNodeComparison_next_def PPNodeComparison_open_def serves_reinit stale_reopen fresh_stale\<close>)
  then show ?thesis by (simp only: d PPNodeComparison_open_def fst_conv snd_conv)
qed

end
