(* ===== verification/XqStreams.thy ===== *)
theory XqStreams
  imports XqWhole
begin

text \<open>
  The operators that give tuples one by one keep the contract: sequences, conditionals, ranges, the functions on
  positions and the check of a step's result. Each has a relation between its mode and its fields.
\<close>

section \<open>Definitions\<close>

text \<open>A call gives the first tuple of an outcome, and leads to a state from which the rest is given.\<close>

definition emits :: "env \<Rightarrow> outcome \<Rightarrow> (mode \<Rightarrow> plan \<Rightarrow> bool) \<Rightarrow> (nat \<Rightarrow> pull run) \<Rightarrow> bool" where
  "emits \<rho> r X g \<longleftrightarrow> answers g (first_tuple r) (\<lambda>t. X (if t = None then Fresh else Running \<rho> (after r)))"

inductive one_or_more :: "xq_context \<Rightarrow> (env \<Rightarrow> outcome) \<Rightarrow> mode \<Rightarrow> plan \<Rightarrow> bool" for cx D where
  "serves cx D Fresh q \<Longrightarrow> one_or_more cx D Fresh (OpFnOneOrMore q True)"
| "serves cx D Stale q \<Longrightarrow> one_or_more cx D Stale (OpFnOneOrMore q f)"
| "serves cx D (Running \<rho> s) q \<Longrightarrow> r = (if f then d_one_or_more s else s) \<Longrightarrow> one_or_more cx D (Running \<rho> r) (OpFnOneOrMore q f)"

inductive seq_checker :: "xq_context \<Rightarrow> (env \<Rightarrow> outcome) \<Rightarrow> check_mode \<Rightarrow> mode \<Rightarrow> plan \<Rightarrow> bool" for cx D md where
  "serves cx D Fresh q \<Longrightarrow> seq_checker cx D md Fresh (OpSeqChecker md q 0 x)"
| "serves cx D Stale q \<Longrightarrow> seq_checker cx D md Stale (OpSeqChecker md q pos x)"
| "serves cx D (Running \<rho> (ts, e)) q \<Longrightarrow> pos \<ge> 0 \<Longrightarrow> (md = CHECK_MIX \<Longrightarrow> y = (if pos = 0 then None else Some x))
   \<Longrightarrow> r = d_seq_checker md y ts e \<Longrightarrow> seq_checker cx D md (Running \<rho> r) (OpSeqChecker md q pos x)"

inductive index_of :: "xq_context \<Rightarrow> (env \<Rightarrow> outcome) \<Rightarrow> (env \<Rightarrow> outcome) \<Rightarrow> mode \<Rightarrow> plan \<Rightarrow> bool" for cx D E where
  "serves cx D Fresh q \<Longrightarrow> serves cx E Fresh z \<Longrightarrow> index_of cx D E Fresh (OpFnIndexOf q z False a 0)"
| "serves cx D Stale q \<Longrightarrow> serves cx E Fresh z \<Longrightarrow> index_of cx D E Stale (OpFnIndexOf q z h a pos)"
| "serves cx D Fresh q \<Longrightarrow> serves cx E Fresh z \<Longrightarrow> r = with_value (o_single (atomize cx) (E \<rho>)) (\<lambda>a. d_index_of cx a 0 (fst (D \<rho>)) (snd (D \<rho>)))
   \<Longrightarrow> index_of cx D E (Running \<rho> r) (OpFnIndexOf q z False a 0)"
| "serves cx D (Running \<rho> (ts, e)) q \<Longrightarrow> serves cx E Fresh z \<Longrightarrow> r = d_index_of cx a pos ts e
   \<Longrightarrow> index_of cx D E (Running \<rho> r) (OpFnIndexOf q z True a pos)"

inductive reversed :: "xq_context \<Rightarrow> (env \<Rightarrow> outcome) \<Rightarrow> mode \<Rightarrow> plan \<Rightarrow> bool" for cx D where
  "serves cx D Fresh q \<Longrightarrow> reversed cx D Fresh (OpFnReverse q True [] pos)"
| "serves cx D Fresh q \<Longrightarrow> reversed cx D Stale (OpFnReverse q f s pos)"
| "serves cx D Fresh q \<Longrightarrow> r = d_reverse (D \<rho>) \<Longrightarrow> reversed cx D (Running \<rho> r) (OpFnReverse q True [] pos)"
| "serves cx D Fresh q \<Longrightarrow> -1 \<le> pos \<Longrightarrow> pos < int (length s) \<Longrightarrow> r = (rev (take (nat (pos + 1)) s), None)
   \<Longrightarrow> reversed cx D (Running \<rho> r) (OpFnReverse q False s pos)"

inductive removing :: "xq_context \<Rightarrow> (env \<Rightarrow> outcome) \<Rightarrow> (env \<Rightarrow> outcome) \<Rightarrow> mode \<Rightarrow> plan \<Rightarrow> bool" for cx D E where
  "serves cx D Fresh q \<Longrightarrow> serves cx E Fresh z \<Longrightarrow> removing cx D E Fresh (OpFnRemove q z True rp cp)"
| "serves cx D Stale q \<Longrightarrow> serves cx E Fresh z \<Longrightarrow> removing cx D E Stale (OpFnRemove q z f rp cp)"
| "serves cx D Fresh q \<Longrightarrow> serves cx E Fresh z \<Longrightarrow> r = with_value (o_single (integer_of_cell cx) (E \<rho>)) (\<lambda>pos. d_remove pos (D \<rho>))
   \<Longrightarrow> removing cx D E (Running \<rho> r) (OpFnRemove q z True rp cp)"
| "serves cx D (Running \<rho> s) q \<Longrightarrow> serves cx E Fresh z \<Longrightarrow> r = d_remove (rp - cp) s \<Longrightarrow> removing cx D E (Running \<rho> r) (OpFnRemove q z False rp cp)"

inductive conditional :: "xq_context \<Rightarrow> (env \<Rightarrow> outcome) \<Rightarrow> (env \<Rightarrow> outcome) \<Rightarrow> (env \<Rightarrow> outcome) \<Rightarrow> mode \<Rightarrow> plan \<Rightarrow> bool" for cx C T E where
  "serves cx C Fresh a \<Longrightarrow> serves cx T Fresh b \<Longrightarrow> serves cx E Fresh c \<Longrightarrow> conditional cx C T E Fresh (OpIf a b c None eos)"
| "serves cx C Fresh a \<Longrightarrow> serves cx T Fresh b \<Longrightarrow> serves cx E Fresh c \<Longrightarrow> conditional cx C T E Stale (OpIf a b c None eos)"
| "ready cx C eos a \<Longrightarrow> serves cx T (if v then Stale else Fresh) b \<Longrightarrow> serves cx E (if v then Fresh else Stale) c
   \<Longrightarrow> conditional cx C T E Stale (OpIf a b c (Some v) eos)"
| "serves cx C Fresh a \<Longrightarrow> serves cx T Fresh b \<Longrightarrow> serves cx E Fresh c \<Longrightarrow> r = with_value (o_boolean cx (C \<rho>)) (\<lambda>v. if v then T \<rho> else E \<rho>)
   \<Longrightarrow> conditional cx C T E (Running \<rho> r) (OpIf a b c None eos)"
| "ready cx C eos a \<Longrightarrow> serves cx T (if v then Running \<rho> r else Fresh) b \<Longrightarrow> serves cx E (if v then Fresh else Running \<rho> r) c
   \<Longrightarrow> conditional cx C T E (Running \<rho> r) (OpIf a b c (Some v) eos)"

section \<open>Rules\<close>

lemma serves_relation:
  assumes "X Fresh p" "\<And>p \<rho>. X Fresh p \<Longrightarrow> X (Running \<rho> (D \<rho>)) p" "\<And>p vs. X Fresh p \<Longrightarrow> X Fresh (reinit_consumer_table vs p)"
    "\<And>p. X Stale p \<Longrightarrow> X Fresh (reopen p)" "\<And>p vs. X Stale p \<Longrightarrow> X Stale (reinit_consumer_table vs p)"
    "\<And>\<rho> r p. X (Running \<rho> r) p \<Longrightarrow> X Stale p" "\<And>\<rho> r p. X (Running \<rho> r) p \<Longrightarrow> emits \<rho> r X (\<lambda>n. next_plan cx n \<rho> p)"
  shows "serves cx D Fresh p"
proof (rule serves_coinduct[where X = X, OF assms(1-6)])
  fix \<rho> r p assume "X (Running \<rho> r) p"
  then have "emits \<rho> r X (\<lambda>n. next_plan cx n \<rho> p)" using assms(7) by simp
  then show "steps cx \<rho> p r X"
    by (auto simp: emits_def steps_def answers_def first_tuple_def after_def split: prod.splits list.splits option.splits)
qed

lemma emits_Suc: "emits \<rho> r X (\<lambda>n. next_plan cx (Suc n) \<rho>' p) \<Longrightarrow> emits \<rho> r X (\<lambda>n. next_plan cx n \<rho>' p)"
  by (auto simp: emits_def answers_def intro: gives_Suc split: sum.splits)

lemma emits_item: "first_tuple r = Inr (Some t) \<Longrightarrow> X (Running \<rho> (after r)) q \<Longrightarrow> emits \<rho> r X (\<lambda>n. ret (Some t, q))"
  by (auto simp: emits_def intro: answers_ret)

lemma emits_end: "first_tuple r = Inr None \<Longrightarrow> X Fresh q \<Longrightarrow> emits \<rho> r X (\<lambda>n. ret (None, q))"
  by (auto simp: emits_def intro: answers_ret)

lemma emits_raise: "first_tuple r = Inl e \<Longrightarrow> emits \<rho> r X (\<lambda>n. raise e)"
  by (auto simp: emits_def intro: answers_raise)

lemma emits_pull:
  assumes "serves cx D (Running \<rho>' s) q"
    and "\<And>t ts e q. s = (t # ts, e) \<Longrightarrow> serves cx D (Running \<rho>' (ts, e)) q \<Longrightarrow> emits \<rho> r X (\<lambda>n. f n (Some t, q))"
    and "\<And>q. s = ([], None) \<Longrightarrow> serves cx D Fresh q \<Longrightarrow> emits \<rho> r X (\<lambda>n. f n (None, q))"
    and "\<And>x. s = ([], Some x) \<Longrightarrow> first_tuple r = Inl x"
  shows "emits \<rho> r X (\<lambda>n. bnd (next_plan cx n \<rho>' q) (f n))"
  unfolding emits_def by (rule answers_pull[OF assms(1)]) (use assms(2-4) in \<open>simp_all add: emits_def\<close>)

lemma emits_bnd:
  assumes "answers g V Q" "\<And>v q. V = Inr v \<Longrightarrow> Q v q \<Longrightarrow> emits \<rho> r X (\<lambda>n. f n (v, q))" "\<And>e. V = Inl e \<Longrightarrow> first_tuple r = Inl e"
  shows "emits \<rho> r X (\<lambda>n. bnd (g n) (f n))"
proof (cases V)
  case (Inl e)
  then show ?thesis using assms by (auto simp: emits_def answers_def intro: settles_bnd_error)
next
  case (Inr v)
  then show ?thesis using assms(1,2) by (auto simp: emits_def answers_def[of g] intro: answers_settled)
qed

lemma emits_value: "(\<And>v. V = Inr v \<Longrightarrow> emits \<rho> r X (\<lambda>n. f n v)) \<Longrightarrow> (\<And>e. V = Inl e \<Longrightarrow> first_tuple r = Inl e) \<Longrightarrow> emits \<rho> r X (\<lambda>n. bnd (Some V) (f n))"
  by (cases V) (auto simp: emits_def answers_def settling)

lemma first_simps [simp]:
  "first_tuple ([], None) = Inr None" "first_tuple ([], Some e) = Inl e" "first_tuple (t # ts, x) = Inr (Some t)"
  "first_tuple (fails e) = Inl e" "first_tuple (o_cons t r) = Inr (Some t)" "first_tuple (one c) = Inr (Some [c])"
  by (simp_all add: first_tuple_def fails_def o_cons_def one_def)

lemma after_simps [simp]: "after (t # ts, e) = (ts, e)" "after (o_cons t r) = r" "after (one c) = ([], None)"
  by (simp_all add: after_def o_cons_def one_def)

lemma with_value_simps [simp]: "with_value (Inl e) f = fails e" "with_value (Inr x) f = f x"
  by (simp_all add: with_value_def)

lemmas emitting = emits_item emits_end emits_raise

lemmas keeping = serves_reinit stale_reopen stale_reinit

lemmas contract = fresh_stale running_stale serves_running

section \<open>One or more items\<close>

lemma serves_FnOneOrMore:
  assumes "serves cx D Fresh q"
  shows "serves cx (\<lambda>\<rho>. d_one_or_more (D \<rho>)) Fresh (PPFnOneOrMore_open q)"
proof (rule serves_relation[where X = "one_or_more cx D"])
  fix \<rho> r p assume "one_or_more cx D (Running \<rho> r) p"
  then show "emits \<rho> r (one_or_more cx D) (\<lambda>n. next_plan cx n \<rho> p)"
  proof cases
    case (3 s q f)
    show ?thesis unfolding 3(1)
      by (rule emits_Suc, unfold next_simps PPFnOneOrMore_next_def, rule emits_pull[OF 3(2)])
        (use 3(3) in \<open>auto simp: d_one_or_more_def intro!: emitting one_or_more.intros\<close>)
  qed
qed (use assms in \<open>auto simp: PPFnOneOrMore_open_def elim!: one_or_more.cases intro!: one_or_more.intros keeping intro: contract\<close>)

section \<open>The result of a step\<close>

lemma serves_SeqChecker:
  assumes "serves cx D Fresh q"
  shows "serves cx (\<lambda>\<rho>. d_seq_checker md None (fst (D \<rho>)) (snd (D \<rho>))) Fresh (PPSeqChecker_open md q)"
proof (rule serves_relation[where X = "seq_checker cx D md"])
  fix \<rho> r p assume "seq_checker cx D md (Running \<rho> r) p"
  then show "emits \<rho> r (seq_checker cx D md) (\<lambda>n. next_plan cx n \<rho> p)"
  proof cases
    case (3 ts e q pos y x)
    show ?thesis unfolding 3(1)
      by (rule emits_Suc, unfold next_simps PPSeqChecker_next_def, rule emits_pull[OF 3(2)])
        (use 3(3-5) in \<open>cases md; auto intro!: emitting seq_checker.intros\<close>)+
  qed
qed (use assms in \<open>auto simp: PPSeqChecker_open_def elim!: seq_checker.cases intro!: seq_checker.intros keeping intro: contract\<close>)

section \<open>Conditionals\<close>

lemma boolean_answers:
  "serves cx D Fresh q \<Longrightarrow> answers (\<lambda>n. effective_boolean_value cx (next_plan cx n \<rho>) q) (o_boolean cx (D \<rho>)) (\<lambda>b (eos, q). ready cx D eos q)"
  using boolean_settles[of cx D q \<rho>] by (fastforce simp: answers_def split: sum.splits)

lemma conditional_emits:
  assumes "ready cx C eos a" "serves cx T (if v then Running \<rho> r else Fresh) b" "serves cx E (if v then Fresh else Running \<rho> r) c"
  shows "emits \<rho> r (conditional cx C T E) (\<lambda>n. PPIf_next cx (next_plan cx n \<rho>) a b c (Some v) eos)"
proof (cases v)
  case True
  then have b: "serves cx T (Running \<rho> r) b" and c: "serves cx E Fresh c" and v: "v = True" using assms(2,3) by simp_all
  show ?thesis unfolding PPIf_next_def option.case bnd_Some prod.case v if_True
    by (rule emits_pull[OF b]) (use c assms(1) in \<open>auto intro!: emitting conditional.intros simp: ready_simps\<close>)
next
  case False
  then have b: "serves cx T Fresh b" and c: "serves cx E (Running \<rho> r) c" using assms(2,3) by simp_all
  have v: "v = False" using False by simp
  show ?thesis unfolding PPIf_next_def option.case bnd_Some prod.case v if_False
    by (rule emits_pull[OF c]) (use b assms(1) in \<open>auto intro!: emitting conditional.intros simp: ready_simps\<close>)
qed

lemma if_start: "PPIf_next cx nx a b c None eos = bnd (effective_boolean_value cx nx a) (\<lambda>(v, eos, a). PPIf_next cx nx a b c (Some v) eos)"
  by (simp add: PPIf_next_def)

lemma serves_If:
  assumes "serves cx C Fresh a" "serves cx T Fresh b" "serves cx E Fresh c"
  shows "serves cx (\<lambda>\<rho>. with_value (o_boolean cx (C \<rho>)) (\<lambda>v. if v then T \<rho> else E \<rho>)) Fresh (PPIf_open a b c)"
proof (rule serves_relation[where X = "conditional cx C T E"])
  fix \<rho> r p assume "conditional cx C T E (Running \<rho> r) p"
  then show "emits \<rho> r (conditional cx C T E) (\<lambda>n. next_plan cx n \<rho> p)"
  proof cases
    case (4 a b c eos)
    show ?thesis unfolding 4(1)
      by (rule emits_Suc, unfold next_simps if_start, rule emits_bnd[OF boolean_answers[OF 4(2)]])
        (use 4(3-5) in \<open>auto intro!: conditional_emits serves_running\<close>)
  next
    case (5 eos a v b c)
    show ?thesis unfolding 5(1) by (rule emits_Suc, unfold next_simps, rule conditional_emits[OF 5(2-4)])
  qed
next
  fix p assume "conditional cx C T E Stale p"
  then show "conditional cx C T E Fresh (reopen p)"
    by cases (auto simp: PPIf_reopen_def ready_simps intro!: conditional.intros split: if_splits)
next
  fix \<rho> r p assume "conditional cx C T E (Running \<rho> r) p"
  then show "conditional cx C T E Stale p"
    by cases (auto intro!: conditional.intros intro: running_stale split: if_splits)
qed (use assms in \<open>auto simp: PPIf_open_def ready_simps split: if_splits elim!: conditional.cases intro!: conditional.intros keeping intro: contract\<close>)

section \<open>Positions\<close>

lemma index_of_start: "PPFnIndexOf_next cx nx q z False b pos = bnd (single_argument nx (atomize cx) z) (\<lambda>(a, z). PPFnIndexOf_next cx nx q z True a pos)"
  by (simp add: PPFnIndexOf_next_def)

lemma index_of_emits:
  assumes "serves cx D (Running \<rho> (ts, e)) q" "serves cx E Fresh z"
  shows "emits \<rho> (d_index_of cx a pos ts e) (index_of cx D E) (\<lambda>n. PPFnIndexOf_next cx (next_plan cx n \<rho>) q z True a pos)"
  using assms(1)
proof (induction ts arbitrary: q pos)
  case Nil
  show ?case unfolding PPFnIndexOf_next_def if_True bnd_Some prod.case
    by (rule emits_pull[OF Nil]) (use assms(2) in \<open>auto intro!: emitting index_of.intros\<close>)
next
  case (Cons t ts)
  show ?case unfolding PPFnIndexOf_next_def if_True bnd_Some prod.case
  proof (rule emits_pull[OF Cons.prems], goal_cases)
    case (1 t' ts' e' q')
    then have t: "t' = t" and q': "serves cx D (Running \<rho> (ts, e)) q'" by auto
    show ?case unfolding t option.case prod.case
      by (rule emits_value) (use Cons.IH[OF q'] q' assms(2) in \<open>auto simp: int_cell_def intro!: emitting index_of.intros emits_Suc[of _ _ _ cx]\<close>)
  qed auto
qed

lemma serves_FnIndexOf:
  assumes "serves cx D Fresh q" "serves cx E Fresh z"
  shows "serves cx (\<lambda>\<rho>. with_value (o_single (atomize cx) (E \<rho>)) (\<lambda>a. d_index_of cx a 0 (fst (D \<rho>)) (snd (D \<rho>)))) Fresh (PPFnIndexOf_open q z)"
proof (rule serves_relation[where X = "index_of cx D E"])
  fix \<rho> r p assume "index_of cx D E (Running \<rho> r) p"
  then show "emits \<rho> r (index_of cx D E) (\<lambda>n. next_plan cx n \<rho> p)"
  proof cases
    case (3 q z a)
    show ?thesis unfolding 3(1)
      by (rule emits_Suc, unfold next_simps index_of_start, rule emits_bnd[OF single_argument_answers[OF 3(3)]])
        (use 3(2,4) in \<open>auto intro!: index_of_emits serves_running\<close>)
  next
    case (4 ts e q z a pos)
    show ?thesis unfolding 4(1,4) by (rule emits_Suc, unfold next_simps, rule index_of_emits[OF 4(2,3)])
  qed
qed (use assms in \<open>auto simp: PPFnIndexOf_open_def elim!: index_of.cases intro!: index_of.intros keeping intro: contract\<close>)

lemma d_remove_simps:
  "d_remove k ([], e) = ([], e)" "d_remove 1 (t # ts, e) = (ts, e)" "k \<noteq> 1 \<Longrightarrow> d_remove k (t # ts, e) = o_cons t (d_remove (k - 1) (ts, e))"
  "k < 1 \<Longrightarrow> d_remove k r = r"
  by (auto simp: d_remove_def o_cons_def nat_diff_distrib take_Cons' drop_Cons' Suc_le_eq)

lemma remove_start: "PPFnRemove_next cx nx q z True rp cp = bnd (single_argument nx (integer_of_cell cx) z) (\<lambda>(i, z). PPFnRemove_next cx nx q z False i 0)"
  by (simp add: PPFnRemove_next_def bnd_def ret_def split: option.splits sum.splits)

lemma remove_emits:
  assumes "serves cx D (Running \<rho> s) q" "serves cx E Fresh z"
  shows "emits \<rho> (d_remove (rp - cp) s) (removing cx D E) (\<lambda>n. PPFnRemove_next cx (next_plan cx n \<rho>) q z False rp cp)"
  unfolding PPFnRemove_next_def if_False bnd_Some prod.case
proof (rule emits_pull[OF assms(1)], goal_cases)
  case (1 t ts e q)
  show ?case
  proof (cases "cp + 1 = rp")
    case True
    then have r: "d_remove (rp - cp) s = (ts, e)" and c: "(Some t \<noteq> None \<and> cp + 1 = rp) = True" using 1(1) d_remove_simps(2)[of t ts e] by auto
    show ?thesis unfolding r c prod.case if_True
      by (rule emits_pull[OF 1(2)]) (use assms(2) True in \<open>auto simp: d_remove_simps(4) intro!: emitting removing.intros\<close>)
  next
    case False
    then have "d_remove (rp - cp) s = o_cons t (d_remove (rp - (cp + 1)) (ts, e))" using 1(1) by (simp add: d_remove_simps(3) algebra_simps)
    then show ?thesis using False 1(2) assms(2) by (auto intro!: emitting removing.intros)
  qed
qed (use assms(2) in \<open>auto simp: d_remove_simps intro!: emitting removing.intros\<close>)

lemma serves_FnRemove:
  assumes "serves cx D Fresh q" "serves cx E Fresh z"
  shows "serves cx (\<lambda>\<rho>. with_value (o_single (integer_of_cell cx) (E \<rho>)) (\<lambda>pos. d_remove pos (D \<rho>))) Fresh (PPFnRemove_open q z)"
proof (rule serves_relation[where X = "removing cx D E"])
  fix \<rho> r p assume "removing cx D E (Running \<rho> r) p"
  then show "emits \<rho> r (removing cx D E) (\<lambda>n. next_plan cx n \<rho> p)"
  proof cases
    case (3 q z rp cp)
    have "emits \<rho> (d_remove i (D \<rho>)) (removing cx D E) (\<lambda>n. PPFnRemove_next cx (next_plan cx n \<rho>) q z False i 0)" if "serves cx E Fresh z" for i z
      using remove_emits[OF serves_running[OF 3(2)] that, of \<rho> i 0] by simp
    then show ?thesis unfolding 3(1,4)
      by (intro emits_Suc, unfold next_simps remove_start, intro emits_bnd[OF single_argument_answers[OF 3(3)]]) auto
  next
    case (4 s q z rp cp)
    show ?thesis unfolding 4(1,4) by (rule emits_Suc, unfold next_simps, rule remove_emits[OF 4(2,3)])
  qed
qed (use assms in \<open>auto simp: PPFnRemove_open_def elim!: removing.cases intro!: removing.intros keeping intro: contract\<close>)

section \<open>The reversed sequence\<close>

lemma reverse_fold:
  "d_fold (\<lambda>(s, pos) t. Inr (s @ [t], pos + 1)) (s, pos) ts e = (case e of None \<Rightarrow> Inr (s @ ts, pos + int (length ts)) | Some x \<Rightarrow> Inl x)"
  by (induction ts arbitrary: s pos) (auto split: option.splits)

lemma reverse_start:
  "PPFnReverse_next k nx q True s pos = bnd (until_eos k nx (\<lambda>(s, pos) t. Inr (s @ [t], pos + 1)) (s, -1) q) (\<lambda>((s, pos), q). PPFnReverse_next k nx q False s pos)"
  by (simp add: PPFnReverse_next_def)

lemma reverse_emits:
  assumes "serves cx D Fresh q" "-1 \<le> pos" "pos < int (length s)"
  shows "emits \<rho> (rev (take (nat (pos + 1)) s), None) (reversed cx D) (\<lambda>n. PPFnReverse_next n (next_plan cx n \<rho>) q False s pos)"
proof (cases "pos = -1")
  case True
  then show ?thesis using assms(1) unfolding PPFnReverse_next_def by (auto intro!: emitting reversed.intros)
next
  case False
  then have "nat (pos + 1) = Suc (nat pos)" "nat pos < length s" "pos \<ge> 0" using assms(2,3) by auto
  then have "rev (take (nat (pos + 1)) s) = s ! nat pos # rev (take (nat (pos - 1 + 1)) s)" by (simp add: take_Suc_conv_app_nth)
  then show ?thesis using assms \<open>pos \<ge> 0\<close> unfolding PPFnReverse_next_def by (auto intro!: emitting reversed.intros)
qed

lemma serves_FnReverse:
  assumes "serves cx D Fresh q"
  shows "serves cx (\<lambda>\<rho>. d_reverse (D \<rho>)) Fresh (PPFnReverse_open q)"
proof (rule serves_relation[where X = "reversed cx D"])
  fix \<rho> r p assume "reversed cx D (Running \<rho> r) p"
  then show "emits \<rho> r (reversed cx D) (\<lambda>n. next_plan cx n \<rho> p)"
  proof cases
    case (3 q pos)
    have "emits \<rho> (rev (fst (D \<rho>)), None) (reversed cx D) (\<lambda>n. PPFnReverse_next n (next_plan cx n \<rho>) q False (fst (D \<rho>)) (int (length (fst (D \<rho>))) - 1))"
      if "serves cx D Fresh q" for q
      using reverse_emits[OF that, of "int (length (fst (D \<rho>))) - 1" "fst (D \<rho>)" \<rho>] by simp
    then show ?thesis unfolding 3(1,3)
      by (intro emits_Suc, unfold next_simps reverse_start, intro emits_bnd[OF loop_answers[OF 3(2)]])
        (auto simp: reverse_fold d_reverse_def split: option.splits)
  next
    case (4 q pos s)
    show ?thesis unfolding 4(1,5) by (rule emits_Suc, unfold next_simps, rule reverse_emits[OF 4(2-4)])
  qed
qed (use assms in \<open>auto simp: open_defs elim!: reversed.cases intro!: reversed.intros keeping intro: contract\<close>)

end
