(* ===== verification/XqSlices.thy ===== *)
theory XqSlices
  imports XqStreams
begin

text \<open>
  More operators that give tuples one by one: sequences of operators, ranges of integers, subsequences and insertions.
\<close>

section \<open>Definitions\<close>

abbreviation all_serve :: "xq_context \<Rightarrow> mode \<Rightarrow> (env \<Rightarrow> outcome) list \<Rightarrow> plan list \<Rightarrow> bool" where
  "all_serve cx m \<equiv> list_all2 (\<lambda>D. serves cx D m)"

inductive in_sequence :: "xq_context \<Rightarrow> (env \<Rightarrow> outcome) list \<Rightarrow> mode \<Rightarrow> plan \<Rightarrow> bool" for cx Ds where
  "all_serve cx Fresh Ds qs \<Longrightarrow> in_sequence cx Ds Fresh (OpSequence qs 0)"
| "all_serve cx Stale Ds qs \<Longrightarrow> in_sequence cx Ds Stale (OpSequence qs it)"
| "all_serve cx Fresh Ds qs \<Longrightarrow> r = d_sequence (map (\<lambda>D. D \<rho>) Ds) \<Longrightarrow> in_sequence cx Ds (Running \<rho> r) (OpSequence qs 0)"
| "all_serve cx Fresh Ds qs \<Longrightarrow> it < length Ds \<Longrightarrow> serves cx (Ds ! it) (Running \<rho> s) q
   \<Longrightarrow> r = o_append s (d_sequence (map (\<lambda>D. D \<rho>) (drop (Suc it) Ds))) \<Longrightarrow> in_sequence cx Ds (Running \<rho> r) (OpSequence (qs[it := q]) it)"

inductive in_range :: "xq_context \<Rightarrow> (env \<Rightarrow> outcome) \<Rightarrow> (env \<Rightarrow> outcome) \<Rightarrow> mode \<Rightarrow> plan \<Rightarrow> bool" for cx D E where
  "serves cx D Fresh q \<Longrightarrow> serves cx E Fresh z \<Longrightarrow> rs_first_time m \<Longrightarrow> \<not> is_emp m \<Longrightarrow> in_range cx D E Fresh (OpRange q z m)"
| "serves cx D Fresh q \<Longrightarrow> serves cx E Fresh z \<Longrightarrow> in_range cx D E Stale (OpRange q z m)"
| "serves cx D Fresh q \<Longrightarrow> serves cx E Fresh z \<Longrightarrow> rs_first_time m \<Longrightarrow> \<not> is_emp m
   \<Longrightarrow> r = with_value (o_integer cx (D \<rho>)) (\<lambda>i. with_value (o_integer cx (E \<rho>)) (\<lambda>j. d_range i j)) \<Longrightarrow> in_range cx D E (Running \<rho> r) (OpRange q z m)"
| "serves cx D Fresh q \<Longrightarrow> serves cx E Fresh z \<Longrightarrow> \<not> rs_first_time m \<Longrightarrow> \<not> is_emp m \<Longrightarrow> r = d_range (Some (rs_cur m)) (Some (rs_end m))
   \<Longrightarrow> in_range cx D E (Running \<rho> r) (OpRange q z m)"

section \<open>Sequences\<close>

lemma o_append_simps [simp]:
  "o_append ([], None) r = r" "o_append ([], Some e) r = ([], Some e)" "o_append (t # ts, x) r = o_cons t (o_append (ts, x) r)"
  by (auto simp: o_append_def o_cons_def)

lemma d_sequence_simps [simp]: "d_sequence [] = ([], None)" "d_sequence (r # rs) = o_append r (d_sequence rs)"
  by (simp_all add: d_sequence_def)

lemma all_serve_keeping:
  "all_serve cx Fresh Ds qs \<Longrightarrow> all_serve cx Fresh Ds (map (reinit_consumer_table vs) qs)" "all_serve cx Stale Ds qs \<Longrightarrow> all_serve cx Fresh Ds (map reopen qs)"
  "all_serve cx Stale Ds qs \<Longrightarrow> all_serve cx Stale Ds (map (reinit_consumer_table vs) qs)"
  by (auto simp: list_all2_map2 elim!: list_all2_mono)

lemma sequence_emits:
  assumes "all_serve cx Fresh Ds qs" "it < length Ds" "serves cx (Ds ! it) (Running \<rho> s) q"
  shows "emits \<rho> (o_append s (d_sequence (map (\<lambda>D. D \<rho>) (drop (Suc it) Ds)))) (in_sequence cx Ds) (\<lambda>n. PPSequence_next (next_plan cx n \<rho>) (qs[it := q]) it)"
  using assms
proof (induction "length Ds - it" arbitrary: it qs q s)
  case (Suc k)
  have l: "it < length (qs[it := q])" "(qs[it := q]) ! it = q" "length qs = length Ds" using Suc.prems list_all2_lengthD by fastforce+
  show ?case unfolding PPSequence_next_def l(2) using l(1)
  proof (simp only: if_True, intro emits_pull[OF Suc.prems(3)], goal_cases)
    case (1 t ts e q')
    then show ?case using Suc.prems l by (auto intro!: emitting in_sequence.intros)
  next
    case (2 q')
    have qs: "all_serve cx Fresh Ds (qs[it := q'])" using Suc.prems(1,2) 2 by (auto simp: list_all2_conv_all_nth nth_list_update)
    show ?case
    proof (cases "Suc it < length Ds")
      case True
      have "serves cx (Ds ! Suc it) Fresh (qs[it := q'] ! Suc it)" using Suc.prems(1) True by (simp add: list_all2_conv_all_nth)
      then have "emits \<rho> (o_append ((Ds ! Suc it) \<rho>) (d_sequence (map (\<lambda>D. D \<rho>) (drop (Suc (Suc it)) Ds)))) (in_sequence cx Ds)
          (\<lambda>n. PPSequence_next (next_plan cx n \<rho>) ((qs[it := q'])[Suc it := qs[it := q'] ! Suc it]) (Suc it))"
        using Suc.hyps(1)[of "Suc it" "qs[it := q']"] Suc.hyps(2) qs True serves_running by simp
      then show ?thesis using 2 True list_update_id[of "qs[it := q']" "Suc it"] by (auto simp: Cons_nth_drop_Suc[symmetric] intro!: emits_Suc[of _ _ _ cx])
    next
      case False
      then show ?thesis using 2 qs l(3) Suc.prems(2) by (auto simp: PPSequence_next_def intro!: emits_Suc[of _ _ _ cx] emitting in_sequence.intros)
    qed
  qed simp_all
qed simp

lemma serves_Sequence:
  assumes "all_serve cx Fresh Ds qs"
  shows "serves cx (\<lambda>\<rho>. d_sequence (map (\<lambda>D. D \<rho>) Ds)) Fresh (PPSequence_open qs)"
proof (rule serves_relation[where X = "in_sequence cx Ds"])
  fix \<rho> r p assume "in_sequence cx Ds (Running \<rho> r) p"
  then show "emits \<rho> r (in_sequence cx Ds) (\<lambda>n. next_plan cx n \<rho> p)"
  proof cases
    case (3 qs)
    show ?thesis
    proof (cases "Ds")
      case Nil
      then show ?thesis using 3 by (auto simp: PPSequence_next_def intro!: emits_Suc[of _ _ _ cx] emitting in_sequence.intros)
    next
      case (Cons D Ds')
      then obtain q qs' where "qs = q # qs'" "serves cx D Fresh q" using 3(2) by (auto simp: list_all2_Cons1)
      then show ?thesis using sequence_emits[OF 3(2), of 0 \<rho> "D \<rho>" q] serves_running[of cx D q \<rho>] Cons 3 by (auto intro!: emits_Suc[of _ _ _ cx])
    qed
  next
    case (4 qs it s q)
    show ?thesis unfolding 4(1,5) by (rule emits_Suc, unfold next_simps, rule sequence_emits[OF 4(2-4)])
  qed
next
  fix \<rho> r p assume "in_sequence cx Ds (Running \<rho> r) p"
  then show "in_sequence cx Ds Stale p"
    by cases (auto simp: list_all2_conv_all_nth nth_list_update intro!: in_sequence.intros, (blast intro: fresh_stale running_stale)+)
qed (use assms in \<open>auto simp: PPSequence_open_def elim!: in_sequence.cases intro!: in_sequence.intros all_serve_keeping\<close>)

section \<open>Ranges\<close>

lemma range_simps:
  "i > j \<Longrightarrow> d_range (Some i) (Some j) = ([], None)" "i \<le> j \<Longrightarrow> i \<ge> INT64_MAX \<Longrightarrow> d_range (Some i) (Some j) = fails Signed_overflow"
  "i \<le> j \<Longrightarrow> i < INT64_MAX \<Longrightarrow> d_range (Some i) (Some j) = o_cons [int_cell i] (d_range (Some (i + 1)) (Some j))"
  "d_range None j' = ([], None)" "d_range i' None = ([], None)"
  by (auto simp: d_range_def fails_def o_cons_def upto_rec1[of i j] upto_rec1[of i "INT64_MAX - 1"] split: option.splits)

lemma getInt_answers:
  assumes "serves cx D Fresh q"
  shows "answers (\<lambda>n. getIntFromOp cx (next_plan cx n \<rho>) emp q) (map_sum id (\<lambda>i. case i of None \<Rightarrow> 0 | Some i \<Rightarrow> i) (o_integer cx (D \<rho>)))
    (\<lambda>i (emp', q). serves cx D Fresh q \<and> emp' = (emp \<or> o_integer cx (D \<rho>) = Inr None))"
  unfolding getIntFromOp_def
proof (rule answers_pull[OF serves_running[OF assms]], goal_cases)
  case (1 t ts e q)
  show ?case
  proof (cases "atomize cx (get t)")
    case (Inl x)
    then show ?thesis using 1(1) by (simp add: o_integer_def answers_def settling)
  next
    case (Inr a)
    show ?thesis unfolding prod.case option.case Inr bnd_Some
      by (rule answers_pull[OF 1(2)]; cases "integer_argument cx a")
        (use 1(1) Inr in \<open>auto simp: o_integer_def bnd_def intro!: answers_ret answers_raise answers_raise[unfolded raise_def]\<close>)
  qed
qed (auto simp: o_integer_def intro!: answers_ret)

lemma range_emits:
  assumes "serves cx D Fresh q" "serves cx E Fresh z" "\<not> rs_first_time m"
    "r = (if is_emp m then ([], None) else d_range (Some (rs_cur m)) (Some (rs_end m)))"
  shows "emits \<rho> r (in_range cx D E) (\<lambda>n. PPRange_next cx (next_plan cx n \<rho>) q z m)"
proof (cases "is_emp m \<or> rs_cur m > rs_end m")
  case True
  then show ?thesis using assms by (auto simp: PPRange_next_def range_simps intro!: emitting in_range.intros)
next
  case False
  then show ?thesis using assms
    by (cases "rs_cur m \<ge> INT64_MAX") (auto simp: PPRange_next_def range_simps int_cell_def[symmetric] intro!: emitting in_range.intros)
qed

lemma range_start:
  "rs_first_time m \<Longrightarrow> PPRange_next cx nx q z m = bnd (getIntFromOp cx nx (is_emp m) q) (\<lambda>(i, emp, q). bnd (getIntFromOp cx nx emp z) (\<lambda>(j, emp, z).
     PPRange_next cx nx q z \<lparr>rs_first_time = False, is_emp = emp, rs_cur = i, rs_end = j\<rparr>))"
  by (auto simp: PPRange_next_def bnd_def ret_def split: option.splits sum.splits)

lemma serves_Range:
  assumes "serves cx D Fresh q" "serves cx E Fresh z"
  shows "serves cx (\<lambda>\<rho>. with_value (o_integer cx (D \<rho>)) (\<lambda>i. with_value (o_integer cx (E \<rho>)) (\<lambda>j. d_range i j))) Fresh (PPRange_open q z)"
proof (rule serves_relation[where X = "in_range cx D E"])
  fix \<rho> r p assume "in_range cx D E (Running \<rho> r) p"
  then show "emits \<rho> r (in_range cx D E) (\<lambda>n. next_plan cx n \<rho> p)"
  proof cases
    case (3 q z m)
    show ?thesis unfolding 3(1)
    proof (rule emits_Suc, unfold next_simps range_start[OF 3(4)], rule emits_bnd[OF getInt_answers[OF 3(2)]], unfold prod.case, goal_cases)
      case (1 i v)
      obtain emp q where v: "v = (emp, q)" by fastforce
      show ?case unfolding v prod.case
        by (rule emits_bnd[OF getInt_answers[OF 3(3)]])
          (use 1 v 3(5,6) in \<open>cases "o_integer cx (D \<rho>)"; cases "o_integer cx (E \<rho>)"; auto simp: range_simps intro!: range_emits split: option.splits\<close>)+
    qed (use 3(6) in \<open>cases "o_integer cx (D \<rho>)"; auto\<close>)
  next
    case (4 q z m)
    show ?thesis unfolding 4(1) by (rule emits_Suc, unfold next_simps, rule range_emits[OF 4(2-4)]) (use 4(5,6) in simp)
  qed
next
  fix \<rho> p assume "in_range cx D E Fresh p"
  then show "in_range cx D E (Running \<rho> (with_value (o_integer cx (D \<rho>)) (\<lambda>i. with_value (o_integer cx (E \<rho>)) (\<lambda>j. d_range i j)))) p"
    by cases (auto intro: in_range.intros(3))
qed (use assms in \<open>auto simp: PPRange_open_def elim!: in_range.cases intro!: in_range.intros keeping intro: contract\<close>)

end
