(* ===== verification/XqPositions.thy ===== *)
theory XqPositions
  imports XqSlices
begin

text \<open>
  Two operators that keep count of positions: the subsequence between two positions, and the insertion of a sequence
  before a position.
\<close>

section \<open>Definitions\<close>

abbreviation fresh_option :: "xq_context \<Rightarrow> (env \<Rightarrow> outcome) option \<Rightarrow> plan option \<Rightarrow> bool" where
  "fresh_option cx \<equiv> rel_option (\<lambda>D z. serves cx D Fresh z)"

definition d_slice :: "xq_context \<Rightarrow> outcome \<Rightarrow> outcome \<Rightarrow> outcome option \<Rightarrow> outcome" where
  "d_slice cx r st len =
     with_value (o_single (double_argument cx) st) (\<lambda>st.
       case len of
         None \<Rightarrow> d_subsequence_all st None r
       | Some l \<Rightarrow> with_value (o_single (double_argument cx) l) (\<lambda>l. d_subsequence_all st (Some l) r))"

inductive sub_sequence :: "xq_context \<Rightarrow> (env \<Rightarrow> outcome) \<Rightarrow> (env \<Rightarrow> outcome) \<Rightarrow> (env \<Rightarrow> outcome) option \<Rightarrow> mode \<Rightarrow> plan \<Rightarrow> bool" for cx D E L where
  "ready cx D (\<not> need_reopen m) q \<Longrightarrow> serves cx E Fresh z \<Longrightarrow> fresh_option cx L c \<Longrightarrow> ss_first_time m \<Longrightarrow> sub_sequence cx D E L Fresh (OpFnSubsequence q z c m)"
| "serves cx D Stale q \<Longrightarrow> serves cx E Fresh z \<Longrightarrow> fresh_option cx L c \<Longrightarrow> sub_sequence cx D E L Stale (OpFnSubsequence q z c m)"
| "ready cx D (\<not> need_reopen m) q \<Longrightarrow> serves cx E Fresh z \<Longrightarrow> fresh_option cx L c \<Longrightarrow> ss_first_time m
   \<Longrightarrow> r = d_slice cx (D \<rho>) (E \<rho>) (map_option (\<lambda>f. f \<rho>) L) \<Longrightarrow> sub_sequence cx D E L (Running \<rho> r) (OpFnSubsequence q z c m)"
| "serves cx D (Running \<rho> (ts, e)) q \<Longrightarrow> serves cx E Fresh z \<Longrightarrow> fresh_option cx L c \<Longrightarrow> \<not> ss_first_time m \<Longrightarrow> \<not> need_reopen m
   \<Longrightarrow> c = None \<or> double_gt (ss_length m) 0 \<Longrightarrow> r = d_subsequence (start_pos m) (map_option (\<lambda>_. ss_length m) c) (ss_current_pos m) ts e
   \<Longrightarrow> sub_sequence cx D E L (Running \<rho> r) (OpFnSubsequence q z c m)"

text \<open>
  Insertion: before the place, at the place with what is left of the inserted sequence, behind it, and with the rest of the
  inserted sequence after the end. \<open>i\<close> is the place.
\<close>

inductive inserting :: "xq_context \<Rightarrow> (env \<Rightarrow> outcome) \<Rightarrow> (env \<Rightarrow> outcome) \<Rightarrow> env \<Rightarrow> outcome \<Rightarrow> plan \<Rightarrow> plan \<Rightarrow> insert_state \<Rightarrow> bool" for cx D I \<rho> where
  before: "serves cx D (Running \<rho> s) q \<Longrightarrow> serves cx I Fresh i \<Longrightarrow> \<not> is_first_time m \<Longrightarrow> \<not> inserted m \<Longrightarrow> \<not> is_eos_reached m
   \<Longrightarrow> is_current_pos m < insert_pos m \<Longrightarrow> 1 \<le> insert_pos m \<Longrightarrow> r = d_insert (insert_pos m - is_current_pos m + 1) s (I \<rho>) \<Longrightarrow> inserting cx D I \<rho> r q i m"
| place: "serves cx D (Running \<rho> s) q \<Longrightarrow> serves cx I (Running \<rho> u) i \<Longrightarrow> \<not> is_first_time m \<Longrightarrow> \<not> inserted m \<Longrightarrow> \<not> is_eos_reached m
   \<Longrightarrow> is_current_pos m = insert_pos m \<or> insert_pos m < 1 \<Longrightarrow> r = o_append u s \<Longrightarrow> inserting cx D I \<rho> r q i m"
| behind: "serves cx D (Running \<rho> s) q \<Longrightarrow> serves cx I Fresh i \<Longrightarrow> \<not> is_first_time m \<Longrightarrow> inserted m \<Longrightarrow> \<not> is_eos_reached m \<Longrightarrow> inserting cx D I \<rho> s q i m"
| finish: "serves cx D Fresh q \<Longrightarrow> serves cx I (Running \<rho> u) i \<Longrightarrow> \<not> is_first_time m \<Longrightarrow> \<not> inserted m \<Longrightarrow> is_eos_reached m \<Longrightarrow> inserting cx D I \<rho> u q i m"

inductive insertion :: "xq_context \<Rightarrow> (env \<Rightarrow> outcome) \<Rightarrow> (env \<Rightarrow> outcome) \<Rightarrow> (env \<Rightarrow> outcome) \<Rightarrow> mode \<Rightarrow> plan \<Rightarrow> bool" for cx D E I where
  "serves cx D Fresh q \<Longrightarrow> serves cx E Fresh z \<Longrightarrow> serves cx I Fresh i \<Longrightarrow> is_first_time m \<Longrightarrow> insertion cx D E I Fresh (OpFnInsertBefore q z i m)"
| "serves cx D Stale q \<Longrightarrow> serves cx E Fresh z \<Longrightarrow> serves cx I Stale i \<Longrightarrow> insertion cx D E I Stale (OpFnInsertBefore q z i m)"
| "serves cx D Fresh q \<Longrightarrow> serves cx E Fresh z \<Longrightarrow> serves cx I Fresh i \<Longrightarrow> is_first_time m
   \<Longrightarrow> r = with_value (o_single (integer_of_cell cx) (E \<rho>)) (\<lambda>pos. d_insert pos (D \<rho>) (I \<rho>)) \<Longrightarrow> insertion cx D E I (Running \<rho> r) (OpFnInsertBefore q z i m)"
| "inserting cx D I \<rho> r q i m \<Longrightarrow> serves cx E Fresh z \<Longrightarrow> insertion cx D E I (Running \<rho> r) (OpFnInsertBefore q z i m)"

section \<open>Subsequences\<close>

lemma bnd_bnd: "bnd (bnd r f) g = bnd r (\<lambda>x. bnd (f x) g)"
  by (simp add: bnd_def split: option.splits sum.splits)

lemma length_answers:
  assumes "fresh_option cx L c"
  shows "answers (\<lambda>n. case c of None \<Rightarrow> ret (l, None) | Some lc \<Rightarrow> bnd (single_argument (next_plan cx n \<rho>) (double_argument cx) lc) (\<lambda>(len, lc). ret (len, Some lc)))
    (case L of None \<Rightarrow> Inr l | Some f \<Rightarrow> o_single (double_argument cx) (f \<rho>)) (\<lambda>len. fresh_option cx L)"
  using assms by (cases L; cases c) (auto intro!: answers_ret answers_map[OF single_argument_answers])

lemma subsequence_start:
  assumes "ss_first_time m"
  shows "PPFnSubsequence_next cx nx q z c m =
    bnd (single_argument nx (double_argument cx) z) (\<lambda>(st, z).
      bnd (case c of None \<Rightarrow> ret (ss_length m, None) | Some lc \<Rightarrow> bnd (single_argument nx (double_argument cx) lc) (\<lambda>(len, lc). ret (len, Some lc)))
        (\<lambda>(len, c). PPFnSubsequence_next cx nx q z c (m\<lparr>ss_first_time := False, start_pos := st, ss_length := len, ss_current_pos := 0\<rparr>)))"
  using assms unfolding PPFnSubsequence_next_def[of cx nx q z c m] by (simp add: PPFnSubsequence_next_def case_prod_unfold bnd_bnd split del: if_split)

lemma subsequence_body:
  assumes "\<not> ss_first_time m" "c = None \<or> double_gt (ss_length m) 0"
  shows "PPFnSubsequence_next cx nx q z c m = bnd (nx (if need_reopen m then reopen q else q)) (\<lambda>(t, q). case t of
      None \<Rightarrow> ret (None, OpFnSubsequence q z c (m\<lparr>need_reopen := False, ss_first_time := True, ss_current_pos := ss_current_pos m + 1\<rparr>))
    | Some t \<Rightarrow>
        if \<not> (c = None \<or> double_gt (double_add (start_pos m) (ss_length m)) (ss_current_pos m + 1))
        then ret (None, OpFnSubsequence q z c (m\<lparr>ss_first_time := True, need_reopen := True, ss_current_pos := ss_current_pos m + 1\<rparr>))
        else if double_le (start_pos m) (ss_current_pos m + 1)
        then ret (Some t, OpFnSubsequence q z c (m\<lparr>need_reopen := False, ss_current_pos := ss_current_pos m + 1\<rparr>))
        else nx (OpFnSubsequence q z c (m\<lparr>need_reopen := False, ss_current_pos := ss_current_pos m + 1\<rparr>)))"
  using assms by (auto simp: PPFnSubsequence_next_def Let_def intro!: arg_cong[of _ _ "bnd _"] ext split: option.splits)

lemma subsequence_emits:
  assumes "serves cx D (Running \<rho> (ts, e)) (if need_reopen m then reopen q else q)" "serves cx E Fresh z" "fresh_option cx L c" "\<not> ss_first_time m"
    "c = None \<or> double_gt (ss_length m) 0"
  shows "emits \<rho> (d_subsequence (start_pos m) (map_option (\<lambda>_. ss_length m) c) (ss_current_pos m) ts e) (sub_sequence cx D E L)
    (\<lambda>n. PPFnSubsequence_next cx (next_plan cx n \<rho>) q z c m)"
  using assms(1,4,5)
proof (induction ts arbitrary: q m)
  case Nil
  show ?case unfolding subsequence_body[OF Nil.prems(2,3)]
    by (rule emits_pull[OF Nil.prems(1)]) (use assms(2,3) in \<open>auto simp: ready_simps intro!: emitting sub_sequence.intros(1)\<close>)
next
  case (Cons t ts)
  show ?case unfolding subsequence_body[OF Cons.prems(2,3)]
  proof (rule emits_pull[OF Cons.prems(1)], goal_cases)
    case (1 t' ts' e' q')
    then have t: "t' = t" and q': "serves cx D (Running \<rho> (ts, e)) q'" by auto
    let ?m = "m\<lparr>need_reopen := False, ss_current_pos := ss_current_pos m + 1\<rparr>"
    have "emits \<rho> (d_subsequence (start_pos m) (map_option (\<lambda>_. ss_length m) c) (ss_current_pos m + 1) ts e) (sub_sequence cx D E L)
        (\<lambda>n. next_plan cx n \<rho> (OpFnSubsequence q' z c ?m))"
      using Cons.IH[of ?m q'] Cons.prems q' by (intro emits_Suc) simp
    moreover have "sub_sequence cx D E L (Running \<rho> (d_subsequence (start_pos m) (map_option (\<lambda>_. ss_length m) c) (ss_current_pos m + 1) ts e)) (OpFnSubsequence q' z c ?m)"
      using Cons.prems q' assms(2,3) by (intro sub_sequence.intros(4)) auto
    moreover have "sub_sequence cx D E L Fresh (OpFnSubsequence q' z c (m\<lparr>ss_first_time := True, need_reopen := True, ss_current_pos := ss_current_pos m + 1\<rparr>))"
      using q' assms(2,3) by (intro sub_sequence.intros(1)) (auto simp: ready_simps intro: running_stale)
    ultimately show ?case unfolding t by (cases c) (auto intro!: emitting)
  qed simp_all
qed

lemma subsequence_nothing:
  assumes "serves cx D Fresh (if need_reopen m then reopen q else q)" "serves cx E Fresh z" "fresh_option cx L c" "\<not> ss_first_time m"
    "\<not> (c = None \<or> double_gt (ss_length m) 0)"
  shows "emits \<rho> ([], None) (sub_sequence cx D E L) (\<lambda>n. PPFnSubsequence_next cx (next_plan cx n \<rho>) q z c m)"
  using assms by (auto simp: PPFnSubsequence_next_def ready_simps intro!: emitting sub_sequence.intros(1))

lemma slice_emits:
  assumes "serves cx D Fresh (if need_reopen m then reopen q else q)" "serves cx E Fresh z" "fresh_option cx L c" "\<not> ss_first_time m" "ss_current_pos m = 0"
  shows "emits \<rho> (d_subsequence_all (start_pos m) (map_option (\<lambda>_. ss_length m) L) (D \<rho>)) (sub_sequence cx D E L) (\<lambda>n. PPFnSubsequence_next cx (next_plan cx n \<rho>) q z c m)"
proof -
  have l: "map_option (\<lambda>_. ss_length m) L = map_option (\<lambda>_. ss_length m) c" using assms(3) by (cases L; cases c) auto
  have run: "serves cx D (Running \<rho> (fst (D \<rho>), snd (D \<rho>))) (if need_reopen m then reopen q else q)" using serves_running[OF assms(1)] by simp
  show ?thesis
    using subsequence_emits[OF run assms(2-4)] subsequence_nothing[OF assms(1-4)] assms(5)
    by (cases c) (auto simp: d_subsequence_all_def l)
qed

lemma serves_FnSubsequence:
  assumes "serves cx D Fresh q" "serves cx E Fresh z" "fresh_option cx L c"
  shows "serves cx (\<lambda>\<rho>. d_slice cx (D \<rho>) (E \<rho>) (map_option (\<lambda>f. f \<rho>) L)) Fresh (PPFnSubsequence_open q z c)"
proof (rule serves_relation[where X = "sub_sequence cx D E L"])
  fix \<rho> r p assume "sub_sequence cx D E L (Running \<rho> r) p"
  then show "emits \<rho> r (sub_sequence cx D E L) (\<lambda>n. next_plan cx n \<rho> p)"
  proof cases
    case (3 m q z c)
    have q: "serves cx D Fresh (if need_reopen m then reopen q else q)" using 3(2) by (auto simp: ready_def split: if_splits)
    show ?thesis unfolding 3(1)
    proof (rule emits_Suc, unfold next_simps subsequence_start[OF 3(5)], rule emits_bnd[OF single_argument_answers[OF 3(3)]], unfold prod.case, goal_cases)
      case (1 st z)
      show ?case
      proof (rule emits_bnd[OF length_answers[OF 3(4)]], unfold prod.case, goal_cases)
        case (1 len c)
        then show ?case using slice_emits[of cx D "m\<lparr>ss_first_time := False, start_pos := st, ss_length := len, ss_current_pos := 0\<rparr>" q E z L c \<rho>] q 3(6) \<open>_ = Inr st\<close> \<open>serves cx E Fresh z\<close>
          by (cases L) (auto simp: d_slice_def)
      qed (use 1 3(6) in \<open>auto simp: d_slice_def split: option.splits\<close>)
    qed (use 3(6) in \<open>auto simp: d_slice_def\<close>)
  next
    case (4 ts e q z c m)
    show ?thesis unfolding 4(1,8) by (rule emits_Suc, unfold next_simps, rule subsequence_emits) (use 4 in auto)
  qed
next
  fix \<rho> p assume "sub_sequence cx D E L Fresh p"
  then show "sub_sequence cx D E L (Running \<rho> (d_slice cx (D \<rho>) (E \<rho>) (map_option (\<lambda>f. f \<rho>) L))) p" by cases (auto intro: sub_sequence.intros(3))
qed (use assms in \<open>auto simp: PPFnSubsequence_open_def ready_simps fresh_option elim!: sub_sequence.cases intro!: sub_sequence.intros(1,2) keeping intro: contract\<close>)

section \<open>Insertion\<close>

lemma d_insert_simps:
  "pos \<le> 1 \<Longrightarrow> d_insert pos s u = o_append u s" "1 < pos \<Longrightarrow> d_insert pos (t # ts, e) u = o_cons t (d_insert (pos - 1) (ts, e) u)"
  "1 < pos \<Longrightarrow> d_insert pos ([], x) u = o_append ([], x) u"
proof -
  assume "1 < pos"
  then obtain k where k: "pos = int k + 2" by (metis add.commute zless_iff_Suc_zadd int_Suc add.assoc one_add_one zadd_int_left of_nat_1)
  have n: "nat (int k + 2) - 1 = Suc k" "nat (int k + 2 - 1) - 1 = k" by auto
  show "d_insert pos (t # ts, e) u = o_cons t (d_insert (pos - 1) (ts, e) u)" "d_insert pos ([], x) u = o_append ([], x) u"
    unfolding k d_insert_def n by (auto simp: o_append_def o_cons_def Let_def)
qed (auto simp: d_insert_def)

lemma tail_emits:
  assumes "serves cx D (Running \<rho> s) q" "serves cx E Fresh z" "serves cx I Fresh i" "\<not> is_first_time m" "inserted m" "\<not> is_eos_reached m"
  shows "emits \<rho> s (insertion cx D E I) (\<lambda>n. insert_tail (next_plan cx n \<rho>) q z i m)"
proof -
  have "insert_tail nx q z i m = bnd (nx q) (\<lambda>(t, q). ret (t, OpFnInsertBefore q z i
      (m\<lparr>is_first_time := (t = None), is_current_pos := is_current_pos m + 1, is_eos_reached := (t = None)\<rparr>)))" for nx
    using assms(4-6) by (auto simp: insert_tail_def bnd_def ret_def split: option.splits sum.splits)
  then show ?thesis
    by (simp only:) (rule emits_pull[OF assms(1)], use assms in \<open>auto intro!: emitting insertion.intros(1,4) inserting.behind\<close>)
qed

lemma before_emits:
  assumes "serves cx D (Running \<rho> s) q" "serves cx E Fresh z" "serves cx I Fresh i" "\<not> is_first_time m" "\<not> inserted m" "\<not> is_eos_reached m"
    "is_current_pos m < insert_pos m" "1 \<le> insert_pos m"
  shows "emits \<rho> (d_insert (insert_pos m - is_current_pos m + 1) s (I \<rho>)) (insertion cx D E I) (\<lambda>n. insert_tail (next_plan cx n \<rho>) q z i m)"
proof -
  let ?m = "m\<lparr>is_current_pos := is_current_pos m + 1, is_eos_reached := False\<rparr>"
  let ?e = "m\<lparr>is_current_pos := is_current_pos m + 1, is_eos_reached := True\<rparr>"
  have tail: "insert_tail nx q z i m = bnd (nx q) (\<lambda>(t, q). case t of
      None \<Rightarrow> bnd (nx i) (\<lambda>(t, i). ret (t, OpFnInsertBefore q z i (if t = None then ?e\<lparr>inserted := True, is_first_time := True\<rparr> else ?e)))
    | Some t \<Rightarrow> ret (Some t, OpFnInsertBefore q z i ?m))" for nx
    using assms(4-6) by (auto simp: insert_tail_def bnd_def ret_def split: option.splits sum.splits)
  show ?thesis unfolding tail
  proof (rule emits_pull[OF assms(1)], goal_cases)
    case (1 t ts e q)
    have "inserting cx D I \<rho> (d_insert (insert_pos m - is_current_pos m) (ts, e) (I \<rho>)) q i ?m"
    proof (cases "is_current_pos m + 1 < insert_pos m")
      case True
      then show ?thesis using assms 1 by (intro inserting.before) auto
    next
      case False
      then show ?thesis using assms 1 by (intro inserting.place[OF 1(2) serves_running[OF assms(3)]]) (auto simp: d_insert_simps(1))
    qed
    then show ?case using 1 assms(2,7) by (auto simp: d_insert_simps(2) intro!: emitting insertion.intros(4))
  next
    case (2 q)
    show ?case unfolding prod.case option.case
      by (rule emits_pull[OF serves_running[OF assms(3)]])
        (use 2 assms in \<open>auto simp: d_insert_simps(3) intro!: emitting insertion.intros(1,4) inserting.finish\<close>)
  qed (use assms(7) in \<open>simp add: d_insert_simps(3)\<close>)
qed

lemma finish_emits:
  assumes "serves cx D Fresh q" "serves cx E Fresh z" "serves cx I (Running \<rho> u) i" "\<not> is_first_time m" "\<not> inserted m" "is_eos_reached m"
  shows "emits \<rho> u (insertion cx D E I) (\<lambda>n. PPFnInsertBefore_next cx (next_plan cx n \<rho>) q z i m)"
proof -
  have "PPFnInsertBefore_next cx nx q z i m = bnd (nx i) (\<lambda>(t, i). ret (t, OpFnInsertBefore q z i (if t = None then m\<lparr>inserted := True, is_first_time := True\<rparr> else m)))" for nx
    using assms(4-6) by (auto simp: PPFnInsertBefore_next_def insert_tail_def bnd_def ret_def split: option.splits sum.splits)
  then show ?thesis
    by (simp only:) (rule emits_pull[OF assms(3)], use assms in \<open>auto intro!: emitting insertion.intros(1,4) inserting.finish\<close>)
qed

lemma place_emits:
  assumes "serves cx D (Running \<rho> s) q" "serves cx E Fresh z" "serves cx I (Running \<rho> u) i" "\<not> is_first_time m" "\<not> inserted m" "\<not> is_eos_reached m"
    "is_current_pos m = insert_pos m \<or> insert_pos m < 1"
  shows "emits \<rho> (o_append u s) (insertion cx D E I) (\<lambda>n. PPFnInsertBefore_next cx (next_plan cx n \<rho>) q z i m)"
proof -
  have "PPFnInsertBefore_next cx nx q z i m = bnd (nx i) (\<lambda>(t, i). case t of
      None \<Rightarrow> insert_tail nx q z i (m\<lparr>inserted := True\<rparr>) | Some t \<Rightarrow> ret (Some t, OpFnInsertBefore q z i m))" for nx
    using assms(4-7) by (auto simp: PPFnInsertBefore_next_def)
  then show ?thesis
    by (simp only:) (rule emits_pull[OF assms(3)], use assms in \<open>auto intro!: emitting insertion.intros(4) inserting.place tail_emits\<close>)
qed

lemma inserting_emits:
  assumes "inserting cx D I \<rho> r q i m" "serves cx E Fresh z"
  shows "emits \<rho> r (insertion cx D E I) (\<lambda>n. PPFnInsertBefore_next cx (next_plan cx n \<rho>) q z i m)"
  using assms(1)
proof cases
  case (before s)
  then show ?thesis using before_emits[OF before(1) assms(2) before(2)] by (simp add: PPFnInsertBefore_next_def)
next
  case (place s u)
  then show ?thesis using place_emits[OF place(1) assms(2) place(2)] by simp
next
  case behind
  then show ?thesis using tail_emits[OF behind(1) assms(2) behind(2)] by (simp add: PPFnInsertBefore_next_def)
next
  case finish
  then show ?thesis using finish_emits[OF finish(1) assms(2) finish(2)] by simp
qed

lemma insert_start:
  "is_first_time m \<Longrightarrow> PPFnInsertBefore_next cx nx q z i m = bnd (single_argument nx (integer_of_cell cx) z) (\<lambda>(pos, z).
     PPFnInsertBefore_next cx nx q z i \<lparr>is_first_time = False, inserted = False, is_eos_reached = False, insert_pos = pos, is_current_pos = 1\<rparr>)"
  by (simp add: PPFnInsertBefore_next_def bnd_bnd case_prod_unfold)

lemma insert_begins:
  assumes "serves cx D Fresh q" "serves cx I Fresh i"
  shows "inserting cx D I \<rho> (d_insert pos (D \<rho>) (I \<rho>)) q i \<lparr>is_first_time = False, inserted = False, is_eos_reached = False, insert_pos = pos, is_current_pos = 1\<rparr>"
proof (cases "pos \<le> 1")
  case True
  then show ?thesis by (intro inserting.place[OF serves_running[OF assms(1)] serves_running[OF assms(2)]]) (auto simp: d_insert_simps(1))
next
  case False
  then show ?thesis by (intro inserting.before[OF serves_running[OF assms(1)] assms(2)]) auto
qed

lemma serves_FnInsertBefore:
  assumes "serves cx D Fresh q" "serves cx E Fresh z" "serves cx I Fresh i"
  shows "serves cx (\<lambda>\<rho>. with_value (o_single (integer_of_cell cx) (E \<rho>)) (\<lambda>pos. d_insert pos (D \<rho>) (I \<rho>))) Fresh (PPFnInsertBefore_open q z i)"
proof (rule serves_relation[where X = "insertion cx D E I"])
  fix \<rho> r p assume "insertion cx D E I (Running \<rho> r) p"
  then show "emits \<rho> r (insertion cx D E I) (\<lambda>n. next_plan cx n \<rho> p)"
  proof cases
    case (3 q z i m)
    show ?thesis unfolding 3(1)
      by (rule emits_Suc, unfold next_simps insert_start[OF 3(5)], rule emits_bnd[OF single_argument_answers[OF 3(3)]])
        (use 3(2,4,6) in \<open>auto intro!: inserting_emits insert_begins\<close>)
  next
    case (4 q i m z)
    show ?thesis unfolding 4(1) by (rule emits_Suc, unfold next_simps, rule inserting_emits[OF 4(2,3)])
  qed
next
  fix \<rho> p assume "insertion cx D E I Fresh p"
  then show "insertion cx D E I (Running \<rho> (with_value (o_single (integer_of_cell cx) (E \<rho>)) (\<lambda>pos. d_insert pos (D \<rho>) (I \<rho>)))) p"
    by cases (auto intro: insertion.intros(3))
next
  fix \<rho> r p assume "insertion cx D E I (Running \<rho> r) p"
  then show "insertion cx D E I Stale p"
    by cases (auto elim!: inserting.cases intro!: insertion.intros(2) intro: fresh_stale running_stale)
qed (use assms in \<open>auto simp: PPFnInsertBefore_open_def elim!: insertion.cases intro!: insertion.intros(1,2) keeping intro: fresh_stale\<close>)

end
