(* ===== verification/XqMerge.thy ===== *)
theory XqMerge
  imports XqStreams
begin

text \<open>
  Union, intersection and difference of two sequences of nodes keep the contract. A side of the merge is either to be
  asked for its next node or holds one.
\<close>

section \<open>Definitions\<close>

definition held :: "xq_context \<Rightarrow> (env \<Rightarrow> outcome) \<Rightarrow> env \<Rightarrow> outcome \<Rightarrow> tuple_cell option \<Rightarrow> plan \<Rightarrow> bool" where
  "held cx D \<rho> r c q \<longleftrightarrow>
     (case c of None \<Rightarrow> r = ([], None) \<and> serves cx D Fresh q | Some c \<Rightarrow> peek r = Inr (Some c) \<and> serves cx D (Running \<rho> (after r)) q)"

definition side :: "xq_context \<Rightarrow> (env \<Rightarrow> outcome) \<Rightarrow> env \<Rightarrow> bool \<Rightarrow> tuple_cell option \<Rightarrow> outcome \<Rightarrow> plan \<Rightarrow> bool" where
  "side cx D \<rho> wanted c r q \<longleftrightarrow> (if wanted then serves cx D (Running \<rho> r) q else held cx D \<rho> r c q)"

inductive in_union :: "xq_context \<Rightarrow> bool \<Rightarrow> (env \<Rightarrow> outcome) \<Rightarrow> (env \<Rightarrow> outcome) \<Rightarrow> mode \<Rightarrow> plan \<Rightarrow> bool" for cx d D E where
  "serves cx D Fresh p \<Longrightarrow> serves cx E Fresh q \<Longrightarrow> tug_first m \<Longrightarrow> tug_second m \<Longrightarrow> in_union cx d D E Fresh (OpUnion d p q m)"
| "serves cx D Stale p \<Longrightarrow> serves cx E Stale q \<Longrightarrow> in_union cx d D E Stale (OpUnion d p q m)"
| "side cx D \<rho> (tug_first m) (tc1 m) s p \<Longrightarrow> side cx E \<rho> (tug_second m) (tc2 m) u q \<Longrightarrow> r = d_union d s u \<Longrightarrow> in_union cx d D E (Running \<rho> r) (OpUnion d p q m)"

inductive in_intersection :: "xq_context \<Rightarrow> bool \<Rightarrow> (env \<Rightarrow> outcome) \<Rightarrow> (env \<Rightarrow> outcome) \<Rightarrow> mode \<Rightarrow> plan \<Rightarrow> bool" for cx d D E where
  "ready cx D (\<not> x) p \<Longrightarrow> ready cx E (\<not> y) q \<Longrightarrow> tug_first m \<Longrightarrow> tug_second m \<Longrightarrow> in_intersection cx d D E Fresh (OpIntersect d p q m x y)"
| "serves cx D Stale p \<Longrightarrow> serves cx E Stale q \<Longrightarrow> in_intersection cx d D E Stale (OpIntersect d p q m x y)"
| "ready cx D (\<not> x) p \<Longrightarrow> ready cx E (\<not> y) q \<Longrightarrow> tug_first m \<Longrightarrow> tug_second m \<Longrightarrow> r = d_intersect d (D \<rho>) (E \<rho>)
   \<Longrightarrow> in_intersection cx d D E (Running \<rho> r) (OpIntersect d p q m x y)"
| "side cx D \<rho> (tug_first m) (tc1 m) s p \<Longrightarrow> side cx E \<rho> (tug_second m) (tc2 m) u q \<Longrightarrow> r = d_intersect d s u
   \<Longrightarrow> in_intersection cx d D E (Running \<rho> r) (OpIntersect d p q m False False)"

inductive in_difference :: "xq_context \<Rightarrow> bool \<Rightarrow> (env \<Rightarrow> outcome) \<Rightarrow> (env \<Rightarrow> outcome) \<Rightarrow> mode \<Rightarrow> plan \<Rightarrow> bool" for cx d D E where
  "serves cx D Fresh p \<Longrightarrow> ready cx E (\<not> y) q \<Longrightarrow> tug_first m \<Longrightarrow> tug_second m \<Longrightarrow> in_difference cx d D E Fresh (OpExcept d p q m y)"
| "serves cx D Stale p \<Longrightarrow> serves cx E Stale q \<Longrightarrow> in_difference cx d D E Stale (OpExcept d p q m y)"
| "serves cx D Fresh p \<Longrightarrow> ready cx E (\<not> y) q \<Longrightarrow> tug_first m \<Longrightarrow> tug_second m \<Longrightarrow> r = d_except d (D \<rho>) (E \<rho>)
   \<Longrightarrow> in_difference cx d D E (Running \<rho> r) (OpExcept d p q m y)"
| "side cx D \<rho> (tug_first m) (tc1 m) s p \<Longrightarrow> side cx E \<rho> (tug_second m) (tc2 m) u q \<Longrightarrow> r = d_except d s u
   \<Longrightarrow> in_difference cx d D E (Running \<rho> r) (OpExcept d p q m False)"

section \<open>Sides\<close>

lemma lex_cmp_cases: "lex_cmp a b = -1 \<or> lex_cmp a b = 0 \<or> lex_cmp a b = 1"
  by (induction a b rule: lex_cmp.induct) auto

lemma cell_compare_cases: "cell_compare d a b = -1 \<or> cell_compare d a b = 0 \<or> cell_compare d a b = 1"
  using lex_cmp_cases by (auto simp: cell_compare_def doc_order_merge_cmp_def nid_cmp_def xptr_compare_def split: option.splits tuple_cell.splits)

lemma cell_compare_simps [simp]: "cell_compare d None None = 0" "cell_compare d None (Some b) = 1" "cell_compare d (Some a) None = -1"
  by (auto simp: cell_compare_def doc_order_merge_cmp_def split: tuple_cell.splits)

lemma held_peek: "held cx D \<rho> r c q \<Longrightarrow> peek r = Inr c"
  by (cases c) (auto simp: held_def peek_def)

lemma held_simps:
  "held cx D \<rho> r None q \<Longrightarrow> serves cx D Fresh q" "held cx D \<rho> r (Some a) q \<Longrightarrow> side cx D \<rho> True x (after r) q" "held cx D \<rho> r c q \<Longrightarrow> side cx D \<rho> False c r q"
  "held cx D \<rho> r c q \<Longrightarrow> serves cx D Stale q"
  by (auto simp: held_def side_def split: option.splits intro: running_stale)

lemma side_stale: "side cx D \<rho> w c r q \<Longrightarrow> serves cx D Stale q"
  by (auto simp: side_def split: if_splits intro: running_stale held_simps(4))

lemma side_start: "serves cx D Fresh q \<Longrightarrow> side cx D \<rho> True c (D \<rho>) q"
  by (simp add: side_def serves_running)

lemma peek_shorter: "peek r = Inr (Some c) \<Longrightarrow> length (fst (after r)) < length (fst r)"
  by (cases r; cases "fst r"; cases "snd r") (auto simp: peek_def)

lemma tug_answers:
  assumes "side cx D \<rho> w c r q"
  shows "answers (\<lambda>n. tug (next_plan cx n \<rho>) w c q) (peek r) (held cx D \<rho> r)"
proof (cases w)
  case True
  then have q: "serves cx D (Running \<rho> r) q" and w: "w = True" using assms by (simp_all add: side_def)
  show ?thesis unfolding tug_def w if_True
    by (rule answers_pull[OF q]) (auto simp: peek_def held_def intro!: answers_ret answers_raise)
next
  case False
  then have "held cx D \<rho> r c q" using assms by (simp add: side_def)
  then show ?thesis using False by (simp add: tug_def held_peek answers_ret)
qed

text \<open>Both sides, and a merge that goes on with what they hold.\<close>

lemma both_emit:
  assumes "side cx D \<rho> w c1 s p" "side cx E \<rho> w' c2 u q"
    and "\<And>c1 c2 p q. held cx D \<rho> s c1 p \<Longrightarrow> held cx E \<rho> u c2 q \<Longrightarrow> both_peek s u = Inr (c1, c2) \<Longrightarrow> emits \<rho> r X (\<lambda>n. f n c1 p c2 q)"
    and "\<And>e. both_peek s u = Inl e \<Longrightarrow> first_tuple r = Inl e"
  shows "emits \<rho> r X (\<lambda>n. bnd (tug (next_plan cx n \<rho>) w c1 p) (\<lambda>(c1, p). bnd (tug (next_plan cx n \<rho>) w' c2 q) (\<lambda>(c2, q). f n c1 p c2 q)))"
proof (rule emits_bnd[OF tug_answers[OF assms(1)]], goal_cases)
  case (1 c1 p)
  show ?case unfolding prod.case
    by (rule emits_bnd[OF tug_answers[OF assms(2)]]) (use 1 assms(3,4) in \<open>auto simp: both_peek_def\<close>)
qed (use assms(4) in \<open>auto simp: both_peek_def\<close>)

section \<open>Union\<close>

lemma union_emits:
  assumes "side cx D \<rho> (tug_first m) (tc1 m) s p" "side cx E \<rho> (tug_second m) (tc2 m) u q"
  shows "emits \<rho> (d_union d s u) (in_union cx d D E) (\<lambda>n. PPUnion_next (next_plan cx n \<rho>) d p q m)"
  unfolding PPUnion_next_def
proof (rule both_emit[OF assms], goal_cases)
  case (1 c1 c2 p q)
  then show ?case using cell_compare_cases[of d c1 c2] held_simps(3)[OF 1(1)] held_simps(3)[OF 1(2)]
    by (cases c1; cases c2) (auto simp: d_union.simps[of d s u] Let_def intro!: emitting in_union.intros(1) in_union.intros(3)[OF _ _ refl] held_simps(1,2))
qed (simp add: d_union.simps[of d s u])

lemma serves_Union:
  assumes "serves cx D Fresh p" "serves cx E Fresh q"
  shows "serves cx (\<lambda>\<rho>. d_union d (D \<rho>) (E \<rho>)) Fresh (PPUnion_open d p q)"
proof (rule serves_relation[where X = "in_union cx d D E"])
  fix \<rho> r p assume "in_union cx d D E (Running \<rho> r) p"
  then show "emits \<rho> r (in_union cx d D E) (\<lambda>n. next_plan cx n \<rho> p)"
    by cases (auto intro!: union_emits emits_Suc[of _ _ _ cx])
qed (use assms in \<open>auto simp: PPUnion_open_def merge_open_def elim!: in_union.cases intro!: in_union.intros keeping intro: side_start side_stale\<close>)

section \<open>Intersection\<close>

lemma intersect_emits:
  assumes "side cx D \<rho> (tug_first m) (tc1 m) s (if x then reopen p else p)" "side cx E \<rho> (tug_second m) (tc2 m) u (if y then reopen q else q)"
  shows "emits \<rho> (d_intersect d s u) (in_intersection cx d D E) (\<lambda>n. PPIntersect_next (next_plan cx n \<rho>) d p q m x y)"
  using assms
proof (induction "length (fst s) + length (fst u)" arbitrary: s u m p q x y rule: less_induct)
  case less
  have tail: "emits \<rho> (d_intersect d s' u') (in_intersection cx d D E) (\<lambda>n. next_plan cx n \<rho> (OpIntersect d p q m False False))"
    if "length (fst s') + length (fst u') < length (fst s) + length (fst u)" "side cx D \<rho> (tug_first m) (tc1 m) s' p" "side cx E \<rho> (tug_second m) (tc2 m) u' q"
    for s' u' m p q
    using less.hyps[OF that(1), where x = False and y = False] that by (intro emits_Suc) simp
  show ?case unfolding PPIntersect_next_def
  proof (rule both_emit[OF less.prems], goal_cases)
    case (1 c1 c2 p q)
    then have "c1 \<noteq> None \<Longrightarrow> length (fst (after s)) < length (fst s)" "c2 \<noteq> None \<Longrightarrow> length (fst (after u)) < length (fst u)"
      using held_peek peek_shorter by fastforce+
    then show ?case using cell_compare_cases[of d c1 c2] 1 held_simps(3,4)[OF 1(1)] held_simps(3,4)[OF 1(2)]
      by (cases c1; cases c2) (auto simp: d_intersect.simps[of d s u] Let_def ready_simps intro!: emitting in_intersection.intros(1) in_intersection.intros(4)[OF _ _ refl] tail held_simps(1,2))
  qed (simp add: d_intersect.simps[of d s u])
qed

lemma serves_Intersect:
  assumes "serves cx D Fresh p" "serves cx E Fresh q"
  shows "serves cx (\<lambda>\<rho>. d_intersect d (D \<rho>) (E \<rho>)) Fresh (PPIntersect_open d p q)"
proof (rule serves_relation[where X = "in_intersection cx d D E"])
  fix \<rho> r p assume "in_intersection cx d D E (Running \<rho> r) p"
  then show "emits \<rho> r (in_intersection cx d D E) (\<lambda>n. next_plan cx n \<rho> p)"
  proof cases
    case (3 x p y q m)
    then show ?thesis using ready_simps(1)[OF 3(2)] ready_simps(1)[OF 3(3)]
      by (auto intro!: intersect_emits emits_Suc[of _ _ _ cx] side_start split: if_splits)
  qed (auto intro!: intersect_emits emits_Suc[of _ _ _ cx])
next
  fix \<rho> p assume "in_intersection cx d D E Fresh p"
  then show "in_intersection cx d D E (Running \<rho> (d_intersect d (D \<rho>) (E \<rho>))) p" by cases (auto intro: in_intersection.intros(3))
qed (use assms in \<open>auto simp: PPIntersect_open_def merge_open_def ready_simps elim!: in_intersection.cases intro!: in_intersection.intros(1,2) keeping intro: side_stale\<close>)

section \<open>Difference\<close>

lemma except_emits:
  assumes "side cx D \<rho> (tug_first m) (tc1 m) s p" "side cx E \<rho> (tug_second m) (tc2 m) u (if y then reopen q else q)"
  shows "emits \<rho> (d_except d s u) (in_difference cx d D E) (\<lambda>n. PPExcept_next (next_plan cx n \<rho>) d p q m y)"
  using assms
proof (induction "length (fst s) + length (fst u)" arbitrary: s u m p q y rule: less_induct)
  case less
  have tail: "emits \<rho> (d_except d s' u') (in_difference cx d D E) (\<lambda>n. next_plan cx n \<rho> (OpExcept d p q m False))"
    if "length (fst s') + length (fst u') < length (fst s) + length (fst u)" "side cx D \<rho> (tug_first m) (tc1 m) s' p" "side cx E \<rho> (tug_second m) (tc2 m) u' q"
    for s' u' m p q
    using less.hyps[OF that(1), where y = False] that by (intro emits_Suc) simp
  show ?case unfolding PPExcept_next_def
  proof (rule both_emit[OF less.prems], goal_cases)
    case (1 c1 c2 p q)
    then have "c1 \<noteq> None \<Longrightarrow> length (fst (after s)) < length (fst s)" "c2 \<noteq> None \<Longrightarrow> length (fst (after u)) < length (fst u)"
      using held_peek peek_shorter by fastforce+
    then show ?case using cell_compare_cases[of d c1 c2] 1 held_simps(3,4)[OF 1(1)] held_simps(3,4)[OF 1(2)]
      by (cases c1; cases c2) (auto simp: d_except.simps[of d s u] Let_def ready_simps intro!: emitting in_difference.intros(1) in_difference.intros(4)[OF _ _ refl] tail held_simps(1,2))
  qed (simp add: d_except.simps[of d s u])
qed

lemma serves_Except:
  assumes "serves cx D Fresh p" "serves cx E Fresh q"
  shows "serves cx (\<lambda>\<rho>. d_except d (D \<rho>) (E \<rho>)) Fresh (PPExcept_open d p q)"
proof (rule serves_relation[where X = "in_difference cx d D E"])
  fix \<rho> r p assume "in_difference cx d D E (Running \<rho> r) p"
  then show "emits \<rho> r (in_difference cx d D E) (\<lambda>n. next_plan cx n \<rho> p)"
  proof cases
    case (3 p y q m)
    then show ?thesis using ready_simps(1)[OF 3(3)]
      by (auto intro!: except_emits emits_Suc[of _ _ _ cx] side_start split: if_splits)
  qed (auto intro!: except_emits emits_Suc[of _ _ _ cx])
next
  fix \<rho> p assume "in_difference cx d D E Fresh p"
  then show "in_difference cx d D E (Running \<rho> (d_except d (D \<rho>) (E \<rho>))) p" by cases (auto intro: in_difference.intros(3))
qed (use assms in \<open>auto simp: PPExcept_open_def merge_open_def ready_simps elim!: in_difference.cases intro!: in_difference.intros(1,2) keeping intro: side_stale\<close>)

end
