(* ===== verification/XqFlwor.thy ===== *)
theory XqFlwor
  imports XqSlices
begin

text \<open>
  Iteration and selection keep the contract. The data child runs under the values of the tuple that was read last, and
  its consumers of these values start over with each tuple.
\<close>

section \<open>Definitions\<close>

inductive iterating :: "xq_context \<Rightarrow> nat list \<Rightarrow> nat option \<Rightarrow> nat option \<Rightarrow> (env \<Rightarrow> outcome) \<Rightarrow> (env \<Rightarrow> outcome) \<Rightarrow> mode \<Rightarrow> plan \<Rightarrow> bool"
  for cx ds pd st D B where
  "serves cx D Fresh p \<Longrightarrow> serves cx B Fresh q \<Longrightarrow> iterating cx ds pd st D B Fresh (OpReturn ds pd st p q True 0 s)"
| "serves cx D Stale p \<Longrightarrow> serves cx B Stale q \<Longrightarrow> iterating cx ds pd st D B Stale (OpReturn ds pd st p q f pos s)"
| "serves cx D (Running \<rho> (ts, e)) p \<Longrightarrow> serves cx B Fresh q \<Longrightarrow> r = d_return (type_error cx st) (\<lambda>t pos. B (bind_tuple ds pd t pos \<rho>)) pos ts e
   \<Longrightarrow> iterating cx ds pd st D B (Running \<rho> r) (OpReturn ds pd st p q True pos s)"
| "serves cx D (Running \<rho> (ts, e)) p \<Longrightarrow> serves cx B (Running (bind_tuple ds pd s pos \<rho>) u) q
   \<Longrightarrow> r = o_append u (d_return (type_error cx st) (\<lambda>t pos. B (bind_tuple ds pd t pos \<rho>)) pos ts e)
   \<Longrightarrow> iterating cx ds pd st D B (Running \<rho> r) (OpReturn ds pd st p q False pos s)"

inductive selecting :: "xq_context \<Rightarrow> nat list \<Rightarrow> nat option \<Rightarrow> (env \<Rightarrow> outcome) \<Rightarrow> (env \<Rightarrow> outcome) \<Rightarrow> mode \<Rightarrow> plan \<Rightarrow> bool" for cx ds st D B where
  "serves cx D Fresh p \<Longrightarrow> ready cx B e q \<Longrightarrow> (f \<Longrightarrow> e) \<Longrightarrow> selecting cx ds st D B Fresh (OpSelect ds st p q f e)"
| "serves cx D Stale p \<Longrightarrow> ready cx B e q \<Longrightarrow> (f \<Longrightarrow> e) \<Longrightarrow> selecting cx ds st D B Stale (OpSelect ds st p q f e)"
| "serves cx D (Running \<rho> (ts, x)) p \<Longrightarrow> ready cx B e q \<Longrightarrow> (f \<Longrightarrow> e)
   \<Longrightarrow> r = d_select (type_error cx st) (\<lambda>t. o_boolean cx (B (bind_tuple ds None t 0 \<rho>))) ts x \<Longrightarrow> selecting cx ds st D B (Running \<rho> r) (OpSelect ds st p q f e)"

section \<open>Iteration\<close>

lemma data_emits:
  assumes "serves cx D (Running \<rho> (ts, e)) p" "serves cx B (Running (bind_tuple ds pd s pos \<rho>) u) q"
    and "\<And>q. serves cx B Fresh q \<Longrightarrow> emits \<rho> (d_return (type_error cx st) (\<lambda>t pos. B (bind_tuple ds pd t pos \<rho>)) pos ts e) (iterating cx ds pd st D B)
      (\<lambda>n. PPReturn_next cx (next_plan cx n) \<rho> ds pd st p q True pos s)"
  shows "emits \<rho> (o_append u (d_return (type_error cx st) (\<lambda>t pos. B (bind_tuple ds pd t pos \<rho>)) pos ts e)) (iterating cx ds pd st D B)
    (\<lambda>n. PPReturn_next cx (next_plan cx n) \<rho> ds pd st p q False pos s)"
  unfolding PPReturn_next_def Let_def if_False
  by (rule emits_pull[OF assms(2)]) (use assms(1,3) in \<open>auto intro!: emitting iterating.intros(4)[OF _ _ refl] emits_Suc[of _ _ _ cx]\<close>)

lemma source_emits:
  assumes "serves cx D (Running \<rho> (ts, e)) p" "serves cx B Fresh q"
  shows "emits \<rho> (d_return (type_error cx st) (\<lambda>t pos. B (bind_tuple ds pd t pos \<rho>)) pos ts e) (iterating cx ds pd st D B)
    (\<lambda>n. PPReturn_next cx (next_plan cx n) \<rho> ds pd st p q True pos s)"
  using assms
proof (induction ts arbitrary: p q pos s)
  case Nil
  show ?case unfolding PPReturn_next_def Let_def if_True
    by (rule emits_pull[OF Nil(1)]) (use Nil(2) in \<open>auto intro!: emitting iterating.intros(1) keeping\<close>)
next
  case (Cons t ts)
  show ?case unfolding PPReturn_next_def Let_def if_True
  proof (rule emits_pull[OF Cons.prems(1)], goal_cases)
    case (1 t' ts' e' p')
    then have t: "t' = t" and p': "serves cx D (Running \<rho> (ts, e)) p'" by auto
    have "emits \<rho> (o_append (B (bind_tuple ds pd t (pos + 1) \<rho>)) (d_return (type_error cx st) (\<lambda>t pos. B (bind_tuple ds pd t pos \<rho>)) (pos + 1) ts e))
        (iterating cx ds pd st D B) (\<lambda>n. PPReturn_next cx (next_plan cx n) \<rho> ds pd st p' (reinit_consumer_table vs q) False (pos + 1) t)" for vs
      by (rule data_emits[OF p' serves_running[OF serves_reinit[OF Cons.prems(2)]] Cons.IH[OF p']])
    then show ?case unfolding t type_error_def[symmetric]
      by (cases "type_error cx st t") (auto intro!: emitting emits_Suc[of _ _ _ cx])
  qed simp_all
qed

lemma serves_Return:
  assumes "serves cx D Fresh p" "serves cx B Fresh q"
  shows "serves cx (\<lambda>\<rho>. d_return (type_error cx st) (\<lambda>t pos. B (bind_tuple ds pd t pos \<rho>)) 0 (fst (D \<rho>)) (snd (D \<rho>))) Fresh (PPReturn_open ds pd st p q)"
proof (rule serves_relation[where X = "iterating cx ds pd st D B"])
  fix \<rho> r p assume "iterating cx ds pd st D B (Running \<rho> r) p"
  then show "emits \<rho> r (iterating cx ds pd st D B) (\<lambda>n. next_plan cx n \<rho> p)"
  proof cases
    case (3 ts e p q pos s)
    show ?thesis unfolding 3(1,4) by (rule emits_Suc, unfold next_simps, rule source_emits[OF 3(2,3)])
  next
    case (4 ts e p s pos u q)
    show ?thesis unfolding 4(1,4) by (rule emits_Suc, unfold next_simps, rule data_emits[OF 4(2,3) source_emits[OF 4(2)]])
  qed
next
  fix \<rho> p assume "iterating cx ds pd st D B Fresh p"
  then show "iterating cx ds pd st D B (Running \<rho> (d_return (type_error cx st) (\<lambda>t pos. B (bind_tuple ds pd t pos \<rho>)) 0 (fst (D \<rho>)) (snd (D \<rho>)))) p"
    by cases (auto intro!: iterating.intros(3) simp: serves_running)
qed (use assms in \<open>auto simp: PPReturn_open_def PPReturn_reopen_def elim!: iterating.cases intro!: iterating.intros(1,2) keeping intro: contract\<close>)

section \<open>Selection\<close>

lemma select_emits:
  assumes "serves cx D (Running \<rho> (ts, x)) p" "ready cx B e q" "f \<Longrightarrow> e"
  shows "emits \<rho> (d_select (type_error cx st) (\<lambda>t. o_boolean cx (B (bind_tuple ds None t 0 \<rho>))) ts x) (selecting cx ds st D B)
    (\<lambda>n. PPSelect_next cx (next_plan cx n) \<rho> ds st p q f e)"
  using assms
proof (induction ts arbitrary: p q f e)
  case Nil
  show ?case unfolding PPSelect_next_def
    by (rule emits_pull[OF Nil(1)]) (use Nil(2,3) in \<open>auto intro!: emitting selecting.intros(1)\<close>)
next
  case (Cons t ts)
  let ?r = "d_select (type_error cx st) (\<lambda>t. o_boolean cx (B (bind_tuple ds None t 0 \<rho>)))"
  let ?q = "if f then q else let p = reinit_consumer_table ds q in if e then p else reopen p"
  have q: "serves cx B Fresh ?q" using Cons.prems(2,3) by (auto simp: ready_def Let_def split: if_splits intro!: keeping)
  show ?case unfolding PPSelect_next_def
  proof (rule emits_pull[OF Cons.prems(1)], goal_cases)
    case (1 t' ts' e' p')
    then have t: "t' = t" and p': "serves cx D (Running \<rho> (ts, x)) p'" by auto
    have go: "emits \<rho> (?r (t # ts) x) (selecting cx ds st D B)
        (\<lambda>n. bnd (effective_boolean_value cx (next_plan cx n (bind_tuple ds None t 0 \<rho>)) ?q) (\<lambda>(b, e, q).
           if b then ret (Some t, OpSelect ds st p' q False e) else next_plan cx n \<rho> (OpSelect ds st p' q False e)))" if "\<not> type_error cx st t"
    proof (rule emits_bnd[OF boolean_answers[OF q]], goal_cases)
      case (1 b v)
      then show ?case using that Cons.IH[OF p', of "fst v" "snd v" False] p'
        by (cases b; cases v) (auto intro!: emitting selecting.intros(3)[OF _ _ _ refl] emits_Suc[of _ _ _ cx])
    qed (use that in simp)
    show ?case unfolding t type_error_def[symmetric] Let_def[of "if f then q else X" for X]
      by (cases "type_error cx st t") (use go in \<open>auto intro!: emitting split del: if_split\<close>)
  qed simp_all
qed

lemma serves_Select:
  assumes "serves cx D Fresh p" "serves cx B Fresh q"
  shows "serves cx (\<lambda>\<rho>. d_select (type_error cx st) (\<lambda>t. o_boolean cx (B (bind_tuple ds None t 0 \<rho>))) (fst (D \<rho>)) (snd (D \<rho>))) Fresh (PPSelect_open ds st p q)"
proof (rule serves_relation[where X = "selecting cx ds st D B"])
  fix \<rho> r p assume "selecting cx ds st D B (Running \<rho> r) p"
  then show "emits \<rho> r (selecting cx ds st D B) (\<lambda>n. next_plan cx n \<rho> p)"
  proof cases
    case (3 ts x p e q f)
    show ?thesis unfolding 3(1,5) by (rule emits_Suc, unfold next_simps, rule select_emits[OF 3(2-4)])
  qed
next
  fix \<rho> p assume "selecting cx ds st D B Fresh p"
  then show "selecting cx ds st D B (Running \<rho> (d_select (type_error cx st) (\<lambda>t. o_boolean cx (B (bind_tuple ds None t 0 \<rho>))) (fst (D \<rho>)) (snd (D \<rho>)))) p"
    by cases (auto intro!: selecting.intros(3) simp: serves_running)
qed (use assms in \<open>auto simp: PPSelect_open_def PPSelect_reopen_def ready_simps elim!: selecting.cases intro!: selecting.intros(1,2) keeping intro: contract\<close>)

end
