(* ===== verification/XqPlanContract.thy ===== *)
theory XqPlanContract
  imports XqPositions XqMerge XqFlwor
begin

text \<open>
  Every plan whose operators start over serves its meaning, and what follows for a client that calls \<^verbatim>\<open>next\<close> until the
  end; the merges of sequences in document order as operations on sets of nodes.
\<close>

section \<open>Definitions\<close>

text \<open>Calls of \<^verbatim>\<open>next\<close> until the end or an error, as the root of a query makes them; at most \<open>k\<close> calls, each with fuel \<open>n\<close>.\<close>

primrec drain :: "xq_context \<Rightarrow> nat \<Rightarrow> nat \<Rightarrow> env \<Rightarrow> plan \<Rightarrow> (outcome \<times> plan) option" where
  "drain cx n 0 \<rho> p = None"
| "drain cx n (Suc k) \<rho> p =
     (case next_plan cx n \<rho> p of
        None \<Rightarrow> None
      | Some (Inl e) \<Rightarrow> Some (([], Some e), p)
      | Some (Inr (None, p)) \<Rightarrow> Some (([], None), p)
      | Some (Inr (Some t, p)) \<Rightarrow> map_option (\<lambda>(r, q). (o_cons t r, q)) (drain cx n k \<rho> p))"

text \<open>The operator after some calls that each gave a tuple.\<close>

primrec after_calls :: "xq_context \<Rightarrow> nat \<Rightarrow> nat \<Rightarrow> env \<Rightarrow> plan \<Rightarrow> plan option" where
  "after_calls cx n 0 \<rho> p = Some p"
| "after_calls cx n (Suc k) \<rho> p = (case next_plan cx n \<rho> p of Some (Inr (Some t, p)) \<Rightarrow> after_calls cx n k \<rho> p | _ \<Rightarrow> None)"

type_synonym node = "t_prefix \<times> xptr"

definition before :: "node \<Rightarrow> node \<Rightarrow> bool" where
  "before a b \<longleftrightarrow> nid_cmp (fst a) (fst b) < 0"

abbreviation node_tuple :: "node \<Rightarrow> xqp_tuple" where
  "node_tuple a \<equiv> [NodeCell (fst a) (snd a)]"

definition nodes :: "node list \<Rightarrow> outcome" where
  "nodes xs = (map node_tuple xs, None)"

text \<open>The outcome is a sequence in document order, without duplicates, of the nodes in a set.\<close>

definition orders :: "outcome \<Rightarrow> node set \<Rightarrow> bool" where
  "orders r A \<longleftrightarrow> (\<exists>zs. r = nodes zs \<and> sorted_wrt before zs \<and> set zs = A)"

text \<open>Nodes with the same label are the same node.\<close>

definition coherent :: "node list \<Rightarrow> node list \<Rightarrow> bool" where
  "coherent xs ys \<longleftrightarrow> (\<forall>a\<in>set xs. \<forall>b\<in>set ys. fst a = fst b \<longrightarrow> a = b)"

section \<open>Plans\<close>

lemmas serving =
  serves_Nil serves_Const serves_Variable serves_FnEmpty serves_FnExists serves_FnBoolean serves_FnNot serves_FnZeroOrOne serves_FnExactlyOne
  serves_FnOneOrMore serves_FnCount serves_FnItemAt serves_NodeComparison serves_SeqChecker serves_If serves_FnIndexOf serves_FnRemove serves_FnReverse
  serves_Range serves_FnInsertBefore serves_Union serves_Intersect serves_Except serves_Return serves_Select

lemma plan_serves: "restarts e \<Longrightarrow> serves cx (meaning cx e) Fresh (open_plan e)"
proof (induction e)
  case (PPSequence es)
  then have "all_serve cx Fresh (map (meaning cx) es) (map open_plan es)" by (auto simp: list_all2_conv_all_nth list_all_length)
  then show ?case using serves_Sequence[of cx "map (meaning cx) es"] by simp
next
  case (PPFnSubsequence e1 e2 e3)
  then have "fresh_option cx (map_option (meaning cx) e3) (map_option open_plan e3)" by (cases e3) auto
  then show ?case using serves_FnSubsequence[of cx "meaning cx e1" "open_plan e1" "meaning cx e2" "open_plan e2"] PPFnSubsequence
    by (cases e3) (fastforce simp: d_slice_def)+
next
  case (PPFnSumAvg i e z)
  then have "fresh_option cx (map_option (meaning cx) z) (map_option open_plan z)" "i \<Longrightarrow> map_option (meaning cx) z \<noteq> None" by (cases z; auto)+
  then show ?case using serves_FnSumAvg[of cx "meaning cx e" "open_plan e"] PPFnSumAvg by simp
next
  case (PPSpaceSequence a es)
  then show ?case by simp
qed (unfold meaning.simps[abs_def] open_plan.simps restarts.simps, (rule serving; simp)+)

section \<open>A client\<close>

lemma drain_running:
  assumes "serves cx D (Running \<rho> (ts, e)) p"
  shows "\<exists>p' n. (\<forall>m\<ge>n. \<forall>k\<ge>n. drain cx m k \<rho> p = Some ((ts, e), p')) \<and> (e = None \<longrightarrow> serves cx D Fresh p')"
  using assms
proof (induction ts arbitrary: p)
  case Nil
  from Nil show ?case
  proof (cases rule: running_cases)
    case (eos p')
    then obtain n where "\<forall>m\<ge>n. next_plan cx m \<rho> p = Some (Inr (None, p'))" by (auto simp: settles_def)
    then have "drain cx m k \<rho> p = Some (([], e), p')" if "m \<ge> Suc n" "k \<ge> Suc n" for m k using eos(1) that by (cases k) auto
    then show ?thesis using eos(3) by blast
  next
    case (err x)
    then obtain n where "\<forall>m\<ge>n. next_plan cx m \<rho> p = Some (Inl x)" by (auto simp: settles_def)
    then have "drain cx m k \<rho> p = Some (([], e), p)" if "m \<ge> Suc n" "k \<ge> Suc n" for m k using err(1) that by (cases k) auto
    then show ?thesis using err(1) by blast
  qed simp
next
  case (Cons t ts)
  from Cons.prems obtain q where q: "gives cx \<rho> p (Inr (Some t, q))" "serves cx D (Running \<rho> (ts, e)) q" by (cases rule: running_cases) auto
  obtain p' n where n: "\<forall>m\<ge>n. \<forall>k\<ge>n. drain cx m k \<rho> q = Some ((ts, e), p')" "e = None \<longrightarrow> serves cx D Fresh p'" using Cons.IH[OF q(2)] by blast
  obtain n' where "\<forall>m\<ge>n'. next_plan cx m \<rho> p = Some (Inr (Some t, q))" using q(1) by (auto simp: settles_def)
  then have "drain cx m k \<rho> p = Some ((t # ts, e), p')" if "m \<ge> Suc (max n n')" "k \<ge> Suc (max n n')" for m k
    using n(1) that by (cases k) (auto simp: o_cons_def)
  then show ?case using n(2) by blast
qed

lemma drain_fresh:
  assumes "serves cx D Fresh p"
  shows "\<exists>p'. settles (\<lambda>m. drain cx m m \<rho> p) (D \<rho>, p') \<and> (snd (D \<rho>) = None \<longrightarrow> serves cx D Fresh p')"
proof -
  have "serves cx D (Running \<rho> (fst (D \<rho>), snd (D \<rho>))) p" using serves_running[OF assms] by simp
  from drain_running[OF this] obtain p' n where n: "\<forall>m\<ge>n. \<forall>k\<ge>n. drain cx m k \<rho> p = Some ((fst (D \<rho>), snd (D \<rho>)), p')"
    and p': "snd (D \<rho>) = None \<longrightarrow> serves cx D Fresh p'"
    by (elim exE conjE)
  have "settles (\<lambda>m. drain cx m m \<rho> p) (D \<rho>, p')" unfolding settles_def using n by (intro exI[of _ n]) simp
  then show ?thesis using p' by (intro exI[of _ p'] conjI)
qed

lemma serves_delivers: "serves cx D Fresh p \<Longrightarrow> \<exists>p'. settles (\<lambda>m. drain cx m m \<rho> p) (D \<rho>, p')"
  using drain_fresh[of cx D p \<rho>] by blast

lemma after_calls_stale:
  assumes "serves cx D (Running \<rho> r) p" "settles (\<lambda>m. after_calls cx m k \<rho> p) q"
  shows "serves cx D Stale q"
  using assms
proof (induction k arbitrary: p r)
  case 0
  then show ?case by (auto simp: settles_def intro: running_stale)
next
  case (Suc k)
  from Suc.prems(1) show ?case
  proof (cases rule: running_cases)
    case (item t ts e p')
    obtain n n' where n: "\<forall>m\<ge>n. next_plan cx m \<rho> p = Some (Inr (Some t, p'))" "\<forall>m\<ge>n'. after_calls cx m (Suc k) \<rho> p = Some q"
      using item(2) Suc.prems(2) unfolding settles_def by blast
    then have "\<forall>m\<ge>max n n'. after_calls cx m k \<rho> p' = Some q" by fastforce
    then show ?thesis using Suc.IH[OF item(3)] unfolding settles_def by blast
  next
    case (eos p')
    obtain n n' where n: "\<forall>m\<ge>n. next_plan cx m \<rho> p = Some (Inr (None, p'))" "\<forall>m\<ge>n'. after_calls cx m (Suc k) \<rho> p = Some q"
      using eos(2) Suc.prems(2) unfolding settles_def by blast
    then show ?thesis using spec[OF n(1), of "max n n'"] spec[OF n(2), of "max n n'"] by simp
  next
    case (err x)
    obtain n n' where n: "\<forall>m\<ge>n. next_plan cx m \<rho> p = Some (Inl x)" "\<forall>m\<ge>n'. after_calls cx m (Suc k) \<rho> p = Some q"
      using err(2) Suc.prems(2) unfolding settles_def by blast
    then show ?thesis using spec[OF n(1), of "max n n'"] spec[OF n(2), of "max n n'"] by simp
  qed
qed

section \<open>Sets of nodes\<close>

lemma before_trans: "before a b \<Longrightarrow> before b c \<Longrightarrow> before a c"
  using lexordp_trans[of "fst a" "fst b" "fst c"] by (auto simp: before_def nid_cmp_def lex_cmp_exact split: if_splits)

lemma before_irrefl: "\<not> before a a"
  by (simp add: before_def nid_cmp_def lex_cmp_refl)

lemma sorted_head: "sorted_wrt before (a # as) \<Longrightarrow> a \<notin> set as"
  using before_irrefl[of a] by auto

lemma before_head: "before a b \<Longrightarrow> sorted_wrt before (b # bs) \<Longrightarrow> a \<notin> set (b # bs)"
  using before_irrefl[of a] before_trans[of a b a] by auto

lemma compare_nodes_cases:
  obtains "before a b" "cell_compare True (Some (NodeCell (fst a) (snd a))) (Some (NodeCell (fst b) (snd b))) < 0"
  | "fst a = fst b" "cell_compare True (Some (NodeCell (fst a) (snd a))) (Some (NodeCell (fst b) (snd b))) = 0"
  | "before b a" "cell_compare True (Some (NodeCell (fst a) (snd a))) (Some (NodeCell (fst b) (snd b))) > 0"
  using lexordp_linear[of "fst a" "fst b"] lex_cmp_less lex_cmp_refl
  by (fastforce simp: before_def nid_cmp_def cell_compare_def doc_order_merge_cmp_def)

lemma orders_nil: "orders ([], None) {}"
  by (auto simp: orders_def nodes_def)

lemma orders_cons: "orders r A \<Longrightarrow> (\<And>b. b \<in> A \<Longrightarrow> before a b) \<Longrightarrow> orders (o_cons (node_tuple a) r) (insert a A)"
  unfolding orders_def
proof (elim exE conjE)
  fix zs assume "r = nodes zs" "sorted_wrt before zs" "set zs = A" "\<And>b. b \<in> A \<Longrightarrow> before a b"
  then show "\<exists>zs. o_cons (node_tuple a) r = nodes zs \<and> sorted_wrt before zs \<and> set zs = insert a A"
    by (intro exI[of _ "a # zs"]) (auto simp: nodes_def o_cons_def)
qed

lemma nodes_simps [simp]:
  "peek (nodes []) = Inr None" "peek (nodes (a # as)) = Inr (Some (NodeCell (fst a) (snd a)))" "after (nodes (a # as)) = nodes as"
  by (simp_all add: nodes_def peek_def get_def)

lemmas merge_simps = both_peek_def d_union.simps[of True "nodes xs" "nodes ys" for xs ys] d_intersect.simps[of True "nodes xs" "nodes ys" for xs ys]
  d_except.simps[of True "nodes xs" "nodes ys" for xs ys]

lemma union_orders:
  assumes "sorted_wrt before xs" "sorted_wrt before ys" "coherent xs ys"
  shows "orders (d_union True (nodes xs) (nodes ys)) (set xs \<union> set ys)"
  using assms
proof (induction "length xs + length ys" arbitrary: xs ys rule: less_induct)
  case less
  show ?case
  proof (cases xs; cases ys)
    fix a as b bs assume x: "xs = a # as" "ys = b # bs"
    have as: "coherent as ys" "coherent xs bs" "coherent as bs" using less.prems(3) x by (auto simp: coherent_def)
    show ?thesis
    proof (cases rule: compare_nodes_cases[of a b])
      case 1
      have "orders (o_cons (node_tuple a) (d_union True (nodes as) (nodes ys))) (insert a (set as \<union> set ys))"
        using less.prems x as 1(1) by (intro orders_cons less.hyps) (auto intro: before_trans)
      then show ?thesis using 1(2) x by (simp add: merge_simps insert_commute)
    next
      case 2
      then have ab: "a = b" using less.prems(3) x by (auto simp: coherent_def)
      have "orders (o_cons (node_tuple a) (d_union True (nodes as) (nodes bs))) (insert a (set as \<union> set bs))"
        using less.prems x as ab by (intro orders_cons less.hyps) auto
      then show ?thesis using 2(2) x ab by (simp add: merge_simps)
    next
      case 3
      have "orders (o_cons (node_tuple b) (d_union True (nodes xs) (nodes bs))) (insert b (set xs \<union> set bs))"
        using less.prems x as 3(1) by (intro orders_cons less.hyps) (auto intro: before_trans)
      then show ?thesis using 3(2) x by (simp add: merge_simps insert_commute)
    qed
  next
    fix a as assume x: "xs = a # as" "ys = []"
    have "orders (o_cons (node_tuple a) (d_union True (nodes as) (nodes ys))) (insert a (set as \<union> set ys))"
      using less.prems x by (intro orders_cons less.hyps) (auto simp: coherent_def)
    then show ?thesis using x by (simp add: merge_simps)
  next
    fix b bs assume x: "xs = []" "ys = b # bs"
    have "orders (o_cons (node_tuple b) (d_union True (nodes xs) (nodes bs))) (insert b (set xs \<union> set bs))"
      using less.prems x by (intro orders_cons less.hyps) (auto simp: coherent_def)
    then show ?thesis using x by (simp add: merge_simps)
  qed (simp add: merge_simps orders_nil)
qed

lemma intersect_orders:
  assumes "sorted_wrt before xs" "sorted_wrt before ys" "coherent xs ys"
  shows "orders (d_intersect True (nodes xs) (nodes ys)) (set xs \<inter> set ys)"
  using assms
proof (induction "length xs + length ys" arbitrary: xs ys rule: less_induct)
  case less
  show ?case
  proof (cases xs; cases ys)
    fix a as b bs assume x: "xs = a # as" "ys = b # bs"
    have as: "coherent as ys" "coherent xs bs" "coherent as bs" using less.prems(3) x by (auto simp: coherent_def)
    show ?thesis
    proof (cases rule: compare_nodes_cases[of a b])
      case 1
      then have "a \<notin> set ys" using less.prems(2) x before_head[of a b bs] by simp
      then show ?thesis using less.hyps[of as ys] less.prems as 1(2) x by (simp add: merge_simps)
    next
      case 2
      then have ab: "a = b" using less.prems(3) x by (auto simp: coherent_def)
      have "a \<notin> set as" "b \<notin> set bs" using less.prems x sorted_head by auto
      moreover have "orders (o_cons (node_tuple a) (d_intersect True (nodes as) (nodes bs))) (insert a (set as \<inter> set bs))"
        using less.prems x as by (intro orders_cons less.hyps) auto
      ultimately show ?thesis using 2(2) x ab by (simp add: merge_simps)
    next
      case 3
      then have "b \<notin> set xs" using less.prems(1) x before_head[of b a as] by simp
      then show ?thesis using less.hyps[of xs bs] less.prems as 3(2) x by (simp add: merge_simps)
    qed
  qed (simp_all add: merge_simps orders_nil)
qed

lemma except_orders:
  assumes "sorted_wrt before xs" "sorted_wrt before ys" "coherent xs ys"
  shows "orders (d_except True (nodes xs) (nodes ys)) (set xs - set ys)"
  using assms
proof (induction "length xs + length ys" arbitrary: xs ys rule: less_induct)
  case less
  show ?case
  proof (cases xs; cases ys)
    fix a as b bs assume x: "xs = a # as" "ys = b # bs"
    have as: "coherent as ys" "coherent xs bs" "coherent as bs" using less.prems(3) x by (auto simp: coherent_def)
    show ?thesis
    proof (cases rule: compare_nodes_cases[of a b])
      case 1
      then have n: "a \<notin> set ys" using less.prems(2) x before_head[of a b bs] by simp
      have "orders (o_cons (node_tuple a) (d_except True (nodes as) (nodes ys))) (insert a (set as - set ys))"
        using less.prems x as by (intro orders_cons less.hyps) auto
      then show ?thesis using 1(2) x n by (simp add: merge_simps insert_Diff_if)
    next
      case 2
      then have ab: "a = b" using less.prems(3) x by (auto simp: coherent_def)
      have "a \<notin> set as" using less.prems x sorted_head by auto
      then have "set xs - set ys = set as - set bs" using ab x by auto
      then show ?thesis using less.hyps[of as bs] less.prems as 2(2) x ab by (simp add: merge_simps)
    next
      case 3
      then have "b \<notin> set xs" using less.prems(1) x before_head[of b a as] by simp
      then have "set xs - set ys = set xs - set bs" using x(2) by auto
      then show ?thesis using less.hyps[of xs bs] less.prems as 3(2) x by (simp add: merge_simps)
    qed
  next
    fix a as assume x: "xs = a # as" "ys = []"
    have "orders (o_cons (node_tuple a) (d_except True (nodes as) (nodes ys))) (insert a (set as - set ys))"
      using less.prems x by (intro orders_cons less.hyps) (auto simp: coherent_def)
    then show ?thesis using x by (simp add: merge_simps)
  qed (simp_all add: merge_simps orders_nil)
qed

end
