(* ===== verification/XqProperties.thy ===== *)
theory XqProperties
  imports XqPlanContract
begin

text \<open>
  Properties of query plans: what a client gets from a plan, the set operations on sequences of nodes, and a plan whose
  operator does not start over.
\<close>

section \<open>Definitions\<close>

text \<open>A context for examples: integers are the only numbers, and a node's value is the length of its label.\<close>

definition integers_only :: xq_context where
  "integers_only =
     \<lparr>typed_value = (\<lambda>l. Inr (Xs_integer (int (length l)))),
      cast_integer = (\<lambda>a. case a of Xs_integer i \<Rightarrow> Inr i | _ \<Rightarrow> Inl (Raised 0)),
      round_double = (\<lambda>a. case a of Xs_integer i \<Rightarrow> Inr (Whole i) | _ \<Rightarrow> Inl (Raised 0)),
      cast_double = (\<lambda>a. Inl (Raised 0)),
      op_eq = (\<lambda>a b. Inr (a = b)),
      op_add = (\<lambda>a b. case (a, b) of (Xs_integer i, Xs_integer j) \<Rightarrow> Inr (Xs_integer (i + j)) | _ \<Rightarrow> Inl (Raised 0)),
      op_div = (\<lambda>a b. case (a, b) of (Xs_integer i, Xs_integer j) \<Rightarrow> if j = 0 then Inl (Raised 1) else Inr (Xs_integer (i div j)) | _ \<Rightarrow> Inl (Raised 0)),
      other_boolean = (\<lambda>ty v. Inl (Raised 0)),
      type_matches_single = (\<lambda>ty c. True)\<rparr>"


text \<open>\<^verbatim>\<open>for $x in (0, 1) return avg(1 to $x)\<close>\<close>

definition averages :: pp where
  "averages = PPReturn [0] None None (PPSequence [PPConst (int_cell 0), PPConst (int_cell 1)])
     (PPFnSumAvg True (PPRange (PPConst (int_cell 1)) (PPVariable 0)) None)"

text \<open>Sequences of nodes with the labels 1, 2 and 2, 3.\<close>

definition node_list :: "nat list \<Rightarrow> node list" where
  "node_list = map (\<lambda>i. ([i], \<lparr>layer = 1, offs = of_nat i\<rparr>))"

definition node_plan :: "nat list \<Rightarrow> pp" where
  "node_plan is = PPSequence (map (\<lambda>a. PPConst (NodeCell (fst a) (snd a))) (node_list is))"

section \<open>Properties\<close>



text \<open>
  C9. The plans for union, intersection and difference deliver set operations: for operands that give nodes in document order
  without duplicates, the client gets the nodes in the union, the intersection or the difference of the two sets, in document
  order and without duplicates.
\<close>

theorem set_operations:
  assumes "restarts e1" "restarts e2" "meaning cx e1 \<rho> = nodes xs" "meaning cx e2 \<rho> = nodes ys"
    and "sorted_wrt before xs" "sorted_wrt before ys" "coherent xs ys"
  shows "(\<exists>r p. settles (\<lambda>m. drain cx m m \<rho> (open_plan (PPUnion True e1 e2))) (r, p) \<and> orders r (set xs \<union> set ys))
    \<and> (\<exists>r p. settles (\<lambda>m. drain cx m m \<rho> (open_plan (PPIntersect True e1 e2))) (r, p) \<and> orders r (set xs \<inter> set ys))
    \<and> (\<exists>r p. settles (\<lambda>m. drain cx m m \<rho> (open_plan (PPExcept True e1 e2))) (r, p) \<and> orders r (set xs - set ys))"
proof -
  have "\<exists>p. settles (\<lambda>m. drain cx m m \<rho> (open_plan e)) (meaning cx e \<rho>, p)" if "restarts e" for e
    by (rule serves_delivers[OF plan_serves[OF that]])
  from this[of "PPUnion True e1 e2"] this[of "PPIntersect True e1 e2"] this[of "PPExcept True e1 e2"]
  show ?thesis using assms(1-4) union_orders[OF assms(5-7)] intersect_orders[OF assms(5-7)] except_orders[OF assms(5-7)]
    by (simp only: restarts.simps meaning.simps) blast
qed

theorem set_operations_witness:
  "\<exists>r p. settles (\<lambda>m. drain integers_only m m (\<lambda>_. EosCell) (open_plan (PPExcept True (node_plan [1, 2]) (node_plan [2, 3])))) (r, p)
     \<and> orders r (set (node_list [1]))"
proof -
  have m: "meaning integers_only (node_plan is) (\<lambda>_. EosCell) = nodes (node_list is)" for "is"
    by (induction "is") (auto simp: node_plan_def nodes_def node_list_def one_def o_append_def)
  have d: "set (node_list [1, 2]) - set (node_list [2, 3]) = set (node_list [1])" by (auto simp: node_list_def)
  have "sorted_wrt before (node_list [1, 2])" "sorted_wrt before (node_list [2, 3])" "coherent (node_list [1, 2]) (node_list [2, 3])"
    by (simp_all add: node_list_def before_def nid_cmp_def coherent_def)
  moreover have "restarts (node_plan is)" for "is" by (simp add: node_plan_def list_all_length)
  ultimately show ?thesis using set_operations[OF _ _ m m, of "[1, 2]" "[2, 3]"] by (simp only: d)
qed

text \<open>
  C40. The average without a value for the empty sequence does not start over: after an empty sequence it keeps the state behind
  a result, so that its next use ends at once. The query for $x in (0, 1) return avg(1 to $x) delivers nothing, although its
  meaning is the average of the one number 1.
\<close>

theorem average_loses_result:
  "(\<exists>p. \<forall>n. drain cx (n + 20) (n + 20) \<rho> (open_plan averages) = Some (([], None), p))
   \<and> meaning cx averages \<rho> = with_value (op_div cx (Xs_integer 1) (Xs_integer 1)) (\<lambda>a. one (AtomicCell a))"
proof
  show "meaning cx averages \<rho> = with_value (op_div cx (Xs_integer 1) (Xs_integer 1)) (\<lambda>a. one (AtomicCell a))"
    by (cases "op_div cx (Xs_integer 1) (Xs_integer 1)")
      (simp_all add: averages_def one_def o_append_def bind_tuple_def type_error_def d_sum_avg_def sum_item_def o_integer_def atomize_def int_cell_def get_def
        integer_argument_def d_range_def INT64_MAX_def upto.simps fails_def)
  show "\<exists>p. \<forall>n. drain cx (n + 20) (n + 20) \<rho> (open_plan averages) = Some (([], None), p)"
    by (rule exI, rule allI)
      (simp add: averages_def open_defs numeral_eq_Suc PPReturn_next_def PPSequence_next_def PPConst_next_def PPFnSumAvg_next_def PPRange_next_def PPVariable_next_def
        getIntFromOp_def bnd_def ret_def atomize_def get_def int_cell_def integer_argument_def bind_tuple_def INT64_MAX_def)
qed

end
