(* ===== verification/Spec2Isabelle.thy ===== *)
theory Spec2Isabelle
  imports LockServer SnapshotProperties ClientProperties NidProperties NodeProperties XqProperties
begin

text \<open>
  A verification of parts of the Sedna XML database: of the storage manager (\<^verbatim>\<open>src/kernel/sm\<close> and the client
  side in \<^verbatim>\<open>src/kernel/tr/locks\<close>), and of the numbering scheme, node sequences and query operators of the
  transaction process (\<^verbatim>\<open>src/kernel/tr\<close>).

  \<^bold>\<open>The program.\<close> Transactions run in processes of their own and talk to one storage manager process.
  Before a transaction touches a document it asks the storage manager for a lock; the lock manager keeps a
  queue of requests per resource and looks for deadlocks. Read-only transactions take no locks: they read
  from a snapshot. The version manager keeps, for every snapshot, the old versions of blocks that only
  snapshots still need, and frees them when snapshots are discarded. It knows its clients through a table
  of per-client state blocks. Inside a transaction, every node of a document has a label, a string of bytes,
  from which document order and the ancestor relation are read off; operators and updates sort sequences of
  nodes by it. A query runs as a tree of operators that ask each other for tuples, one call of \<^verbatim>\<open>next\<close> at a time.

  \<^bold>\<open>The theories, lock manager.\<close>
  \<^item> \<^verbatim>\<open>LockModes\<close>: modes, their join and the compatibility matrix, resources and their keys
    (\<^verbatim>\<open>common/lm_base.h\<close>, \<^verbatim>\<open>sm/lm/lock_table.cpp\<close>). The locale \<^verbatim>\<open>mode_algebra\<close> holds what the queue
    needs of modes and is interpreted on them.
  \<^item> \<^verbatim>\<open>LockQueue\<close>: the queue of one resource: a new request, a conversion, and the traversal in
    \<^verbatim>\<open>lock_table::unlock\<close> that wakes waiters; the invariant of a queue.
  \<^item> \<^verbatim>\<open>TransChain\<close>: the doubly linked list of the requests of a transaction as a store of nodes, so that
    links into deleted nodes show (\<^verbatim>\<open>lock_request::~lock_request\<close>).
  \<^item> \<^verbatim>\<open>LockTable\<close>: both tables together, \<^verbatim>\<open>lock\<close>, \<^verbatim>\<open>unlock\<close>, \<^verbatim>\<open>release_tr_locks\<close>. The loop of the latter
    has a counter; the number of requests of the transaction is enough, which is proved.
  \<^item> \<^verbatim>\<open>Deadlock\<close>: \<^verbatim>\<open>lock_table::deadlock\<close> as a depth first search over the waits-for graph with the fixed
    array of visited transactions. The depth counter is the capacity of the array plus one; each level adds
    a transaction to the array, so it never runs out before the array does.
  \<^item> \<^verbatim>\<open>LockServer\<close>: messages 3, 4 and 5 of \<^verbatim>\<open>sm/sm.cpp\<close> and the lock manager of a transaction
    (\<^verbatim>\<open>tr/locks/locks.cpp\<close>), with the states these messages reach.

  \<^bold>\<open>The theories, version manager.\<close>
  \<^item> \<^verbatim>\<open>WuTypes\<close>: timestamps and addresses as 64-bit words, error codes.
  \<^item> \<^verbatim>\<open>GcChains\<close>, \<^verbatim>\<open>Snapshots\<close>, \<^verbatim>\<open>SnapshotOps\<close>, \<^verbatim>\<open>SnapshotApi\<close>, \<^verbatim>\<open>DfvHeader\<close>, \<^verbatim>\<open>VersionEnum\<close>: the
    functions of \<^verbatim>\<open>sm/wu/wusnapshots.cpp\<close>. A snapshot is a position in a list; it owns a chain of nodes,
    one node for each number of younger snapshots it shares a version with. Discarding merges and rotates
    these chains.
  \<^item> \<^verbatim>\<open>SnapshotInv\<close>, \<^verbatim>\<open>SnapshotViews\<close>, \<^verbatim>\<open>DfvViews\<close>, \<^verbatim>\<open>EnumViews\<close>: the invariant of the module and that every
    function keeps it; the versions that belong to a snapshot as a multiset and how each function changes
    it; which version of a block a snapshot sees; what a checkpoint is told.
  \<^item> \<^verbatim>\<open>SnapshotProperties\<close>: the states reachable through the public functions, and the properties.
  \<^item> \<^verbatim>\<open>WuAux\<close>, \<^verbatim>\<open>StateTable\<close>, \<^verbatim>\<open>WuClients\<close>: \<^verbatim>\<open>sm/wu/wuaux.h\<close>, \<^verbatim>\<open>wustatetable.cpp\<close> and \<^verbatim>\<open>wuclients.cpp\<close>.
    The state table is one allocation of 32-bit words.
  \<^item> \<^verbatim>\<open>StateTableViews\<close>, \<^verbatim>\<open>ClientViews\<close>, \<^verbatim>\<open>ClientProperties\<close>: the layout of the table, vacancy, addresses of
    cells; registered and ready clients as sets; the properties.

  \<^bold>\<open>The theories, nodes.\<close> A node is represented by its label.
  \<^item> \<^verbatim>\<open>NidLex\<close>, \<^verbatim>\<open>NidScheme\<close>: \<^verbatim>\<open>tr/nid/lex.cpp\<close> and \<^verbatim>\<open>tr/nid/numb_scheme.cpp\<close>, the arithmetic of labels, their
    comparison and the generators of labels before, behind, between and below given ones.
  \<^item> \<^verbatim>\<open>NidOrder\<close>, \<^verbatim>\<open>NidCreate\<close>: comparison as an order, and where the generated labels lie in it.
  \<^item> \<^verbatim>\<open>NidTree\<close>: \<^verbatim>\<open>createNID\<close> of \<^verbatim>\<open>tr/mo/nodeinsert.cpp\<close>; trees of labelled nodes under insertion and deletion and
    their specification, trees without labels.
  \<^item> \<^verbatim>\<open>NidLoad\<close>: labels with the hints of \<^verbatim>\<open>tr/updates/bulkload.cpp\<close>; \<^verbatim>\<open>NidRoots\<close>: labels of documents;
    \<^verbatim>\<open>NidArith\<close>: labels as numbers in base 255; \<^verbatim>\<open>NidProperties\<close>: the properties.
  \<^item> \<^verbatim>\<open>SeqSort\<close>: \<^verbatim>\<open>sort_template\<close> of \<^verbatim>\<open>tr/executor/base/xptr_sequence.cpp\<close> for any comparator. Its fuel is the length
    of the segment, which is enough because each part is shorter. The locale \<^verbatim>\<open>comparator\<close> holds the laws of a
    comparator; \<^verbatim>\<open>NodeSequence\<close> interprets it for both comparators of the source and models the storage of a
    sequence. \<^verbatim>\<open>NodeDelete\<close>: \<^verbatim>\<open>delete_deep\<close> of \<^verbatim>\<open>tr/updates/deletions.cpp\<close>; \<^verbatim>\<open>NodeProperties\<close>: the properties.

  \<^bold>\<open>The theories, query operators.\<close> \<^verbatim>\<open>tr/executor/xqops\<close> and \<^verbatim>\<open>tr/executor/base\<close>.
  \<^item> \<^verbatim>\<open>XqCells\<close>: cells, tuples, comparison of nodes, boolean values. \<^verbatim>\<open>XqPlans\<close>: plans as trees, opened plans with the
    fields of the operators, \<^verbatim>\<open>do_open\<close> and \<^verbatim>\<open>do_reopen\<close>. \<^verbatim>\<open>XqSequenceOps\<close>, \<^verbatim>\<open>XqNodeOps\<close>, \<^verbatim>\<open>XqBindings\<close>: \<^verbatim>\<open>do_next\<close> of 29
    operators and \<^verbatim>\<open>next\<close> of a plan, which has fuel for the depth of calls; a loop over a child has the same fuel.
    That enough fuel always gives a result is part of the properties.
  \<^item> \<^verbatim>\<open>XqMeaning\<close>: the meaning of a plan by recursion on the tree, tuples with the error that ends them, if one does.
  \<^item> \<^verbatim>\<open>XqContract\<close>: the contract between operators as a coinductive predicate: an operator gives the tuples of its
    meaning, then the end or the error; after the end, and when it is opened again, it starts over under the values the
    variables have by then. \<^verbatim>\<open>XqServes\<close>, \<^verbatim>\<open>XqWhole\<close>, \<^verbatim>\<open>XqStreams\<close>, \<^verbatim>\<open>XqSlices\<close>, \<^verbatim>\<open>XqPositions\<close>, \<^verbatim>\<open>XqMerge\<close>, \<^verbatim>\<open>XqFlwor\<close>: each operator
    keeps the contract if its children do. \<^verbatim>\<open>XqPlanContract\<close>: so do plans, by induction; what a client gets; merges as
    operations on sets. \<^verbatim>\<open>XqProperties\<close>: the properties. Two operators do not start over and are left out of
    them by the predicate \<^verbatim>\<open>restarts\<close>: the average without a value for the empty sequence, with a query whose result is lost,
    and the sequence with spaces.

  This theory holds the properties of the lock manager, which span its components.

  \<^bold>\<open>What is shown.\<close> For the lock manager: mutual exclusion in all states reached while locks are given back
  only outside deadlocks, exactness of the deadlock detector, the outcome of a lock request from the client
  to the storage manager and back, that releasing forgets a transaction, the wire format, and three runs in
  which the code does not do what it means to. For snapshots: the invariant, what discarding frees, who owns
  a version, that readers keep their snapshot, what a version header expands to, what a checkpoint is told.
  For clients: the invariant, that state blocks do not overlap, registration, enumeration, and three runs
  in which a check of the code fails. For nodes: labels decide document order and ancestors in every tree
  that insertions and deletions build; labels of different documents, and of loaded children, with a number of
  children for which loading gives all the same label; the sort is correct; a sequence is a list; a deletion
  deletes each topmost node once. For queries: a plan delivers its meaning in finitely many calls, again after the end
  and when it is opened again; union, intersection and difference are set operations; a query that loses a result.

  \<^bold>\<open>Conventions.\<close> A function that can throw returns \<open>error + result\<close>; a function that can fail after it has
  changed the state returns the error, if any, with the state. An \<^verbatim>\<open>assert\<close> that does not hold and a null
  pointer that is followed are errors. System calls for semaphores and mutexes succeed. Memory allocation
  and the callback that frees a block are parameters.

  \<^bold>\<open>Not modelled.\<close> Debug dumps and guard memory. The version headers in block buffers
  (\<^verbatim>\<open>sm/wu/wuversions.cpp\<close>), the buffer manager, the physical log and recovery, node storage (with the
  place of a label in a node descriptor), indices and full text search work in place on blocks in mapped memory. The process control, sockets and operating
  system layer are system calls. The query parser is generated. Of the query operators, axes and constructors work on
  node storage, let, order by and function calls share buffers or copies of plans between operators; \<^verbatim>\<open>close\<close>, the limit on the
  depth of calls and the timer are left out. Casts, comparison and arithmetic of atomic values are parameters.
\<close>

section \<open>Runs of the lock manager\<close>

text \<open>Two transactions hold the same resource in modes that exclude each other.\<close>

definition conflicting_holders :: "lm_state \<Rightarrow> transaction_id \<Rightarrow> transaction_id \<Rightarrow> string \<Rightarrow> bool" where
  "conflicting_holders s t1 t2 k \<longleftrightarrow>
     (case (request_at s t1 k, request_at s t2 k) of
        (Some r1, Some r2) \<Rightarrow> holds r1 \<and> holds r2 \<and> \<not> lock_compat (rq_mode r1) (rq_mode r2)
      | _ \<Rightarrow> False)"

text \<open>Two readers of one document, and two writers that wait for each other.\<close>

definition two_readers :: "sm_msg list" where
  "two_readers = [ask 1 ''rbx'', ask 1 ''sda'', ask 2 ''rbx'', ask 2 ''sda'']"

definition two_writers :: "sm_msg list" where
  "two_writers = [ask 1 ''xda'', ask 2 ''xdb'', ask 1 ''xdb'', ask 2 ''xda'']"


definition reader :: LocalLockMgr where
  "reader = \<lparr>tr_ro_mode = False, llm_mode = lm_s\<rparr>"

text \<open>
  C1. Mutual exclusion. In every state the lock manager reaches while transactions give back their
  locks only when the others are not deadlocked among themselves, two different transactions that hold
  the same resource hold it in compatible modes.
\<close>

theorem holders_compatible:
  assumes "calm_reachable s" and "request_at s t1 k = Some r1" "request_at s t2 k = Some r2" and "t1 \<noteq> t2" and "holds r1" "holds r2"
  shows "lock_compat (rq_mode r1) (rq_mode r2)"
proof -
  obtain h where h: "find_lock s k = Some h" and r: "find_request t1 (lh_queue h) = Some r1" "find_request t2 (lh_queue h) = Some r2"
    using assms(2,3) by (auto simp: request_at_def bind_eq_Some_conv)
  have "group_compat (lh_queue h)" using calm_reachable_safe[OF assms(1)] h by (auto simp: lm_safe_def head_inv_def queue_inv_def)
  then show ?thesis using group_compat_holders find_request_in[OF r(1)] find_request_in[OF r(2)] assms(4-6) by blast
qed

theorem holders_compatible_witness:
  "\<exists>s r1 r2. sm_run two_readers lm_init = Inr s \<and> request_at s 1 ''_doc_a'' = Some r1 \<and> request_at s 2 ''_doc_a'' = Some r2
     \<and> lock_compat (rq_mode r1) (rq_mode r2)"
proof -
  have p: "polite two_readers lm_init" by code_simp
  have "case sm_run two_readers lm_init of Inl _ \<Rightarrow> False | Inr s \<Rightarrow>
      (case request_at s 1 ''_doc_a'' of None \<Rightarrow> False | Some r1 \<Rightarrow> holds r1) \<and> (case request_at s 2 ''_doc_a'' of None \<Rightarrow> False | Some r2 \<Rightarrow> holds r2)"
    by code_simp
  then obtain s r1 r2 where s: "sm_run two_readers lm_init = Inr s" "request_at s 1 ''_doc_a'' = Some r1" "request_at s 2 ''_doc_a'' = Some r2" "holds r1" "holds r2"
    by (auto split: sum.splits option.splits)
  with holders_compatible[OF polite_run[OF calm_init p s(1)] s(2,3) _ s(4,5)] show ?thesis by auto
qed

text \<open>
  C2. The deadlock detector is exact. In every reachable state with at most as many transactions as the
  detector has room for, it returns, and it reports a deadlock for a transaction exactly if that
  transaction is on a cycle of the waits-for graph.
\<close>

theorem deadlock_exact:
  assumes "sm_reachable s" and "t \<in> transactions s" and "card (transactions s) \<le> CHARISMA_MAX_TRNS_NUMBER"
  shows "deadlock s t = Inr ((t, t) \<in> (waits_for s)\<^sup>+)"
  using deadlock_total[OF sm_reachable_ok[OF assms(1)] assms(2,3)] deadlock_found_iff by blast

theorem deadlock_exact_witness:
  "\<exists>s. sm_run two_writers lm_init = Inr s \<and> deadlock s 2 = Inr True \<and> (2, 2) \<in> (waits_for s)\<^sup>+"
proof -
  have p: "polite two_writers lm_init" by code_simp
  have "case sm_run two_writers lm_init of Inl _ \<Rightarrow> False | Inr s \<Rightarrow> map fst (tr_table s) = [1, 2] \<and> deadlock s 2 = Inr True"
    by code_simp
  then obtain s where s: "sm_run two_writers lm_init = Inr s" "map fst (tr_table s) = [1, 2]" "deadlock s 2 = Inr True"
    by (auto split: sum.splits)
  have "transactions s = set (map fst (tr_table s))" by (simp add: transactions_tr_table)
  then have t: "transactions s = {1, 2}" unfolding s(2) by simp
  have "deadlock s 2 = Inr ((2, 2) \<in> (waits_for s)\<^sup>+)"
    using deadlock_exact[OF polite_reachable[OF p s(1)], of 2] t by (simp add: CHARISMA_MAX_TRNS_NUMBER_def)
  with s show ?thesis by auto
qed

text \<open>
  C3. What asking for a lock means, from the client to the storage manager and back. In a reachable state
  with room for one more transaction, a client that is not suspended and not read-only and asks for a
  resource either goes on with the resource granted in at least the mode asked for, or is suspended
  without being on a cycle of waits, or is refused with error 4703, and then it is on such a cycle. The
  state the storage manager is left in satisfies the invariant in each case.
\<close>

theorem obtain_lock_outcome:
  assumes "sm_reachable s" and "wait_of s (env_trid e) = None" and "CHR 0x00 \<notin> set name" and "\<not> tr_ro_mode g"
    and "card (insert (env_trid e) (transactions s)) \<le> CHARISMA_MAX_TRNS_NUMBER"
  shows "\<exists>s' c. lm_ok s'
    \<and> obtain_outcome (env_trid e) \<lparr>res_name = name, res_kind = kind\<rparr>
         (if i then (if llm_mode g = lm_s then lm_is else lm_ix) else (if llm_mode g = lm_s then lm_s else lm_x)) s' c
    \<and> obtain_lock sm_send w g e name kind i s =
         (if c = CHR ''1'' then Inr s' else if c = CHR ''0'' then Inr (w s') else Inl (SE4703, s'))"
  using obtain_lock_sm_spec[OF sm_reachable_ok[OF assms(1)] assms(2-5)] by metis

definition reader_env :: tr_env where
  "reader_env = \<lparr>env_trid = 1, env_sid = 1, env_db_name = ''x''\<rparr>"

theorem obtain_lock_outcome_witness:
  "\<exists>s' c. obtain_outcome 1 \<lparr>res_name = ''a'', res_kind = LM_DOCUMENT\<rparr> lm_s s' c
     \<and> obtain_lock sm_send id reader reader_env ''a'' LM_DOCUMENT False lm_init =
         (if c = CHR ''1'' then Inr s' else if c = CHR ''0'' then Inr (id s') else Inl (SE4703, s'))"
proof -
  have h: "wait_of lm_init (env_trid reader_env) = None" "CHR 0x00 \<notin> set ''a''" "\<not> tr_ro_mode reader" by code_simp+
  have "transactions lm_init = {}" by (simp add: transactions_tr_table lm_init_def)
  then have "card (insert (env_trid reader_env) (transactions lm_init)) \<le> CHARISMA_MAX_TRNS_NUMBER"
    by (simp add: CHARISMA_MAX_TRNS_NUMBER_def)
  from obtain_lock_outcome[OF sm_reachable.initial h this, of LM_DOCUMENT False id] obtain s' c where
    o: "obtain_outcome (env_trid reader_env) \<lparr>res_name = ''a'', res_kind = LM_DOCUMENT\<rparr>
          (if False then (if llm_mode reader = lm_s then lm_is else lm_ix) else (if llm_mode reader = lm_s then lm_s else lm_x)) s' c"
    and e: "obtain_lock sm_send id reader reader_env ''a'' LM_DOCUMENT False lm_init =
          (if c = CHR ''1'' then Inr s' else if c = CHR ''0'' then Inr (id s') else Inl (SE4703, s'))"
    by (elim exE conjE)
  have "env_trid reader_env = 1" "llm_mode reader = lm_s" by code_simp+
  with o have "obtain_outcome 1 \<lparr>res_name = ''a'', res_kind = LM_DOCUMENT\<rparr> lm_s s' c" by simp
  with e show ?thesis by (intro exI conjI)
qed

text \<open>
  C4. Giving back all locks. In a reachable state message 4 succeeds, keeps the invariant, forgets the
  transaction and leaves none of its requests in any queue.
\<close>

theorem release_forgets:
  assumes "sm_reachable s" and "msg_cmd msg = 4"
  shows "\<exists>s'. sm_lock_handler msg s = Inr (msg, s') \<and> lm_ok s' \<and> msg_trid msg \<notin> transactions s'
           \<and> (\<forall>k. request_at s' (msg_trid msg) k = None)"
proof -
  note ok = sm_reachable_ok[OF assms(1)]
  obtain s1 where r: "release_tr_locks s (msg_trid msg) = Inr (s1, LOCK_OK)" "lm_ok s1" by (rule release_ok[OF ok])
  with release_tr_locks_spec[OF lm_okD(1)[OF ok], of "msg_trid msg"] have n: "find_tr_lock_head s1 (msg_trid msg) = None" by auto
  have "request_at s1 (msg_trid msg) k = None" for k
    using no_entry_no_request[OF lm_okD(1)[OF r(2)] n] by (cases "find_lock s1 k") (auto simp: request_at_def)
  with r n assms(2) show ?thesis by (auto simp: sm_lock_handler_def handle_release_def transactions_def)
qed

theorem release_forgets_witness:
  "\<exists>s s'. sm_run two_writers lm_init = Inr s \<and> sm_lock_handler (give_back 2) s = Inr (give_back 2, s') \<and> 2 \<notin> transactions s'"
proof -
  have p: "polite two_writers lm_init" by code_simp
  have "case sm_run two_writers lm_init of Inl _ \<Rightarrow> False | Inr s \<Rightarrow> True" by code_simp
  then obtain s where s: "sm_run two_writers lm_init = Inr s" by (auto split: sum.splits)
  with release_forgets[OF polite_reachable[OF p s], of "give_back 2"] show ?thesis by (auto simp: give_back_def)
qed

text \<open>
  C5. The wire format. The storage manager decodes from the message that the client builds the resource,
  its kind and the mode that were asked for, for every name without a zero byte.
\<close>

theorem lock_message_roundtrip:
  assumes "CHR 0x00 \<notin> set name"
  shows "msg_resource (msg_data (obtain_msg g e name kind i)) = \<lparr>res_name = name, res_kind = kind\<rparr>
    \<and> msg_mode (msg_data (obtain_msg g e name kind i)) =
        (if i then (if llm_mode g = lm_s then lm_is else lm_ix) else (if llm_mode g = lm_s then lm_s else lm_x))"
  using obtain_msg_decode[OF assms] by simp

theorem lock_message_roundtrip_witness:
  "msg_resource (msg_data (obtain_msg reader reader_env ''a'' LM_TRIGGER True)) = \<lparr>res_name = ''a'', res_kind = LM_TRIGGER\<rparr>"
  using lock_message_roundtrip[of "''a''" reader reader_env LM_TRIGGER True] by simp

text \<open>
  C6. Resources do not share a lock: the key of the lock table determines the name and the kind.
\<close>

theorem resource_key_injective:
  "get_str_res_id r = get_str_res_id r' \<longleftrightarrow> r = r'"
  using kind_tag_inj by (auto simp: get_str_res_id_def intro: resource_id.equality)

text \<open>
  C33. A conversion can be granted against a holder. With a third transaction letting go of the database
  while two others wait for conversions that exclude each other, the first of the two is granted the
  shared mode although the second still holds it with the intention to write: the check before the grant
  looks at granted requests only, not at converting ones.
\<close>

theorem conversion_conflict:
  "\<exists>s. sm_run [ask 1 ''wbx'', ask 2 ''wbx'', ask 3 ''wbx'', ask 1 ''sbx'', ask 2 ''xbx'', give_back 3] lm_init = Inr s
     \<and> conflicting_holders s 1 2 ''_dtb_x''"
proof -
  have "case sm_run [ask 1 ''wbx'', ask 2 ''wbx'', ask 3 ''wbx'', ask 1 ''sbx'', ask 2 ''xbx'', give_back 3] lm_init of
          Inl _ \<Rightarrow> False | Inr s \<Rightarrow> conflicting_holders s 1 2 ''_dtb_x''"
    by code_simp
  then show ?thesis by (auto split: sum.splits)
qed



end
